theory Spec2Isabelle
  imports Main "HOL-Library.Word"
begin

unbundle bit_operations_syntax

section \<open>The BFS block allocator (BlockAllocator.cpp)\<close>

text \<open>
  The model follows the release build of the source: \<^verbatim>\<open>DEBUG\<close>, \<^verbatim>\<open>KDEBUG\<close>,
  \<^verbatim>\<open>BFS_TRACING\<close> and \<^verbatim>\<open>DEBUG_ALLOCATION_GROUPS\<close> are off, so \<^verbatim>\<open>ASSERT\<close>, \<^verbatim>\<open>T(...)\<close> and
  \<^verbatim>\<open>CHECK_ALLOCATION_GROUP\<close> expand to nothing. The on-disk byte order of BFS is the
  host's (little endian), so \<^verbatim>\<open>HOST_ENDIAN_TO_BFS_INT32\<close> is the identity.

  Scalars are integers; the conversions the C++ code performs are written out with
  \<open>u16\<close>, \<open>u32\<close> and \<open>i32\<close>. Arithmetic on \<^verbatim>\<open>int32\<close> values whose overflow is
  undefined behaviour in the source is plain integer arithmetic.
\<close>

subsection \<open>Scalars and status codes\<close>

definition u16 :: "int \<Rightarrow> int" where
  "u16 x = x mod 65536"

definition u32 :: "int \<Rightarrow> int" where
  "u32 x = x mod 4294967296"

definition i32 :: "int \<Rightarrow> int" where
  "i32 x = (x + 2147483648) mod 4294967296 - 2147483648"

datatype status_t = B_OK | B_BAD_VALUE | B_DEVICE_FULL | B_IO_ERROR | B_ERROR

subsection \<open>Data model\<close>

text \<open>
  A bitmap block is an array of 32-bit chunks (\<^verbatim>\<open>Chunk(index)\<close>); the block bitmap on
  disk maps a block number to its chunks. The block cache hands out a block or fails;
  \<open>cache_ok\<close> says on which block numbers \<^verbatim>\<open>CachedBlock::SetTo\<close> and
  \<^verbatim>\<open>CachedBlock::SetToWritable\<close> succeed.
\<close>

type_synonym block_data = "nat \<Rightarrow> 32 word"
type_synonym bitmap = "int \<Rightarrow> block_data"

record Volume =
  BlockSize :: int
  cache_ok :: "int \<Rightarrow> bool"
  Log_AllocationGroup :: int
  Log_Start :: int
  Log_Length :: int

record AllocationGroup =
  fNumBits :: int
  fNumBitmapBlocks :: int
  fStart :: int
  fFirstFree :: int
  fFreeBits :: int
  fLargestStart :: int
  fLargestLength :: int
  fLargestValid :: bool

record AllocationBlock =
  ab_fNumBits :: int
  ab_fBlockNumber :: int

record block_run =
  run_allocation_group :: int
  run_start :: int
  run_length :: int

subsection \<open>AllocationBlock\<close>

definition AllocationBlock_SetTo ::
  "Volume \<Rightarrow> AllocationGroup \<Rightarrow> int \<Rightarrow> AllocationBlock option" where
  "AllocationBlock_SetTo volume grp block =
     (let fNumBits0 = u32 (BlockSize volume * 8);
          fNumBits1 = (if u32 ((block + 1) * fNumBits0) > fNumBits grp
                       then fNumBits grp mod fNumBits0 else fNumBits0)
      in if cache_ok volume (fStart grp + block)
         then Some \<lparr>ab_fNumBits = fNumBits1, ab_fBlockNumber = fStart grp + block\<rparr>
         else None)"

definition AllocationBlock_SetToWritable ::
  "Volume \<Rightarrow> AllocationGroup \<Rightarrow> int \<Rightarrow> AllocationBlock option" where
  "AllocationBlock_SetToWritable volume grp block =
     (let fNumBits0 = u32 (BlockSize volume * 8);
          fNumBits1 = (if u32 ((block + 1) * fNumBits0) > fNumBits grp
                       then fNumBits grp mod fNumBits0 else fNumBits0)
      in if cache_ok volume (fStart grp + block)
         then Some \<lparr>ab_fNumBits = fNumBits1, ab_fBlockNumber = fStart grp + block\<rparr>
         else None)"

text \<open>\<^verbatim>\<open>IsUsed(uint16 block)\<close>: the argument is a 16-bit value, given as a natural number.\<close>

definition AllocationBlock_IsUsed :: "AllocationBlock \<Rightarrow> block_data \<Rightarrow> nat \<Rightarrow> bool" where
  "AllocationBlock_IsUsed cached fBlock block =
     (if int block > ab_fNumBits cached then True
      else fBlock (block div 32) AND push_bit (block mod 32) 1 \<noteq> 0)"

text \<open>The inner \<^verbatim>\<open>for\<close> loop of \<^verbatim>\<open>AllocationBlock::Allocate\<close> that builds the msk of one chunk.\<close>

function Allocate_mask :: "nat \<Rightarrow> nat \<Rightarrow> 32 word \<Rightarrow> 32 word \<times> nat" where
  "Allocate_mask i numBlocks msk =
     (if i < 32 \<and> numBlocks \<noteq> 0
      then Allocate_mask (i + 1) (numBlocks - 1) (msk OR push_bit i 1)
      else (msk, numBlocks))"
  by pat_completeness auto
termination
  by (relation "measure (\<lambda>(i, numBlocks, msk). 32 - i)") auto

function Free_mask :: "nat \<Rightarrow> nat \<Rightarrow> 32 word \<Rightarrow> 32 word \<times> nat" where
  "Free_mask i numBlocks msk =
     (if i < 32 \<and> numBlocks \<noteq> 0
      then Free_mask (i + 1) (numBlocks - 1) (msk OR push_bit (i mod 32) 1)
      else (msk, numBlocks))"
  by pat_completeness auto
termination
  by (relation "measure (\<lambda>(i, numBlocks, msk). 32 - i)") auto

declare Allocate_mask.simps [simp del] Free_mask.simps [simp del]

lemma Allocate_mask_count:
  "snd (Allocate_mask i n m) = n - min n (32 - i)"
proof (induction i n m rule: Allocate_mask.induct)
  case (1 i n m)
  show ?case
  proof (cases "i < 32 \<and> n \<noteq> 0")
    case True
    then have "snd (Allocate_mask i n m) = (n - 1) - min (n - 1) (32 - (i + 1))"
      using "1" by (subst Allocate_mask.simps) simp
    also have "\<dots> = n - min n (32 - i)"
      using True by (simp add: min_def) arith
    finally show ?thesis .
  next
    case False
    then show ?thesis
      by (subst Allocate_mask.simps) (auto simp: min_def)
  qed
qed

lemma Free_mask_count:
  "snd (Free_mask i n m) = n - min n (32 - i)"
proof (induction i n m rule: Free_mask.induct)
  case (1 i n m)
  show ?case
  proof (cases "i < 32 \<and> n \<noteq> 0")
    case True
    then have "snd (Free_mask i n m) = (n - 1) - min (n - 1) (32 - (i + 1))"
      using "1" by (subst Free_mask.simps) simp
    also have "\<dots> = n - min n (32 - i)"
      using True by (simp add: min_def) arith
    finally show ?thesis .
  next
    case False
    then show ?thesis
      by (subst Free_mask.simps) (auto simp: min_def)
  qed
qed

text \<open>
  \<^verbatim>\<open>AllocationBlock::Allocate(uint16 start, uint16 numBlocks)\<close>: the \<^verbatim>\<open>while\<close> loop over
  the chunks, \<open>block\<close> being the chunk index.
\<close>

function AllocationBlock_Allocate_loop ::
  "block_data \<Rightarrow> nat \<Rightarrow> nat \<Rightarrow> nat \<Rightarrow> block_data" where
  "AllocationBlock_Allocate_loop fBlock block start numBlocks =
     (if numBlocks > 0
      then (case Allocate_mask (start mod 32) numBlocks 0 of
              (msk, numBlocks') \<Rightarrow>
                AllocationBlock_Allocate_loop (fBlock(block := fBlock block OR msk))
                  (block + 1) 0 numBlocks')
      else fBlock)"
  by pat_completeness auto
termination
proof (relation "measure (\<lambda>(fBlock, block, start, numBlocks). numBlocks)", goal_cases)
  case 1
  show ?case by simp
next
  case (2 fBlock block start numBlocks msk numBlocks')
  then have "numBlocks' = snd (Allocate_mask (start mod 32) numBlocks 0)"
    by (metis snd_conv)
  with 2 show ?case
    by (simp add: Allocate_mask_count min_def)
qed

definition AllocationBlock_Allocate :: "block_data \<Rightarrow> nat \<Rightarrow> nat \<Rightarrow> block_data" where
  "AllocationBlock_Allocate fBlock start numBlocks =
     AllocationBlock_Allocate_loop fBlock (start div 32) start numBlocks"

function AllocationBlock_Free_loop ::
  "block_data \<Rightarrow> nat \<Rightarrow> nat \<Rightarrow> nat \<Rightarrow> block_data" where
  "AllocationBlock_Free_loop fBlock block start numBlocks =
     (if numBlocks > 0
      then (case Free_mask (start mod 32) numBlocks 0 of
              (msk, numBlocks') \<Rightarrow>
                AllocationBlock_Free_loop (fBlock(block := fBlock block AND NOT msk))
                  (block + 1) 0 numBlocks')
      else fBlock)"
  by pat_completeness auto
termination
proof (relation "measure (\<lambda>(fBlock, block, start, numBlocks). numBlocks)", goal_cases)
  case 1
  show ?case by simp
next
  case (2 fBlock block start numBlocks msk numBlocks')
  then have "numBlocks' = snd (Free_mask (start mod 32) numBlocks 0)"
    by (metis snd_conv)
  with 2 show ?case
    by (simp add: Free_mask_count min_def)
qed

definition AllocationBlock_Free :: "block_data \<Rightarrow> nat \<Rightarrow> nat \<Rightarrow> block_data" where
  "AllocationBlock_Free fBlock start numBlocks =
     AllocationBlock_Free_loop fBlock (start div 32) start numBlocks"

declare AllocationBlock_Allocate_loop.simps [simp del] AllocationBlock_Free_loop.simps [simp del]

subsection \<open>AllocationGroup\<close>

definition AllocationGroup_init :: "AllocationGroup \<Rightarrow> AllocationGroup" where
  "AllocationGroup_init grp = grp\<lparr>fFirstFree := -1, fFreeBits := 0, fLargestValid := False\<rparr>"

definition IsFull :: "AllocationGroup \<Rightarrow> bool" where
  "IsFull grp = (fFreeBits grp = 0)"

definition AllocationGroup_AddFreeRange :: "AllocationGroup \<Rightarrow> int \<Rightarrow> int \<Rightarrow> AllocationGroup" where
  "AllocationGroup_AddFreeRange grp start blocks =
     (let g1 = (if fFirstFree grp = -1 then grp\<lparr>fFirstFree := start\<rparr> else grp);
          g2 = (if \<not> fLargestValid g1 \<or> fLargestLength g1 < blocks
                then g1\<lparr>fLargestStart := start, fLargestLength := blocks, fLargestValid := True\<rparr>
                else g1)
      in g2\<lparr>fFreeBits := fFreeBits g2 + blocks\<rparr>)"

text \<open>
  The first half of \<^verbatim>\<open>AllocationGroup::Allocate\<close>: the update of the group's counters and
  hints, before any bitmap block is touched.
\<close>

definition Allocate_hints :: "AllocationGroup \<Rightarrow> int \<Rightarrow> int \<Rightarrow> AllocationGroup" where
  "Allocate_hints grp start len =
     (let g1 = (if start = fFirstFree grp then grp\<lparr>fFirstFree := start + len\<rparr> else grp);
          g2 = g1\<lparr>fFreeBits := fFreeBits g1 - len\<rparr>
      in if fLargestValid g2
         then (case (if fLargestStart g2 = start
                     then (g2\<lparr>fLargestStart := fLargestStart g2 + len,
                               fLargestLength := fLargestLength g2 - len\<rparr>, True)
                     else if start > fLargestStart g2
                             \<and> start < fLargestStart g2 + fLargestLength g2
                     then (g2\<lparr>fLargestLength := start - fLargestStart g2\<rparr>, True)
                     else (g2, False)) of
                 (g3, cut') \<Rightarrow>
                   if cut' \<and> (fLargestLength g3 < fLargestStart g3
                              \<or> fLargestLength g3
                                   < i32 (fNumBits g3) - (fLargestStart g3 + fLargestLength g3))
                   then g3\<lparr>fLargestValid := False\<rparr>
                   else g3)
         else g2)"

text \<open>
  The \<^verbatim>\<open>while (length > 0)\<close> loop of \<^verbatim>\<open>AllocationGroup::Allocate\<close>. The loop does not
  terminate when a bitmap block contributes no bits, so the result is optional:
  \<open>None\<close> stands for a loop that never returns.
\<close>

partial_function (option) AllocationGroup_Allocate_loop ::
  "Volume \<Rightarrow> AllocationGroup \<Rightarrow> bitmap \<Rightarrow> int \<Rightarrow> int \<Rightarrow> int \<Rightarrow> (status_t \<times> bitmap) option" where
  "AllocationGroup_Allocate_loop volume grp bm block start len =
     (if len > 0
      then (case AllocationBlock_SetToWritable volume grp (u16 block) of
              None \<Rightarrow> Some (B_IO_ERROR, bm)
            | Some cached \<Rightarrow>
                (let numBlocks = (if u32 (start + u32 len) > ab_fNumBits cached
                                  then u32 (ab_fNumBits cached - start) else u32 len);
                     bm' = bm(ab_fBlockNumber cached :=
                              AllocationBlock_Allocate (bm (ab_fBlockNumber cached))
                                (nat start) (nat (u16 numBlocks)))
                 in AllocationGroup_Allocate_loop volume grp bm' (u32 (block + 1)) 0
                      (i32 (len - numBlocks))))
      else Some (B_OK, bm))"

declare AllocationGroup_Allocate_loop.simps [code]

definition AllocationGroup_Allocate ::
  "Volume \<Rightarrow> AllocationGroup \<Rightarrow> bitmap \<Rightarrow> int \<Rightarrow> int
     \<Rightarrow> (status_t \<times> AllocationGroup \<times> bitmap) option" where
  "AllocationGroup_Allocate volume grp bm start len =
     (let g = Allocate_hints grp start len;
          bitsPerBlock = u32 (BlockSize volume * 8);
          block = start div bitsPerBlock;
          start' = u16 (start mod bitsPerBlock)
      in case AllocationGroup_Allocate_loop volume g bm block start' len of
           None \<Rightarrow> None
         | Some (status, bm') \<Rightarrow>
             Some (status, if status = B_OK then g else g\<lparr>fLargestValid := False\<rparr>, bm'))"

definition Free_hints :: "AllocationGroup \<Rightarrow> int \<Rightarrow> int \<Rightarrow> AllocationGroup" where
  "Free_hints grp start len =
     (let g1 = (if fFirstFree grp > start then grp\<lparr>fFirstFree := start\<rparr> else grp);
          g2 = g1\<lparr>fFreeBits := fFreeBits g1 + len\<rparr>
      in if fLargestValid g2
            \<and> (start + len = fLargestStart g2
               \<or> fLargestStart g2 + fLargestLength g2 = start
               \<or> (start < fLargestStart g2 \<and> fLargestStart g2 > fLargestLength g2)
               \<or> (start > fLargestStart g2
                  \<and> i32 (fNumBits g2) - (fLargestStart g2 + fLargestLength g2)
                       > fLargestLength g2))
         then g2\<lparr>fLargestValid := False\<rparr>
         else g2)"

partial_function (option) AllocationGroup_Free_loop ::
  "Volume \<Rightarrow> AllocationGroup \<Rightarrow> bitmap \<Rightarrow> int \<Rightarrow> int \<Rightarrow> int \<Rightarrow> (status_t \<times> bitmap) option" where
  "AllocationGroup_Free_loop volume grp bm block start len =
     (if len > 0
      then (case AllocationBlock_SetToWritable volume grp (u16 block) of
              None \<Rightarrow> Some (B_IO_ERROR, bm)
            | Some cached \<Rightarrow>
                (let freeLength = (if u32 (start + len) > ab_fNumBits cached
                                   then u16 (ab_fNumBits cached - start) else u16 len);
                     bm' = bm(ab_fBlockNumber cached :=
                              AllocationBlock_Free (bm (ab_fBlockNumber cached))
                                (nat start) (nat freeLength))
                 in AllocationGroup_Free_loop volume grp bm' (u32 (block + 1)) 0
                      (len - freeLength)))
      else Some (B_OK, bm))"

declare AllocationGroup_Free_loop.simps [code]

definition AllocationGroup_Free ::
  "Volume \<Rightarrow> AllocationGroup \<Rightarrow> bitmap \<Rightarrow> int \<Rightarrow> int
     \<Rightarrow> (status_t \<times> AllocationGroup \<times> bitmap) option" where
  "AllocationGroup_Free volume grp bm start len =
     (let g = Free_hints grp start len;
          bitsPerBlock = u32 (BlockSize volume * 8);
          block = start div bitsPerBlock;
          start' = u16 (start mod bitsPerBlock)
      in case AllocationGroup_Free_loop volume g bm block start' len of
           None \<Rightarrow> None
         | Some (status, bm') \<Rightarrow> Some (status, g, bm'))"

subsection \<open>BlockAllocator\<close>

text \<open>
  The allocator owns the groups; the block bitmap and the super block's \<^verbatim>\<open>used_blocks\<close>
  counter are the parts of the volume it changes.
\<close>

record BlockAllocator =
  fGroups :: "AllocationGroup list"
  fNumGroups :: int
  fBitmap :: bitmap
  used_blocks :: int

text \<open>
  The local variables of the search in \<^verbatim>\<open>BlockAllocator::AllocateBlocks\<close>: the best run
  seen so far and the state of the scan of the current group.
\<close>

record search =
  bestGroup :: int
  bestStart :: int
  bestLength :: int
  currentStart :: int
  currentLength :: int
  groupLargestStart :: int
  groupLargestLength :: int
  currentBit :: int

datatype loop_exit = Loop_end | Break_maximum | Break_skip

text \<open>
  The two branches of the body of the innermost loop. \<open>extend_range\<close> is run on a free bit
  (before the test against \<open>maximum\<close>): it starts a new range or extends the current one.
  \<open>end_range\<close> is run on a used bit: it closes the current range, if there is one, and
  records it as the best run and as the largest run of the group when it is longer.
\<close>

definition extend_range :: "search \<Rightarrow> search" where
  "extend_range s =
     (let s1 = (if currentLength s = 0 then s\<lparr>currentStart := currentBit s\<rparr> else s)
      in s1\<lparr>currentLength := currentLength s1 + 1\<rparr>)"

definition end_range :: "int \<Rightarrow> search \<Rightarrow> search" where
  "end_range groupIndex s =
     (if currentLength s \<noteq> 0
      then (let a = (if currentLength s > bestLength s
                     then s\<lparr>bestGroup := groupIndex, bestStart := currentStart s,
                            bestLength := currentLength s\<rparr>
                     else s);
                b = (if currentLength a > groupLargestLength a
                     then a\<lparr>groupLargestStart := currentStart a,
                            groupLargestLength := currentLength a\<rparr>
                     else a)
            in b\<lparr>currentLength := 0\<rparr>)
      else s)"

text \<open>
  The innermost loop, over the bits of one bitmap block. \<^verbatim>\<open>Break_maximum\<close> is the
  \<^verbatim>\<open>break\<close> taken when a range of \<open>maximum\<close> bits has been found, \<^verbatim>\<open>Break_skip\<close> the one
  taken when no larger range can follow in this group.
\<close>

function scan_bits ::
  "AllocationBlock \<Rightarrow> block_data \<Rightarrow> AllocationGroup \<Rightarrow> int \<Rightarrow> int \<Rightarrow> int \<Rightarrow> search
     \<Rightarrow> loop_exit \<times> search" where
  "scan_bits cached fBlock grp groupIndex maximum bt s =
     (if bt < ab_fNumBits cached
      then (if \<not> AllocationBlock_IsUsed cached fBlock (nat (u16 bt))
            then (let s2 = extend_range s
                  in if currentLength s2 \<ge> maximum
                     then (Break_maximum,
                           s2\<lparr>bestGroup := groupIndex, bestStart := currentStart s2,
                              bestLength := currentLength s2\<rparr>)
                     else scan_bits cached fBlock grp groupIndex maximum (bt + 1)
                            (s2\<lparr>currentBit := currentBit s2 + 1\<rparr>))
            else (let s1 = end_range groupIndex s
                  in if i32 (fNumBits grp) - currentBit s1 \<le> groupLargestLength s1
                     then (Break_skip, s1)
                     else scan_bits cached fBlock grp groupIndex maximum (bt + 1)
                            (s1\<lparr>currentBit := currentBit s1 + 1\<rparr>)))
      else (Loop_end, s))"
  by pat_completeness auto
termination
  by (relation "measure (\<lambda>(cached, fBlock, grp, groupIndex, maximum, bt, s).
                           nat (ab_fNumBits cached - bt))") auto

declare scan_bits.simps [simp del]

text \<open>
  The loop over the bitmap blocks of one group. The result carries the status
  (\<^verbatim>\<open>B_ERROR\<close> when a block cannot be read) and the flag \<^verbatim>\<open>canFindGroupLargest\<close>.
\<close>

function scan_blocks ::
  "Volume \<Rightarrow> bitmap \<Rightarrow> AllocationGroup \<Rightarrow> int \<Rightarrow> int \<Rightarrow> int \<Rightarrow> int \<Rightarrow> bool \<Rightarrow> search
     \<Rightarrow> status_t \<times> bool \<times> search" where
  "scan_blocks volume bm grp groupIndex maximum block start canFindGroupLargest s =
     (if block < fNumBitmapBlocks grp
      then (case AllocationBlock_SetTo volume grp (u16 block) of
              None \<Rightarrow> (B_ERROR, canFindGroupLargest, s)
            | Some cached \<Rightarrow>
                (case scan_bits cached (bm (ab_fBlockNumber cached)) grp groupIndex maximum
                        (start mod u32 (BlockSize volume * 8)) s of
                   (ex, s') \<Rightarrow>
                     (let block' = (if ex = Break_skip then fNumBitmapBlocks grp else block)
                      in if bestLength s' \<ge> maximum
                         then (B_OK, False, s')
                         else scan_blocks volume bm grp groupIndex maximum (block' + 1) 0
                                canFindGroupLargest s')))
      else (B_OK, canFindGroupLargest, s))"
  by pat_completeness auto
termination
  by (relation "measure (\<lambda>(volume, bm, grp, groupIndex, maximum, block, start, c, s).
                           nat (fNumBitmapBlocks grp - block))") auto

declare scan_blocks.simps [simp del]

datatype visit = Visit_continue | Visit_break | Visit_error

text \<open>
  After the loop over the bitmap blocks of a group: when the scan has reached the end of
  the group, the range that is still open is recorded (\<open>close_scan\<close>); then the
  largest-free hint of the group is refreshed when the scan has covered the whole group
  and the hint was invalid (\<open>refresh_largest\<close>).
\<close>

definition close_scan :: "int \<Rightarrow> AllocationGroup \<Rightarrow> bool \<Rightarrow> search \<Rightarrow> search" where
  "close_scan groupIndex grp canFindGroupLargest s1 =
     (if currentBit s1 = i32 (fNumBits grp)
      then (let a = (if currentLength s1 > bestLength s1
                     then s1\<lparr>bestGroup := groupIndex, bestStart := currentStart s1,
                             bestLength := currentLength s1\<rparr>
                     else s1)
            in if canFindGroupLargest \<and> currentLength a > groupLargestLength a
               then a\<lparr>groupLargestStart := currentStart a,
                      groupLargestLength := currentLength a\<rparr>
               else a)
      else s1)"

definition refresh_largest :: "AllocationGroup \<Rightarrow> bool \<Rightarrow> search \<Rightarrow> AllocationGroup" where
  "refresh_largest grp canFindGroupLargest s2 =
     (if canFindGroupLargest \<and> \<not> fLargestValid grp \<and> groupLargestLength s2 \<ge> 0
      then grp\<lparr>fLargestStart := groupLargestStart s2,
               fLargestLength := groupLargestLength s2, fLargestValid := True\<rparr>
      else grp)"

text \<open>
  One pass of the \<^verbatim>\<open>for\<close> loop over the groups: the body for group \<open>groupIndex\<close> and start
  offset \<open>start0\<close>. It returns how the pass ended, the group (whose largest-free hint a scan
  may have refreshed) and the search state.
\<close>

definition visit_group ::
  "Volume \<Rightarrow> bitmap \<Rightarrow> AllocationGroup \<Rightarrow> int \<Rightarrow> int \<Rightarrow> int \<Rightarrow> search
     \<Rightarrow> visit \<times> AllocationGroup \<times> search" where
  "visit_group volume bm grp groupIndex maximum start0 s =
     (if start0 \<ge> fNumBits grp \<or> IsFull grp then (Visit_continue, grp, s)
      else
        (let start = (if start0 < fFirstFree grp then u16 (fFirstFree grp) else start0)
         in if fLargestValid grp \<and> fLargestLength grp < bestLength s
            then (Visit_continue, grp, s)
            else if fLargestValid grp \<and> fLargestStart grp \<ge> start
            then (if fLargestLength grp \<ge> bestLength s
                  then (let s' = s\<lparr>bestGroup := groupIndex, bestStart := fLargestStart grp,
                                     bestLength := fLargestLength grp\<rparr>
                        in if bestLength s' \<ge> maximum then (Visit_break, grp, s')
                           else (Visit_continue, grp, s'))
                  else (Visit_continue, grp, s))
            else
              (let block = start div u32 (BlockSize volume * 8);
                   s0 = s\<lparr>currentStart := 0, currentLength := 0, groupLargestStart := -1,
                          groupLargestLength := -1, currentBit := start\<rparr>
               in case scan_blocks volume bm grp groupIndex maximum block start (start = 0) s0 of
                    (status, canFindGroupLargest, s1) \<Rightarrow>
                      if status \<noteq> B_OK then (Visit_error, grp, s1)
                      else
                        (let s2 = close_scan groupIndex grp canFindGroupLargest s1;
                             grp' = refresh_largest grp canFindGroupLargest s2
                         in if bestLength s2 \<ge> maximum then (Visit_break, grp', s2)
                            else (Visit_continue, grp', s2)))))"

text \<open>
  The \<^verbatim>\<open>for\<close> loop over the groups, \<open>fNumGroups + 1\<close> passes at most. The group hint of
  both callers is an unsigned 16-bit number, so \<open>groupIndex\<close> is never negative and the C
  remainder is \<open>mod\<close>.
\<close>

function search_groups ::
  "Volume \<Rightarrow> bitmap \<Rightarrow> int \<Rightarrow> int \<Rightarrow> int \<Rightarrow> int \<Rightarrow> int \<Rightarrow> AllocationGroup list \<Rightarrow> search
     \<Rightarrow> status_t \<times> AllocationGroup list \<times> search" where
  "search_groups volume bm numGroups maximum i groupIndex0 start groups s =
     (if i < numGroups + 1
      then (let groupIndex = groupIndex0 mod numGroups
            in case visit_group volume bm (groups ! nat groupIndex) groupIndex maximum start s of
                 (Visit_error, grp', s') \<Rightarrow> (B_ERROR, groups[nat groupIndex := grp'], s')
               | (Visit_break, grp', s') \<Rightarrow> (B_OK, groups[nat groupIndex := grp'], s')
               | (Visit_continue, grp', s') \<Rightarrow>
                   search_groups volume bm numGroups maximum (i + 1) (groupIndex + 1) 0
                     (groups[nat groupIndex := grp']) s')
      else (B_OK, groups, s))"
  by pat_completeness auto
termination
  by (relation "measure (\<lambda>(volume, bm, numGroups, maximum, i, groupIndex0, start, groups, s).
                           nat (numGroups + 1 - i))") auto

declare search_groups.simps [simp del]

text \<open>
  Modelled from the spec: \<^verbatim>\<open>round_down\<close> is declared in a header that is not part of the
  sources at hand; the spec says it rounds the length down to the nearest multiple of
  \<open>minimum\<close>.
\<close>

definition round_down :: "int \<Rightarrow> int \<Rightarrow> int" where
  "round_down v to = (v div to) * to"

text \<open>
  \<^verbatim>\<open>BlockAllocator::AllocateBlocks\<close>. The result is the status, the allocator afterwards
  and the run written to \<^verbatim>\<open>run\<close> (only on success). \<^verbatim>\<open>block_cache_discard\<close> acts on the
  block cache of the file data only and is left out.
\<close>

definition BlockAllocator_AllocateBlocks ::
  "Volume \<Rightarrow> BlockAllocator \<Rightarrow> int \<Rightarrow> int \<Rightarrow> int \<Rightarrow> int
     \<Rightarrow> (status_t \<times> BlockAllocator \<times> block_run option) option" where
  "BlockAllocator_AllocateBlocks volume alloc groupIndex start maximum minimum =
     (if maximum = 0 then Some (B_BAD_VALUE, alloc, None)
      else
        (case search_groups volume (fBitmap alloc) (fNumGroups alloc) maximum 0 groupIndex start
                (fGroups alloc)
                \<lparr>bestGroup = -1, bestStart = -1, bestLength = -1, currentStart = 0,
                 currentLength = 0, groupLargestStart = -1, groupLargestLength = -1,
                 currentBit = 0\<rparr> of
           (status, groups, s) \<Rightarrow>
             if status \<noteq> B_OK then Some (B_ERROR, alloc\<lparr>fGroups := groups\<rparr>, None)
             else if bestLength s < minimum
             then Some (B_DEVICE_FULL, alloc\<lparr>fGroups := groups\<rparr>, None)
             else
               (let bestLength' = (if bestLength s > maximum then maximum
                                   else if minimum > 1 then round_down (bestLength s) minimum
                                   else bestLength s)
                in case AllocationGroup_Allocate volume (groups ! nat (bestGroup s))
                          (fBitmap alloc) (u16 (bestStart s)) bestLength' of
                     None \<Rightarrow> None
                   | Some (status', grp', bm') \<Rightarrow>
                       (let alloc' = alloc\<lparr>fGroups := groups[nat (bestGroup s) := grp'],
                                           fBitmap := bm'\<rparr>
                        in if status' \<noteq> B_OK then Some (B_IO_ERROR, alloc', None)
                           else Some (B_OK,
                                  alloc'\<lparr>used_blocks := used_blocks alloc' + bestLength'\<rparr>,
                                  Some \<lparr>run_allocation_group = bestGroup s,
                                        run_start = u16 (bestStart s),
                                        run_length = u16 bestLength'\<rparr>)))))"

text \<open>\<^verbatim>\<open>BlockAllocator::Free\<close>.\<close>

definition BlockAllocator_Free ::
  "Volume \<Rightarrow> BlockAllocator \<Rightarrow> block_run \<Rightarrow> (status_t \<times> BlockAllocator) option" where
  "BlockAllocator_Free volume alloc run =
     (let grpIndex = run_allocation_group run;
          start = run_start run;
          len = run_length run
      in if grpIndex < 0 \<or> grpIndex \<ge> fNumGroups alloc
            \<or> start > fNumBits (fGroups alloc ! nat grpIndex)
            \<or> u32 (start + len) > fNumBits (fGroups alloc ! nat grpIndex)
            \<or> len = 0
         then Some (B_BAD_VALUE, alloc)
         else if grpIndex < Log_AllocationGroup volume
                 \<or> (grpIndex = Log_AllocationGroup volume
                    \<and> start < u32 (u32 (Log_Start volume) + Log_Length volume))
         then Some (B_BAD_VALUE, alloc)
         else (case AllocationGroup_Free volume (fGroups alloc ! nat grpIndex) (fBitmap alloc)
                      start len of
                 None \<Rightarrow> None
               | Some (status, grp', bm') \<Rightarrow>
                   (let alloc' = alloc\<lparr>fGroups := (fGroups alloc)[nat grpIndex := grp'],
                                       fBitmap := bm'\<rparr>
                    in if status \<noteq> B_OK then Some (B_IO_ERROR, alloc')
                       else Some (B_OK,
                              alloc'\<lparr>used_blocks := used_blocks alloc' - run_length run\<rparr>))))"

section \<open>The bits of a bitmap block\<close>

text \<open>Bit \<open>p\<close> of a bitmap block: bit \<open>p mod 32\<close> of chunk \<open>p div 32\<close>.\<close>

definition block_bit :: "block_data \<Rightarrow> nat \<Rightarrow> bool" where
  "block_bit d p = bit (d (p div 32)) (p mod 32)"

lemma bit_two_power: "bit (2 ^ i :: 32 word) k \<longleftrightarrow> k = i \<and> i < 32"
  by (auto simp: bit_exp_iff)

lemma bit_one_shifted: "bit (push_bit i (1 :: 32 word)) k \<longleftrightarrow> k = i \<and> i < 32"
  by (simp add: bit_two_power)

lemma Allocate_mask_bits:
  "bit (fst (Allocate_mask i n m)) k \<longleftrightarrow> bit m k \<or> (i \<le> k \<and> k < i + n \<and> k < 32)"
proof (induction i n m rule: Allocate_mask.induct)
  case (1 i n m)
  show ?case
  proof (cases "i < 32 \<and> n \<noteq> 0")
    case True
    then have "bit (fst (Allocate_mask i n m)) k
           \<longleftrightarrow> bit (m OR push_bit i 1) k \<or> (i + 1 \<le> k \<and> k < i + 1 + (n - 1) \<and> k < 32)"
      using "1" by (subst Allocate_mask.simps) simp
    also have "\<dots> \<longleftrightarrow> bit m k \<or> (i \<le> k \<and> k < i + n \<and> k < 32)"
      using True by (auto simp: bit_or_iff bit_two_power)
    finally show ?thesis .
  next
    case False
    then show ?thesis
      by (subst Allocate_mask.simps) (auto dest: bit_imp_le_length)
  qed
qed

lemma Free_mask_bits:
  "bit (fst (Free_mask i n m)) k \<longleftrightarrow> bit m k \<or> (i \<le> k \<and> k < i + n \<and> k < 32)"
proof (induction i n m rule: Free_mask.induct)
  case (1 i n m)
  show ?case
  proof (cases "i < 32 \<and> n \<noteq> 0")
    case True
    then have "bit (fst (Free_mask i n m)) k
           \<longleftrightarrow> bit (m OR push_bit (i mod 32) 1) k \<or> (i + 1 \<le> k \<and> k < i + 1 + (n - 1) \<and> k < 32)"
      using "1" by (subst Free_mask.simps) simp
    also have "\<dots> \<longleftrightarrow> bit m k \<or> (i \<le> k \<and> k < i + n \<and> k < 32)"
      using True by (auto simp: bit_or_iff bit_two_power)
    finally show ?thesis .
  next
    case False
    then show ?thesis
      by (subst Free_mask.simps) (auto dest: bit_imp_le_length)
  qed
qed

lemma Allocate_loop_bits:
  "k < 32 \<Longrightarrow>
   bit (AllocationBlock_Allocate_loop d block s n c) k \<longleftrightarrow>
     bit (d c) k \<or> (block * 32 + s mod 32 \<le> c * 32 + k \<and> c * 32 + k < block * 32 + s mod 32 + n)"
proof (induction d block s n rule: AllocationBlock_Allocate_loop.induct)
  case (1 d block s n)
  show ?case
  proof (cases "n > 0")
    case False
    then show ?thesis by (subst AllocationBlock_Allocate_loop.simps) auto
  next
    case True
    obtain msk n' where m: "Allocate_mask (s mod 32) n 0 = (msk, n')"
      by (cases "Allocate_mask (s mod 32) n 0")
    have n': "n' = n - min n (32 - s mod 32)"
      using Allocate_mask_count [of "s mod 32" n 0] m by simp
    have msk: "bit msk k \<longleftrightarrow> s mod 32 \<le> k \<and> k < s mod 32 + n"
      using Allocate_mask_bits [of "s mod 32" n 0 k] m \<open>k < 32\<close> by simp
    have "bit (AllocationBlock_Allocate_loop d block s n c) k \<longleftrightarrow>
          bit (AllocationBlock_Allocate_loop (d(block := d block OR msk)) (block + 1) 0 n' c) k"
      using True m by (subst AllocationBlock_Allocate_loop.simps) simp
    also have "\<dots> \<longleftrightarrow> bit ((d(block := d block OR msk)) c) k
          \<or> ((block + 1) * 32 + 0 mod 32 \<le> c * 32 + k
              \<and> c * 32 + k < (block + 1) * 32 + 0 mod 32 + n')"
      by (rule "1.IH" [OF True m [symmetric] \<open>k < 32\<close>])
    also have "\<dots> \<longleftrightarrow> bit (d c) k
          \<or> (block * 32 + s mod 32 \<le> c * 32 + k \<and> c * 32 + k < block * 32 + s mod 32 + n)"
    proof (cases "c = block")
      case True
      then show ?thesis using \<open>k < 32\<close> by (simp add: bit_or_iff msk)
    next
      case False
      have "s mod 32 < 32" by simp
      with False \<open>k < 32\<close> show ?thesis
        unfolding n' min_def by (simp) arith
    qed
    finally show ?thesis .
  qed
qed

lemma Free_loop_bits:
  "k < 32 \<Longrightarrow>
   bit (AllocationBlock_Free_loop d block s n c) k \<longleftrightarrow>
     bit (d c) k \<and> \<not> (block * 32 + s mod 32 \<le> c * 32 + k \<and> c * 32 + k < block * 32 + s mod 32 + n)"
proof (induction d block s n rule: AllocationBlock_Free_loop.induct)
  case (1 d block s n)
  show ?case
  proof (cases "n > 0")
    case False
    then show ?thesis by (subst AllocationBlock_Free_loop.simps) auto
  next
    case True
    obtain msk n' where m: "Free_mask (s mod 32) n 0 = (msk, n')"
      by (cases "Free_mask (s mod 32) n 0")
    have n': "n' = n - min n (32 - s mod 32)"
      using Free_mask_count [of "s mod 32" n 0] m by simp
    have msk: "bit msk k \<longleftrightarrow> s mod 32 \<le> k \<and> k < s mod 32 + n"
      using Free_mask_bits [of "s mod 32" n 0 k] m \<open>k < 32\<close> by simp
    have "bit (AllocationBlock_Free_loop d block s n c) k \<longleftrightarrow>
          bit (AllocationBlock_Free_loop (d(block := d block AND NOT msk)) (block + 1) 0 n' c) k"
      using True m by (subst AllocationBlock_Free_loop.simps) simp
    also have "\<dots> \<longleftrightarrow> bit ((d(block := d block AND NOT msk)) c) k
          \<and> \<not> ((block + 1) * 32 + 0 mod 32 \<le> c * 32 + k
              \<and> c * 32 + k < (block + 1) * 32 + 0 mod 32 + n')"
      by (rule "1.IH" [OF True m [symmetric] \<open>k < 32\<close>])
    also have "\<dots> \<longleftrightarrow> bit (d c) k
          \<and> \<not> (block * 32 + s mod 32 \<le> c * 32 + k \<and> c * 32 + k < block * 32 + s mod 32 + n)"
    proof (cases "c = block")
      case True
      then show ?thesis using \<open>k < 32\<close> by (simp add: bit_and_iff bit_not_iff msk)
    next
      case False
      have "s mod 32 < 32" by simp
      with False \<open>k < 32\<close> show ?thesis
        unfolding n' min_def by (simp) arith
    qed
    finally show ?thesis .
  qed
qed

section \<open>The bits of an allocation group\<close>

definition bitsPerBlock :: "Volume \<Rightarrow> int" where
  "bitsPerBlock volume = u32 (BlockSize volume * 8)"

definition group_bit :: "Volume \<Rightarrow> bitmap \<Rightarrow> AllocationGroup \<Rightarrow> int \<Rightarrow> bool" where
  "group_bit volume bm grp p =
     block_bit (bm (fStart grp + p div bitsPerBlock volume)) (nat (p mod bitsPerBlock volume))"

definition valid_geometry :: "Volume \<Rightarrow> AllocationGroup \<Rightarrow> bool" where
  "valid_geometry volume grp \<longleftrightarrow>
     0 < BlockSize volume \<and> BlockSize volume \<le> 8192 \<and> 0 \<le> fNumBits grp \<and> fNumBits grp \<le> 65536"

lemma u16_id: "0 \<le> x \<Longrightarrow> x < 65536 \<Longrightarrow> u16 x = x"
  by (simp add: u16_def)

lemma u32_id: "0 \<le> x \<Longrightarrow> x < 4294967296 \<Longrightarrow> u32 x = x"
  by (simp add: u32_def)

lemma i32_id: "- 2147483648 \<le> x \<Longrightarrow> x < 2147483648 \<Longrightarrow> i32 x = x"
  by (simp add: i32_def)

lemma bitsPerBlock_bounds:
  assumes "valid_geometry volume grp"
  shows "bitsPerBlock volume = BlockSize volume * 8" "8 \<le> bitsPerBlock volume"
    "bitsPerBlock volume \<le> 65536"
  using assms by (simp_all add: valid_geometry_def bitsPerBlock_def u32_id)

lemma block_index_bound:
  assumes g: "valid_geometry volume grp"
    and b: "0 \<le> block" "block * bitsPerBlock volume < fNumBits grp"
  shows "block < 8192"
proof -
  have "block * 8 \<le> block * bitsPerBlock volume"
    using bitsPerBlock_bounds(2) [OF g] b(1) by (intro mult_left_mono) auto
  with b g show ?thesis by (simp add: valid_geometry_def)
qed

lemma SetToWritable_in_group:
  assumes g: "valid_geometry volume grp"
    and b: "0 \<le> block" "block * bitsPerBlock volume < fNumBits grp"
    and ok: "cache_ok volume (fStart grp + block)"
  shows "AllocationBlock_SetToWritable volume grp (u16 block) =
           Some \<lparr>ab_fNumBits = min (bitsPerBlock volume) (fNumBits grp - block * bitsPerBlock volume),
                 ab_fBlockNumber = fStart grp + block\<rparr>"
proof -
  let ?bpb = "bitsPerBlock volume"
  note bpb = bitsPerBlock_bounds [OF g]
  have blk: "block < 8192" by (rule block_index_bound [OF g b])
  have u: "u16 block = block" using b(1) blk by (simp add: u16_id)
  have prod: "(block + 1) * ?bpb = block * ?bpb + ?bpb" by (simp add: algebra_simps)
  have "(block + 1) * ?bpb < 4294967296" "0 \<le> (block + 1) * ?bpb"
    using b g bpb unfolding prod valid_geometry_def by auto
  then have u2: "u32 ((block + 1) * ?bpb) = block * ?bpb + ?bpb"
    by (simp add: u32_id prod)
  have md: "fNumBits grp mod ?bpb = fNumBits grp - block * ?bpb"
    if "block * ?bpb + ?bpb > fNumBits grp"
    by (rule int_mod_pos_eq [where q = block]) (use that b in \<open>auto simp: algebra_simps\<close>)
  show ?thesis
    using ok md
    by (auto simp: AllocationBlock_SetToWritable_def Let_def u u2 bitsPerBlock_def [symmetric] min_def)
qed


definition run_chunk_bit :: "int \<Rightarrow> int \<Rightarrow> int \<Rightarrow> int \<Rightarrow> int \<Rightarrow> nat \<Rightarrow> nat \<Rightarrow> bool" where
  "run_chunk_bit bpb first S len B c k \<longleftrightarrow>
     0 \<le> B - first \<and> int (c * 32 + k) < bpb
     \<and> S \<le> (B - first) * bpb + int (c * 32 + k)
     \<and> (B - first) * bpb + int (c * 32 + k) < S + len"

lemma AllocationBlock_Allocate_bits:
  "k < 32 \<Longrightarrow>
   bit (AllocationBlock_Allocate d s n c) k \<longleftrightarrow> bit (d c) k \<or> (s \<le> c * 32 + k \<and> c * 32 + k < s + n)"
  by (simp add: AllocationBlock_Allocate_def Allocate_loop_bits)

lemma AllocationBlock_Free_bits:
  "k < 32 \<Longrightarrow>
   bit (AllocationBlock_Free d s n c) k \<longleftrightarrow> bit (d c) k \<and> \<not> (s \<le> c * 32 + k \<and> c * 32 + k < s + n)"
  by (simp add: AllocationBlock_Free_def Free_loop_bits)

lemma run_chunk_step:
  fixes bpb block start len numBlocks first B :: int
  assumes bpb: "0 < bpb" and rng: "0 \<le> block" "0 \<le> start" "start < bpb" "0 < len"
    and nb: "numBlocks = (if start + len > bpb then bpb - start else len)"
  shows "(B = first + block \<and> nat start \<le> c * 32 + k \<and> c * 32 + k < nat start + nat numBlocks)
          \<or> run_chunk_bit bpb first ((block + 1) * bpb + 0) (len - numBlocks) B c k
         \<longleftrightarrow> run_chunk_bit bpb first (block * bpb + start) len B c k"
proof -
  define b where "b = B - first"
  define r where "r = int (c * 32 + k)"
  have r0: "0 \<le> r" by (simp add: r_def)
  have nat_r: "nat start \<le> c * 32 + k \<longleftrightarrow> start \<le> r"
      "c * 32 + k < nat start + nat numBlocks \<longleftrightarrow> r < start + numBlocks"
    using rng nb by (auto simp: r_def)
  have pos: "0 < numBlocks" "numBlocks \<le> len" "start + numBlocks \<le> bpb"
    using rng nb by (auto split: if_splits)
  have step: "(block + 1) * bpb = block * bpb + bpb" by (simp add: algebra_simps)
  have Beq: "B = first + block \<longleftrightarrow> b = block" by (auto simp: b_def)
  consider "b < block" | "b = block" | "block < b" by linarith
  then show ?thesis
  proof cases
    case 1
    then have "(b + 1) * bpb \<le> block * bpb"
      using bpb by (intro mult_right_mono) auto
    then have "b * bpb + bpb \<le> block * bpb" by (simp add: algebra_simps)
    with 1 r0 rng pos show ?thesis
      unfolding run_chunk_bit_def b_def [symmetric] r_def [symmetric] step nat_r Beq
      by auto
  next
    case 2
    with r0 rng pos nb show ?thesis
      unfolding run_chunk_bit_def b_def [symmetric] r_def [symmetric] step nat_r Beq
      by (auto split: if_splits)
  next
    case 3
    then have "(block + 1) * bpb \<le> b * bpb"
      using bpb by (intro mult_right_mono) auto
    then have "block * bpb + bpb \<le> b * bpb" by (simp add: algebra_simps)
    with 3 r0 rng pos nb show ?thesis
      unfolding run_chunk_bit_def b_def [symmetric] r_def [symmetric] step nat_r Beq
      by (auto split: if_splits)
  qed
qed


definition group_readable :: "Volume \<Rightarrow> AllocationGroup \<Rightarrow> bool" where
  "group_readable volume grp \<longleftrightarrow>
     (\<forall>b. 0 \<le> b \<and> b * bitsPerBlock volume < fNumBits grp \<longrightarrow> cache_ok volume (fStart grp + b))"

lemma Allocate_loop_spec:
  assumes g: "valid_geometry volume grp" and ok: "group_readable volume grp"
    and rng: "0 \<le> block" "0 \<le> start" "start < bitsPerBlock volume" "0 \<le> len" "len \<le> 65535"
      "len = 0 \<or> block * bitsPerBlock volume + start + len \<le> fNumBits grp"
  shows "\<exists>bm'. AllocationGroup_Allocate_loop volume grp bm block start len = Some (B_OK, bm')
           \<and> (\<forall>B c k. k < 32 \<longrightarrow>
                 (bit (bm' B c) k \<longleftrightarrow>
                    bit (bm B c) k
                    \<or> run_chunk_bit (bitsPerBlock volume) (fStart grp)
                         (block * bitsPerBlock volume + start) len B c k))"
  using rng
proof (induction "nat len" arbitrary: bm block start len rule: less_induct)
  case less
  let ?bpb = "bitsPerBlock volume"
  note bpb = bitsPerBlock_bounds [OF g]
  show ?case
  proof (cases "len > 0")
    case False
    with less.prems have "len = 0" by simp
    then show ?thesis
      by (subst AllocationGroup_Allocate_loop.simps) (auto simp: run_chunk_bit_def)
  next
    case True
    with less.prems have fit: "block * ?bpb + start + len \<le> fNumBits grp" by simp
    have blk: "block * ?bpb < fNumBits grp"
      using fit True less.prems by linarith
    have cok: "cache_ok volume (fStart grp + block)"
      using ok blk less.prems(1) by (simp add: group_readable_def)
    define nbits where "nbits = min ?bpb (fNumBits grp - block * ?bpb)"
    have set: "AllocationBlock_SetToWritable volume grp (u16 block)
                 = Some \<lparr>ab_fNumBits = nbits, ab_fBlockNumber = fStart grp + block\<rparr>"
      unfolding nbits_def by (rule SetToWritable_in_group [OF g less.prems(1) blk cok])
    define numBlocks where "numBlocks = (if start + len > ?bpb then ?bpb - start else len)"
    have nb_pos: "0 < numBlocks" "numBlocks \<le> len"
      using True less.prems by (auto simp: numBlocks_def)
    have ulen: "u32 len = len" "u32 (start + len) = start + len"
      using True less.prems bpb by (auto simp: u32_id)
    have nb_code: "(if u32 (start + u32 len) > nbits then u32 (nbits - start) else u32 len) = numBlocks"
    proof (cases "start + len > ?bpb")
      case True
      then have "nbits = ?bpb" using fit by (simp add: nbits_def min_def)
      with True less.prems bpb show ?thesis
        by (simp add: ulen numBlocks_def u32_id)
    next
      case False
      then have "start + len \<le> nbits" using fit by (simp add: nbits_def min_def)
      with False show ?thesis by (simp add: ulen numBlocks_def)
    qed
    have u16nb: "u16 numBlocks = numBlocks"
      using nb_pos less.prems by (simp add: u16_id)
    have blk': "block < 8192" by (rule block_index_bound [OF g less.prems(1) blk])
    have next_block: "u32 (block + 1) = block + 1"
      using less.prems(1) blk' by (simp add: u32_id)
    have next_len: "i32 (len - numBlocks) = len - numBlocks"
      using nb_pos less.prems by (simp add: i32_id)
    define bm1 where "bm1 = bm(fStart grp + block :=
        AllocationBlock_Allocate (bm (fStart grp + block)) (nat start) (nat numBlocks))"
    have unfold: "AllocationGroup_Allocate_loop volume grp bm block start len
        = AllocationGroup_Allocate_loop volume grp bm1 (block + 1) 0 (len - numBlocks)"
      using True
      by (subst AllocationGroup_Allocate_loop.simps)
         (simp only: if_True set option.case AllocationBlock.select_convs Let_def nb_code
            u16nb next_block next_len bm1_def)
    have rest: "len - numBlocks = 0 \<or> (block + 1) * ?bpb + 0 + (len - numBlocks) \<le> fNumBits grp"
      using fit less.prems by (auto simp: numBlocks_def algebra_simps)
    have "\<exists>bm'. AllocationGroup_Allocate_loop volume grp bm1 (block + 1) 0 (len - numBlocks)
                  = Some (B_OK, bm')
           \<and> (\<forall>B c k. k < 32 \<longrightarrow>
                 (bit (bm' B c) k \<longleftrightarrow>
                    bit (bm1 B c) k
                    \<or> run_chunk_bit ?bpb (fStart grp) ((block + 1) * ?bpb + 0) (len - numBlocks) B c k))"
      using nb_pos less.prems bpb rest
      by (intro less.hyps) auto
    then obtain bm' where
      res: "AllocationGroup_Allocate_loop volume grp bm1 (block + 1) 0 (len - numBlocks)
              = Some (B_OK, bm')"
      and bits: "\<And>B c k. k < 32 \<Longrightarrow>
                 (bit (bm' B c) k \<longleftrightarrow>
                    bit (bm1 B c) k
                    \<or> run_chunk_bit ?bpb (fStart grp) ((block + 1) * ?bpb + 0) (len - numBlocks) B c k)"
      by blast
    have "bit (bm' B c) k \<longleftrightarrow>
            bit (bm B c) k
            \<or> run_chunk_bit ?bpb (fStart grp) (block * ?bpb + start) len B c k"
      if k: "k < 32" for B c k
    proof -
      have one: "bit (bm1 B c) k \<longleftrightarrow> bit (bm B c) k
           \<or> (B = fStart grp + block \<and> nat start \<le> c * 32 + k
               \<and> c * 32 + k < nat start + nat numBlocks)"
        using k by (auto simp: bm1_def AllocationBlock_Allocate_bits)
      have "0 < ?bpb" using bpb by simp
      from run_chunk_step [OF this less.prems(1,2,3) True numBlocks_def, of B "fStart grp" c k]
      show ?thesis
        using bits [OF k] one by blast
    qed
    with res unfold show ?thesis by simp
  qed
qed


lemma Free_loop_spec:
  assumes g: "valid_geometry volume grp" and ok: "group_readable volume grp"
    and rng: "0 \<le> block" "0 \<le> start" "start < bitsPerBlock volume" "0 \<le> len" "len \<le> 65535"
      "len = 0 \<or> block * bitsPerBlock volume + start + len \<le> fNumBits grp"
  shows "\<exists>bm'. AllocationGroup_Free_loop volume grp bm block start len = Some (B_OK, bm')
           \<and> (\<forall>B c k. k < 32 \<longrightarrow>
                 (bit (bm' B c) k \<longleftrightarrow>
                    bit (bm B c) k
                    \<and> \<not> run_chunk_bit (bitsPerBlock volume) (fStart grp)
                         (block * bitsPerBlock volume + start) len B c k))"
  using rng
proof (induction "nat len" arbitrary: bm block start len rule: less_induct)
  case less
  let ?bpb = "bitsPerBlock volume"
  note bpb = bitsPerBlock_bounds [OF g]
  show ?case
  proof (cases "len > 0")
    case False
    with less.prems have "len = 0" by simp
    then show ?thesis
      by (subst AllocationGroup_Free_loop.simps) (auto simp: run_chunk_bit_def)
  next
    case True
    with less.prems have fit: "block * ?bpb + start + len \<le> fNumBits grp" by simp
    have blk: "block * ?bpb < fNumBits grp"
      using fit True less.prems by linarith
    have cok: "cache_ok volume (fStart grp + block)"
      using ok blk less.prems(1) by (simp add: group_readable_def)
    define nbits where "nbits = min ?bpb (fNumBits grp - block * ?bpb)"
    have set: "AllocationBlock_SetToWritable volume grp (u16 block)
                 = Some \<lparr>ab_fNumBits = nbits, ab_fBlockNumber = fStart grp + block\<rparr>"
      unfolding nbits_def by (rule SetToWritable_in_group [OF g less.prems(1) blk cok])
    define numBlocks where "numBlocks = (if start + len > ?bpb then ?bpb - start else len)"
    have nb_pos: "0 < numBlocks" "numBlocks \<le> len"
      using True less.prems by (auto simp: numBlocks_def)
    have ulen: "u32 len = len" "u32 (start + len) = start + len"
      using True less.prems bpb by (auto simp: u32_id)
    have nb_code: "(if u32 (start + len) > nbits then u16 (nbits - start) else u16 len) = numBlocks"
    proof (cases "start + len > ?bpb")
      case True
      then have "nbits = ?bpb" using fit by (simp add: nbits_def min_def)
      with True less.prems bpb show ?thesis
        by (simp add: ulen numBlocks_def u16_id)
    next
      case False
      then have "start + len \<le> nbits" using fit by (simp add: nbits_def min_def)
      with False \<open>0 < len\<close> less.prems show ?thesis by (simp add: ulen numBlocks_def u16_id)
    qed
    have u16nb: "u16 numBlocks = numBlocks"
      using nb_pos less.prems by (simp add: u16_id)
    have blk': "block < 8192" by (rule block_index_bound [OF g less.prems(1) blk])
    have next_block: "u32 (block + 1) = block + 1"
      using less.prems(1) blk' by (simp add: u32_id)
    have next_len: "i32 (len - numBlocks) = len - numBlocks"
      using nb_pos less.prems by (simp add: i32_id)
    define bm1 where "bm1 = bm(fStart grp + block :=
        AllocationBlock_Free (bm (fStart grp + block)) (nat start) (nat numBlocks))"
    have unfold: "AllocationGroup_Free_loop volume grp bm block start len
        = AllocationGroup_Free_loop volume grp bm1 (block + 1) 0 (len - numBlocks)"
      using True
      by (subst AllocationGroup_Free_loop.simps)
         (simp only: if_True set option.case AllocationBlock.select_convs Let_def nb_code
            next_block bm1_def)
    have rest: "len - numBlocks = 0 \<or> (block + 1) * ?bpb + 0 + (len - numBlocks) \<le> fNumBits grp"
      using fit less.prems by (auto simp: numBlocks_def algebra_simps)
    have "\<exists>bm'. AllocationGroup_Free_loop volume grp bm1 (block + 1) 0 (len - numBlocks)
                  = Some (B_OK, bm')
           \<and> (\<forall>B c k. k < 32 \<longrightarrow>
                 (bit (bm' B c) k \<longleftrightarrow>
                    bit (bm1 B c) k
                    \<and> \<not> run_chunk_bit ?bpb (fStart grp) ((block + 1) * ?bpb + 0) (len - numBlocks) B c k))"
      using nb_pos less.prems bpb rest
      by (intro less.hyps) auto
    then obtain bm' where
      res: "AllocationGroup_Free_loop volume grp bm1 (block + 1) 0 (len - numBlocks)
              = Some (B_OK, bm')"
      and bits: "\<And>B c k. k < 32 \<Longrightarrow>
                 (bit (bm' B c) k \<longleftrightarrow>
                    bit (bm1 B c) k
                    \<and> \<not> run_chunk_bit ?bpb (fStart grp) ((block + 1) * ?bpb + 0) (len - numBlocks) B c k)"
      by blast
    have "bit (bm' B c) k \<longleftrightarrow>
            bit (bm B c) k
            \<and> \<not> run_chunk_bit ?bpb (fStart grp) (block * ?bpb + start) len B c k"
      if k: "k < 32" for B c k
    proof -
      have one: "bit (bm1 B c) k \<longleftrightarrow> bit (bm B c) k
           \<and> \<not> (B = fStart grp + block \<and> nat start \<le> c * 32 + k
               \<and> c * 32 + k < nat start + nat numBlocks)"
        using k by (auto simp: bm1_def AllocationBlock_Free_bits)
      have "0 < ?bpb" using bpb by simp
      from run_chunk_step [OF this less.prems(1,2,3) True numBlocks_def, of B "fStart grp" c k]
      show ?thesis
        using bits [OF k] one by blast
    qed
    with res unfold show ?thesis by simp
  qed
qed

lemma hints_geometry [simp]:
  "fNumBits (Allocate_hints grp start len) = fNumBits grp"
  "fStart (Allocate_hints grp start len) = fStart grp"
  "fNumBits (Free_hints grp start len) = fNumBits grp"
  "fStart (Free_hints grp start len) = fStart grp"
  by (simp_all add: Allocate_hints_def Free_hints_def Let_def split: prod.splits)

lemma start_split:
  assumes g: "valid_geometry volume grp" and s: "0 \<le> start" "start < 65536"
  shows "0 \<le> start div bitsPerBlock volume"
    "u16 (start mod bitsPerBlock volume) = start mod bitsPerBlock volume"
    "0 \<le> start mod bitsPerBlock volume" "start mod bitsPerBlock volume < bitsPerBlock volume"
    "start div bitsPerBlock volume * bitsPerBlock volume + start mod bitsPerBlock volume = start"
proof -
  note bpb = bitsPerBlock_bounds [OF g]
  show "0 \<le> start div bitsPerBlock volume" using s bpb by (simp add: pos_imp_zdiv_nonneg_iff)
  show 3: "0 \<le> start mod bitsPerBlock volume" using bpb by simp
  show 4: "start mod bitsPerBlock volume < bitsPerBlock volume" using bpb by simp
  from 3 4 bpb(3) show "u16 (start mod bitsPerBlock volume) = start mod bitsPerBlock volume"
    by (intro u16_id) auto
  show "start div bitsPerBlock volume * bitsPerBlock volume + start mod bitsPerBlock volume = start"
    by simp
qed

lemma AllocationGroup_Allocate_spec:
  assumes g: "valid_geometry volume grp" and ok: "group_readable volume grp"
    and rng: "0 \<le> start" "start < 65536" "0 \<le> len" "len \<le> 65535"
      "start + len \<le> fNumBits grp"
  shows "\<exists>bm'. AllocationGroup_Allocate volume grp bm start len
                  = Some (B_OK, Allocate_hints grp start len, bm')
           \<and> (\<forall>B c k. k < 32 \<longrightarrow>
                 (bit (bm' B c) k \<longleftrightarrow>
                    bit (bm B c) k
                    \<or> run_chunk_bit (bitsPerBlock volume) (fStart grp) start len B c k))"
proof -
  let ?g = "Allocate_hints grp start len"
  let ?bpb = "bitsPerBlock volume"
  have g': "valid_geometry volume ?g" and ok': "group_readable volume ?g"
    using g ok by (simp_all add: valid_geometry_def group_readable_def)
  note sp = start_split [OF g rng(1,2)]
  have "len = 0 \<or> start div ?bpb * ?bpb + start mod ?bpb + len \<le> fNumBits ?g"
    using rng sp(5) by simp
  from Allocate_loop_spec [OF g' ok' sp(1) sp(3) sp(4) rng(3,4) this, of bm]
  obtain bm' where
    res: "AllocationGroup_Allocate_loop volume ?g bm (start div ?bpb) (start mod ?bpb) len
            = Some (B_OK, bm')"
    and bits: "\<forall>B c k. k < 32 \<longrightarrow>
                 (bit (bm' B c) k \<longleftrightarrow>
                    bit (bm B c) k \<or> run_chunk_bit ?bpb (fStart grp) start len B c k)"
    unfolding sp(5) by auto
  have "AllocationGroup_Allocate volume grp bm start len = Some (B_OK, ?g, bm')"
    unfolding AllocationGroup_Allocate_def Let_def bitsPerBlock_def [symmetric] sp(2) res
    by simp
  with bits show ?thesis by blast
qed

lemma AllocationGroup_Free_spec:
  assumes g: "valid_geometry volume grp" and ok: "group_readable volume grp"
    and rng: "0 \<le> start" "start < 65536" "0 \<le> len" "len \<le> 65535"
      "start + len \<le> fNumBits grp"
  shows "\<exists>bm'. AllocationGroup_Free volume grp bm start len
                  = Some (B_OK, Free_hints grp start len, bm')
           \<and> (\<forall>B c k. k < 32 \<longrightarrow>
                 (bit (bm' B c) k \<longleftrightarrow>
                    bit (bm B c) k
                    \<and> \<not> run_chunk_bit (bitsPerBlock volume) (fStart grp) start len B c k))"
proof -
  let ?g = "Free_hints grp start len"
  let ?bpb = "bitsPerBlock volume"
  have g': "valid_geometry volume ?g" and ok': "group_readable volume ?g"
    using g ok by (simp_all add: valid_geometry_def group_readable_def)
  note sp = start_split [OF g rng(1,2)]
  have "len = 0 \<or> start div ?bpb * ?bpb + start mod ?bpb + len \<le> fNumBits ?g"
    using rng sp(5) by simp
  from Free_loop_spec [OF g' ok' sp(1) sp(3) sp(4) rng(3,4) this, of bm]
  obtain bm' where
    res: "AllocationGroup_Free_loop volume ?g bm (start div ?bpb) (start mod ?bpb) len
            = Some (B_OK, bm')"
    and bits: "\<forall>B c k. k < 32 \<longrightarrow>
                 (bit (bm' B c) k \<longleftrightarrow>
                    bit (bm B c) k \<and> \<not> run_chunk_bit ?bpb (fStart grp) start len B c k)"
    unfolding sp(5) by auto
  have "AllocationGroup_Free volume grp bm start len = Some (B_OK, ?g, bm')"
    unfolding AllocationGroup_Free_def Let_def bitsPerBlock_def [symmetric] sp(2) res
    by simp
  with bits show ?thesis by blast
qed

text \<open>
  Bit \<open>p\<close> of a group is one bit of one chunk of one of its bitmap blocks, and the chunk
  bits of a run are the group bits of the run.
\<close>

lemma group_bit_chunk:
  "group_bit volume bm grp p
     = bit (bm (fStart grp + p div bitsPerBlock volume)
               (nat (p mod bitsPerBlock volume) div 32))
           (nat (p mod bitsPerBlock volume) mod 32)"
  by (simp add: group_bit_def block_bit_def)

lemma run_chunk_bit_position:
  assumes bpb: "0 < bpb" and p: "0 \<le> p"
  shows "run_chunk_bit bpb first S len (first + p div bpb) (nat (p mod bpb) div 32)
           (nat (p mod bpb) mod 32)
         \<longleftrightarrow> S \<le> p \<and> p < S + len"
proof -
  have r: "int (nat (p mod bpb) div 32 * 32 + nat (p mod bpb) mod 32) = p mod bpb"
    using bpb by simp
  have d: "0 \<le> p div bpb" using bpb p by (simp add: pos_imp_zdiv_nonneg_iff)
  show ?thesis
    unfolding run_chunk_bit_def r using d bpb by simp
qed

lemma run_chunk_bit_group_bit:
  assumes bpb: "0 < bitsPerBlock volume" and k: "k < 32"
    and r: "run_chunk_bit (bitsPerBlock volume) (fStart grp) S len B c k"
  shows "\<exists>p. 0 \<le> p \<and> S \<le> p \<and> p < S + len
           \<and> bit (bm B c) k = group_bit volume bm grp p"
proof -
  let ?bpb = "bitsPerBlock volume"
  define b where "b = B - fStart grp"
  define q where "q = int (c * 32 + k)"
  define p where "p = b * ?bpb + q"
  from r have b0: "0 \<le> b" and q: "0 \<le> q" "q < ?bpb" and S: "S \<le> p" "p < S + len"
    by (simp_all add: run_chunk_bit_def b_def q_def p_def)
  have pd: "p div ?bpb = b"
    by (rule int_div_pos_eq [where r = q]) (use q in \<open>simp_all add: p_def\<close>)
  have pm: "p mod ?bpb = q"
    by (rule int_mod_pos_eq [where q = b]) (use q in \<open>simp_all add: p_def\<close>)
  have "nat q = c * 32 + k" unfolding q_def by (rule nat_int)
  then have "nat q div 32 = c" "nat q mod 32 = k"
    using k by simp_all
  then have "group_bit volume bm grp p = bit (bm B c) k"
    by (simp add: group_bit_chunk pd pm b_def)
  moreover have "0 \<le> p" using b0 q bpb by (simp add: p_def)
  ultimately show ?thesis using S by blast
qed

definition run_free :: "Volume \<Rightarrow> bitmap \<Rightarrow> AllocationGroup \<Rightarrow> int \<Rightarrow> int \<Rightarrow> bool" where
  "run_free volume bm grp start len \<longleftrightarrow>
     (\<forall>p. start \<le> p \<and> p < start + len \<longrightarrow> \<not> group_bit volume bm grp p)"

definition run_used :: "Volume \<Rightarrow> bitmap \<Rightarrow> AllocationGroup \<Rightarrow> int \<Rightarrow> int \<Rightarrow> bool" where
  "run_used volume bm grp start len \<longleftrightarrow>
     (\<forall>p. start \<le> p \<and> p < start + len \<longrightarrow> group_bit volume bm grp p)"

text \<open>The number of unset bits in the region of a group, by a direct count.\<close>

definition free_bit_count :: "Volume \<Rightarrow> bitmap \<Rightarrow> AllocationGroup \<Rightarrow> int" where
  "free_bit_count volume bm grp =
     int (card {p \<in> {0..<fNumBits grp}. \<not> group_bit volume bm grp p})"

text \<open>What a successful group allocate and a successful group free do to the group's bits.\<close>

lemma AllocationGroup_Allocate_group_bits:
  assumes g: "valid_geometry volume grp" and ok: "group_readable volume grp"
    and rng: "0 \<le> start" "start < 65536" "0 \<le> len" "len \<le> 65535"
      "start + len \<le> fNumBits grp"
  obtains bm' where
    "AllocationGroup_Allocate volume grp bm start len
       = Some (B_OK, Allocate_hints grp start len, bm')"
    "\<And>p grp'. 0 \<le> p \<Longrightarrow> fStart grp' = fStart grp \<Longrightarrow>
       group_bit volume bm' grp' p
         \<longleftrightarrow> group_bit volume bm grp' p \<or> (start \<le> p \<and> p < start + len)"
proof -
  from AllocationGroup_Allocate_spec [OF g ok rng, of bm] obtain bm' where
    res: "AllocationGroup_Allocate volume grp bm start len
            = Some (B_OK, Allocate_hints grp start len, bm')"
    and bits: "\<And>B c k. k < 32 \<Longrightarrow>
      (bit (bm' B c) k \<longleftrightarrow>
         bit (bm B c) k \<or> run_chunk_bit (bitsPerBlock volume) (fStart grp) start len B c k)"
    by blast
  have bpb: "0 < bitsPerBlock volume" using bitsPerBlock_bounds(2) [OF g] by simp
  have "group_bit volume bm' grp' p
          \<longleftrightarrow> group_bit volume bm grp' p \<or> (start \<le> p \<and> p < start + len)"
    if "0 \<le> p" "fStart grp' = fStart grp" for p grp'
    unfolding group_bit_chunk that(2)
    by (subst bits) (simp_all add: run_chunk_bit_position [OF bpb that(1)])
  with res show ?thesis by (rule that)
qed

lemma AllocationGroup_Free_group_bits:
  assumes g: "valid_geometry volume grp" and ok: "group_readable volume grp"
    and rng: "0 \<le> start" "start < 65536" "0 \<le> len" "len \<le> 65535"
      "start + len \<le> fNumBits grp"
  obtains bm' where
    "AllocationGroup_Free volume grp bm start len
       = Some (B_OK, Free_hints grp start len, bm')"
    "\<And>p grp'. 0 \<le> p \<Longrightarrow> fStart grp' = fStart grp \<Longrightarrow>
       group_bit volume bm' grp' p
         \<longleftrightarrow> group_bit volume bm grp' p \<and> \<not> (start \<le> p \<and> p < start + len)"
proof -
  from AllocationGroup_Free_spec [OF g ok rng, of bm] obtain bm' where
    res: "AllocationGroup_Free volume grp bm start len
            = Some (B_OK, Free_hints grp start len, bm')"
    and bits: "\<And>B c k. k < 32 \<Longrightarrow>
      (bit (bm' B c) k \<longleftrightarrow>
         bit (bm B c) k \<and> \<not> run_chunk_bit (bitsPerBlock volume) (fStart grp) start len B c k)"
    by blast
  have bpb: "0 < bitsPerBlock volume" using bitsPerBlock_bounds(2) [OF g] by simp
  have "group_bit volume bm' grp' p
          \<longleftrightarrow> group_bit volume bm grp' p \<and> \<not> (start \<le> p \<and> p < start + len)"
    if "0 \<le> p" "fStart grp' = fStart grp" for p grp'
    unfolding group_bit_chunk that(2)
    by (subst bits) (simp_all add: run_chunk_bit_position [OF bpb that(1)])
  with res show ?thesis by (rule that)
qed

lemma free_bit_count_Allocate:
  assumes rng: "0 \<le> start" "0 \<le> len" "start + len \<le> fNumBits grp"
    and fr: "run_free volume bm grp start len"
    and bits: "\<And>p. 0 \<le> p \<Longrightarrow>
       group_bit volume bm' grp p
         \<longleftrightarrow> group_bit volume bm grp p \<or> (start \<le> p \<and> p < start + len)"
    and n: "fNumBits grp' = fNumBits grp" and s: "fStart grp' = fStart grp"
  shows "free_bit_count volume bm' grp' = free_bit_count volume bm grp - len"
    and "len \<le> free_bit_count volume bm grp"
proof -
  let ?F = "{p \<in> {0..<fNumBits grp}. \<not> group_bit volume bm grp p}"
  let ?F' = "{p \<in> {0..<fNumBits grp'}. \<not> group_bit volume bm' grp' p}"
  let ?R = "{start..<start + len}"
  have gb: "group_bit volume b grp' p = group_bit volume b grp p" for b p
    by (simp add: group_bit_def s)
  have sub: "?R \<subseteq> ?F" using rng fr by (auto simp: run_free_def)
  have eq: "?F' = ?F - ?R" using bits by (auto simp: n gb)
  have fin: "finite ?F" by (rule finite_subset [of _ "{0..<fNumBits grp}"]) auto
  have cR: "int (card ?R) = len" using rng by simp
  have "card ?F' = card ?F - card ?R"
    unfolding eq using sub by (intro card_Diff_subset) auto
  moreover have le: "card ?R \<le> card ?F" using sub fin by (intro card_mono) auto
  ultimately have "int (card ?F') = int (card ?F) - int (card ?R)" by simp
  then show "free_bit_count volume bm' grp' = free_bit_count volume bm grp - len"
    using cR by (simp add: free_bit_count_def)
  from le cR show "len \<le> free_bit_count volume bm grp"
    by (simp add: free_bit_count_def)
qed

lemma free_bit_count_Free:
  assumes rng: "0 \<le> start" "0 \<le> len" "start + len \<le> fNumBits grp"
    and us: "run_used volume bm grp start len"
    and bits: "\<And>p. 0 \<le> p \<Longrightarrow>
       group_bit volume bm' grp p
         \<longleftrightarrow> group_bit volume bm grp p \<and> \<not> (start \<le> p \<and> p < start + len)"
    and n: "fNumBits grp' = fNumBits grp" and s: "fStart grp' = fStart grp"
  shows "free_bit_count volume bm' grp' = free_bit_count volume bm grp + len"
proof -
  let ?F = "{p \<in> {0..<fNumBits grp}. \<not> group_bit volume bm grp p}"
  let ?F' = "{p \<in> {0..<fNumBits grp'}. \<not> group_bit volume bm' grp' p}"
  let ?R = "{start..<start + len}"
  have gb: "group_bit volume b grp' p = group_bit volume b grp p" for b p
    by (simp add: group_bit_def s)
  have disj: "?F \<inter> ?R = {}" using us by (auto simp: run_used_def)
  have eq: "?F' = ?F \<union> ?R" using bits rng by (auto simp: n gb)
  have cR: "int (card ?R) = len" using rng by simp
  have fin: "finite ?F" by (rule finite_subset [of _ "{0..<fNumBits grp}"]) auto
  have "card ?F' = card ?F + card ?R"
    unfolding eq using disj fin by (intro card_Un_disjoint) auto
  then show ?thesis using cR by (simp add: free_bit_count_def)
qed

lemma free_bit_count_bounds:
  "0 \<le> free_bit_count volume bm grp"
  "0 \<le> fNumBits grp \<Longrightarrow> free_bit_count volume bm grp \<le> fNumBits grp"
proof -
  show "0 \<le> free_bit_count volume bm grp" by (simp add: free_bit_count_def)
  assume n: "0 \<le> fNumBits grp"
  have "card {p \<in> {0..<fNumBits grp}. \<not> group_bit volume bm grp p} \<le> card {0..<fNumBits grp}"
    by (intro card_mono) auto
  then show "free_bit_count volume bm grp \<le> fNumBits grp"
    using n by (simp add: free_bit_count_def)
qed

text \<open>
  The group fields that \<^verbatim>\<open>InitializeAndClearBitmap\<close> assigns to a group of \<open>numBits\<close> bits
  whose bitmap starts at block \<open>offset\<close>, after it has cleared the bitmap blocks of the
  group on disk.
\<close>

definition format_group :: "int \<Rightarrow> int \<Rightarrow> int \<Rightarrow> AllocationGroup" where
  "format_group numBits numBitmapBlocks offset =
     \<lparr>fNumBits = numBits, fNumBitmapBlocks = numBitmapBlocks, fStart = offset,
      fFirstFree = 0, fFreeBits = numBits, fLargestStart = 0, fLargestLength = numBits,
      fLargestValid = True\<rparr>"

text \<open>The first-free hint is a lower bound: no bit of the group below it is unset.\<close>

definition first_free_bound :: "Volume \<Rightarrow> bitmap \<Rightarrow> AllocationGroup \<Rightarrow> bool" where
  "first_free_bound volume bm grp \<longleftrightarrow>
     (\<forall>p. 0 \<le> p \<and> p < fFirstFree grp \<and> p < fNumBits grp \<longrightarrow> group_bit volume bm grp p)"

lemma hints_counters:
  "fFreeBits (Allocate_hints grp start len) = fFreeBits grp - len"
  "fFreeBits (Free_hints grp start len) = fFreeBits grp + len"
  "fFirstFree (Allocate_hints grp start len)
     = (if start = fFirstFree grp then start + len else fFirstFree grp)"
  "fFirstFree (Free_hints grp start len)
     = (if fFirstFree grp > start then start else fFirstFree grp)"
  by (simp_all add: Allocate_hints_def Free_hints_def Let_def split: prod.splits)

lemma free_bit_count_cleared:
  assumes "0 \<le> fNumBits grp" and "run_free volume bm grp 0 (fNumBits grp)"
  shows "free_bit_count volume bm grp = fNumBits grp"
proof -
  have "{p \<in> {0..<fNumBits grp}. \<not> group_bit volume bm grp p} = {0..<fNumBits grp}"
    using assms(2) by (auto simp: run_free_def)
  then show ?thesis using assms(1) by (simp add: free_bit_count_def)
qed

lemma group_bit_cong:
  "fStart grp' = fStart grp \<Longrightarrow> group_bit volume bm grp' p = group_bit volume bm grp p"
  by (simp add: group_bit_def)

lemma free_bit_count_cong:
  "fNumBits grp' = fNumBits grp \<Longrightarrow> fStart grp' = fStart grp
     \<Longrightarrow> free_bit_count volume bm grp' = free_bit_count volume bm grp"
  by (simp add: free_bit_count_def group_bit_def)

section \<open>The search for a free run\<close>

lemma and_one_shifted: "(w :: 32 word) AND push_bit k 1 \<noteq> 0 \<longleftrightarrow> bit w k"
  by (simp add: and_exp_eq_0_iff_not_bit)

lemma run_free_empty [simp]: "run_free volume bm grp a 0"
  by (auto simp: run_free_def)

lemma run_free_extend:
  "0 \<le> l \<Longrightarrow> run_free volume bm grp a (l + 1)
     \<longleftrightarrow> run_free volume bm grp a l \<and> \<not> group_bit volume bm grp (a + l)"
proof -
  assume "0 \<le> l"
  have "(a \<le> p \<and> p < a + (l + 1)) \<longleftrightarrow> (a \<le> p \<and> p < a + l) \<or> p = a + l" for p
    using \<open>0 \<le> l\<close> by auto
  then show ?thesis by (auto simp: run_free_def)
qed

lemma run_free_sub:
  "run_free volume bm grp a l \<Longrightarrow> a \<le> a' \<Longrightarrow> a' + l' \<le> a + l \<Longrightarrow> run_free volume bm grp a' l'"
  by (auto simp: run_free_def)

lemma run_free_cong:
  "fStart grp' = fStart grp \<Longrightarrow> run_free volume bm grp' a l = run_free volume bm grp a l"
  by (simp add: run_free_def group_bit_def)

text \<open>\<^verbatim>\<open>IsUsed\<close> on bit \<open>bt\<close> of the view of block \<open>blk\<close> of a group reads the group's bit.\<close>

lemma IsUsed_group_bit:
  assumes "0 < bitsPerBlock volume" "0 \<le> blk" "0 \<le> bt" "bt < nb" "nb \<le> bitsPerBlock volume"
    "nb \<le> 65536" "ab_fNumBits cached = nb"
  shows "AllocationBlock_IsUsed cached (bm (fStart grp + blk)) (nat (u16 bt))
           = group_bit volume bm grp (blk * bitsPerBlock volume + bt)"
proof -
  let ?bpb = "bitsPerBlock volume"
  have u: "u16 bt = bt" using assms by (simp add: u16_id)
  have d: "(blk * ?bpb + bt) div ?bpb = blk"
    by (rule int_div_pos_eq [where r = bt]) (use assms in simp_all)
  have m: "(blk * ?bpb + bt) mod ?bpb = bt"
    by (rule int_mod_pos_eq [where q = blk]) (use assms in simp_all)
  have "AllocationBlock_IsUsed cached (bm (fStart grp + blk)) (nat bt)
          = block_bit (bm (fStart grp + blk)) (nat bt)"
    using assms(3,4,7)
    by (simp add: AllocationBlock_IsUsed_def block_bit_def and_exp_eq_0_iff_not_bit)
  then show ?thesis
    unfolding u group_bit_def d m .
qed

text \<open>
  A run that is free and lies inside the group, of at least one bit; the best run of the
  search is sound when it is such a run (or there is none yet).
\<close>

definition free_run_in :: "Volume \<Rightarrow> bitmap \<Rightarrow> AllocationGroup \<Rightarrow> int \<Rightarrow> int \<Rightarrow> bool" where
  "free_run_in volume bm grp a l \<longleftrightarrow>
     0 \<le> a \<and> 1 \<le> l \<and> a + l \<le> fNumBits grp \<and> run_free volume bm grp a l"

definition best_sound :: "Volume \<Rightarrow> bitmap \<Rightarrow> AllocationGroup list \<Rightarrow> search \<Rightarrow> bool" where
  "best_sound volume bm groups s \<longleftrightarrow>
     (0 \<le> bestLength s \<longrightarrow>
        0 \<le> bestGroup s \<and> bestGroup s < int (length groups) \<and> 0 \<le> bestStart s
        \<and> bestStart s + bestLength s \<le> fNumBits (groups ! nat (bestGroup s))
        \<and> run_free volume bm (groups ! nat (bestGroup s)) (bestStart s) (bestLength s))"

definition largest_sound :: "Volume \<Rightarrow> bitmap \<Rightarrow> AllocationGroup \<Rightarrow> search \<Rightarrow> bool" where
  "largest_sound volume bm grp s \<longleftrightarrow>
     (0 \<le> groupLargestLength s \<longrightarrow>
        0 \<le> groupLargestStart s
        \<and> groupLargestStart s + groupLargestLength s \<le> fNumBits grp
        \<and> run_free volume bm grp (groupLargestStart s) (groupLargestLength s))"

text \<open>Every free run of the group from offset \<open>st\<close> on is at most as long as the best run.\<close>

definition covered :: "Volume \<Rightarrow> bitmap \<Rightarrow> AllocationGroup \<Rightarrow> int \<Rightarrow> search \<Rightarrow> bool" where
  "covered volume bm grp st s \<longleftrightarrow>
     (\<forall>a l. st \<le> a \<and> free_run_in volume bm grp a l \<longrightarrow> l \<le> bestLength s)"

text \<open>
  The invariant of the scan of a group from offset \<open>st\<close>, at bit \<open>currentBit\<close>: the current
  range is the free run that ends here, it cannot be extended to the left, and every free
  run that ended before it is at most as long as the best run.
\<close>

definition scan_inv ::
  "Volume \<Rightarrow> bitmap \<Rightarrow> AllocationGroup list \<Rightarrow> AllocationGroup \<Rightarrow> int \<Rightarrow> int \<Rightarrow> int \<Rightarrow> search
     \<Rightarrow> bool" where
  "scan_inv volume bm groups grp maximum st b0 s \<longleftrightarrow>
     st \<le> currentBit s \<and> currentBit s \<le> fNumBits grp
     \<and> 0 \<le> currentLength s \<and> currentLength s \<le> currentBit s - st
     \<and> currentLength s < maximum
     \<and> run_free volume bm grp (currentBit s - currentLength s) (currentLength s)
     \<and> (0 < currentLength s \<longrightarrow> currentStart s = currentBit s - currentLength s)
     \<and> 0 \<le> currentStart s \<and> currentStart s \<le> fNumBits grp
     \<and> (st < currentBit s - currentLength s
          \<longrightarrow> group_bit volume bm grp (currentBit s - currentLength s - 1))
     \<and> (\<forall>a l. st \<le> a \<and> 1 \<le> l \<and> a + l \<le> currentBit s - currentLength s
                \<and> run_free volume bm grp a l \<longrightarrow> l \<le> bestLength s)
     \<and> groupLargestLength s \<le> bestLength s
     \<and> largest_sound volume bm grp s
     \<and> best_sound volume bm groups s \<and> b0 \<le> bestLength s \<and> bestLength s < maximum"

definition skip_done ::
  "Volume \<Rightarrow> bitmap \<Rightarrow> AllocationGroup list \<Rightarrow> AllocationGroup \<Rightarrow> int \<Rightarrow> int \<Rightarrow> int \<Rightarrow> search
     \<Rightarrow> bool" where
  "skip_done volume bm groups grp maximum st b0 s \<longleftrightarrow>
     covered volume bm grp st s \<and> currentBit s < fNumBits grp
     \<and> largest_sound volume bm grp s
     \<and> best_sound volume bm groups s \<and> b0 \<le> bestLength s \<and> bestLength s < maximum"

definition max_done ::
  "Volume \<Rightarrow> bitmap \<Rightarrow> AllocationGroup list \<Rightarrow> AllocationGroup \<Rightarrow> int \<Rightarrow> int \<Rightarrow> search
     \<Rightarrow> bool" where
  "max_done volume bm groups grp maximum b0 s \<longleftrightarrow>
     maximum \<le> bestLength s \<and> currentBit s < fNumBits grp
     \<and> best_sound volume bm groups s \<and> b0 \<le> bestLength s"

lemma extend_range_fields [simp]:
  "currentLength (extend_range s) = currentLength s + 1"
  "currentStart (extend_range s) = (if currentLength s = 0 then currentBit s else currentStart s)"
  "currentBit (extend_range s) = currentBit s"
  "bestGroup (extend_range s) = bestGroup s" "bestStart (extend_range s) = bestStart s"
  "bestLength (extend_range s) = bestLength s"
  "groupLargestStart (extend_range s) = groupLargestStart s"
  "groupLargestLength (extend_range s) = groupLargestLength s"
  by (simp_all add: extend_range_def Let_def)

lemma end_range_fields [simp]:
  "currentLength (end_range gi s) = 0"
  "currentBit (end_range gi s) = currentBit s"
  "currentStart (end_range gi s) = currentStart s"
  "bestLength (end_range gi s) = max (bestLength s) (if currentLength s = 0 then bestLength s else currentLength s)"
  "groupLargestLength (end_range gi s)
     = max (groupLargestLength s) (if currentLength s = 0 then groupLargestLength s else currentLength s)"
  "bestGroup (end_range gi s)
     = (if currentLength s \<noteq> 0 \<and> currentLength s > bestLength s then gi else bestGroup s)"
  "bestStart (end_range gi s)
     = (if currentLength s \<noteq> 0 \<and> currentLength s > bestLength s then currentStart s
        else bestStart s)"
  "groupLargestStart (end_range gi s)
     = (if currentLength s \<noteq> 0 \<and> currentLength s > groupLargestLength s then currentStart s
        else groupLargestStart s)"
  by (auto simp: end_range_def Let_def)

lemma extend_range_step:
  assumes inv: "scan_inv volume bm groups grp maximum st b0 s"
    and p: "currentBit s < fNumBits grp"
    and fr: "\<not> group_bit volume bm grp (currentBit s)"
    and gi: "0 \<le> gi" "gi < int (length groups)" "groups ! nat gi = grp" and st: "0 \<le> st"
  shows "(maximum \<le> currentLength s + 1 \<longrightarrow>
            max_done volume bm groups grp maximum b0
              ((extend_range s)\<lparr>bestGroup := gi, bestStart := currentStart (extend_range s),
                                 bestLength := currentLength (extend_range s)\<rparr>))
       \<and> (currentLength s + 1 < maximum \<longrightarrow>
            scan_inv volume bm groups grp maximum st b0
              ((extend_range s)\<lparr>currentBit := currentBit (extend_range s) + 1\<rparr>))"
proof -
  let ?p = "currentBit s" and ?cl = "currentLength s"
  from inv have cl: "0 \<le> ?cl" "?cl \<le> ?p - st"
    and rf: "run_free volume bm grp (?p - ?cl) ?cl"
    and cs: "0 < ?cl \<longrightarrow> currentStart s = ?p - ?cl"
    by (simp_all add: scan_inv_def)
  have start': "currentStart (extend_range s) = ?p - ?cl"
    using cs cl by auto
  have rf': "run_free volume bm grp (?p - ?cl) (?cl + 1)"
    using rf fr cl by (simp add: run_free_extend)
  show ?thesis
  proof (intro conjI impI)
    assume "maximum \<le> ?cl + 1"
    with inv p gi st cl rf' show "max_done volume bm groups grp maximum b0
              ((extend_range s)\<lparr>bestGroup := gi, bestStart := currentStart (extend_range s),
                                 bestLength := currentLength (extend_range s)\<rparr>)"
      unfolding max_done_def best_sound_def start'
      by (simp add: scan_inv_def)
  next
    assume "?cl + 1 < maximum"
    with inv p st cl rf' show "scan_inv volume bm groups grp maximum st b0
              ((extend_range s)\<lparr>currentBit := currentBit (extend_range s) + 1\<rparr>)"
      unfolding scan_inv_def best_sound_def largest_sound_def
      by (auto simp: start')
  qed
qed

lemma end_range_covers:
  assumes inv: "scan_inv volume bm groups grp maximum st b0 s"
    and us: "group_bit volume bm grp (currentBit s)"
    and run: "st \<le> a" "1 \<le> l" "a + l \<le> currentBit s + 1" "run_free volume bm grp a l"
  shows "l \<le> bestLength (end_range gi s)"
proof -
  let ?p = "currentBit s" and ?cl = "currentLength s"
  from inv have cl: "0 \<le> ?cl"
    and left: "st < ?p - ?cl \<longrightarrow> group_bit volume bm grp (?p - ?cl - 1)"
    and before: "\<And>a l. st \<le> a \<Longrightarrow> 1 \<le> l \<Longrightarrow> a + l \<le> ?p - ?cl
                   \<Longrightarrow> run_free volume bm grp a l \<Longrightarrow> l \<le> bestLength s"
    by (simp_all add: scan_inv_def)
  have end_: "a + l \<le> ?p"
  proof (rule ccontr)
    assume "\<not> a + l \<le> ?p"
    with run have "a \<le> ?p \<and> ?p < a + l" by auto
    with run(4) us show False by (auto simp: run_free_def)
  qed
  show ?thesis
  proof (cases "a + l \<le> ?p - ?cl")
    case True
    from before [OF run(1,2) True run(4)] show ?thesis by simp
  next
    case False
    have "?p - ?cl \<le> a"
    proof (rule ccontr)
      assume "\<not> ?p - ?cl \<le> a"
      with run(1) have "st < ?p - ?cl" by simp
      with left have "group_bit volume bm grp (?p - ?cl - 1)" by simp
      moreover have "a \<le> ?p - ?cl - 1 \<and> ?p - ?cl - 1 < a + l"
        using \<open>\<not> ?p - ?cl \<le> a\<close> False by auto
      ultimately show False using run(4) by (auto simp: run_free_def)
    qed
    with end_ run(2) have "l \<le> ?cl" "?cl \<noteq> 0" by auto
    then show ?thesis by simp
  qed
qed

lemma end_range_step:
  assumes inv: "scan_inv volume bm groups grp maximum st b0 s"
    and p: "currentBit s < fNumBits grp"
    and us: "group_bit volume bm grp (currentBit s)"
    and gi: "0 \<le> gi" "gi < int (length groups)" "groups ! nat gi = grp" and st: "0 \<le> st"
  shows "(fNumBits grp - currentBit (end_range gi s) \<le> groupLargestLength (end_range gi s) \<longrightarrow>
            skip_done volume bm groups grp maximum st b0 (end_range gi s))
       \<and> (groupLargestLength (end_range gi s) < fNumBits grp - currentBit (end_range gi s) \<longrightarrow>
            scan_inv volume bm groups grp maximum st b0
              ((end_range gi s)\<lparr>currentBit := currentBit (end_range gi s) + 1\<rparr>))"
proof -
  let ?p = "currentBit s" and ?cl = "currentLength s" and ?s1 = "end_range gi s"
  note cov = end_range_covers [OF inv us, of _ _ gi]
  from inv have cl: "0 \<le> ?cl" "?cl \<le> ?p - st" "?cl < maximum"
    and rf: "run_free volume bm grp (?p - ?cl) ?cl"
    and cs: "0 < ?cl \<longrightarrow> currentStart s = ?p - ?cl"
    and gl: "groupLargestLength s \<le> bestLength s"
    and ls: "largest_sound volume bm grp s"
    and bs: "best_sound volume bm groups s"
    and b0: "b0 \<le> bestLength s" "bestLength s < maximum"
    and pos: "st \<le> ?p"
    and cst: "0 \<le> currentStart s" "currentStart s \<le> fNumBits grp"
    by (simp_all add: scan_inv_def)
  have gl': "groupLargestLength ?s1 \<le> bestLength ?s1"
    using gl by auto
  have ls': "largest_sound volume bm grp ?s1"
    using ls cl cs rf p st by (auto simp: largest_sound_def max_def)
  have bs': "best_sound volume bm groups ?s1"
    using bs cl cs rf p st gi by (auto simp: best_sound_def max_def)
  have b0': "b0 \<le> bestLength ?s1" "bestLength ?s1 < maximum"
    using b0 cl by auto
  show ?thesis
  proof (intro conjI impI)
    assume skip: "fNumBits grp - currentBit ?s1 \<le> groupLargestLength ?s1"
    have "l \<le> bestLength ?s1" if r: "st \<le> a" "free_run_in volume bm grp a l" for a l
    proof (cases "a + l \<le> ?p + 1")
      case True
      from r(2) have "1 \<le> l" "run_free volume bm grp a l"
        by (simp_all add: free_run_in_def)
      from cov [OF r(1) this(1) True this(2)] show ?thesis .
    next
      case False
      have "?p < a"
      proof (rule ccontr)
        assume "\<not> ?p < a"
        with False have "a \<le> ?p \<and> ?p < a + l" by auto
        with r(2) us show False by (auto simp: free_run_in_def run_free_def)
      qed
      with r(2) have "l < fNumBits grp - ?p" by (simp add: free_run_in_def)
      moreover have "currentBit ?s1 = ?p" by simp
      ultimately show ?thesis using skip gl' by linarith
    qed
    then have "covered volume bm grp st ?s1" unfolding covered_def by blast
    moreover have "currentBit ?s1 < fNumBits grp" using p by simp
    ultimately show "skip_done volume bm groups grp maximum st b0 ?s1"
      unfolding skip_done_def using ls' bs' b0' by blast
  next
    assume "groupLargestLength ?s1 < fNumBits grp - currentBit ?s1"
    have "\<forall>a l. st \<le> a \<and> 1 \<le> l \<and> a + l \<le> ?p + 1 \<and> run_free volume bm grp a l
             \<longrightarrow> l \<le> bestLength ?s1"
      using cov by blast
    moreover have "largest_sound volume bm grp (?s1\<lparr>currentBit := currentBit ?s1 + 1\<rparr>)"
      using ls' by (simp add: largest_sound_def del: end_range_fields(4-8))
    moreover have "best_sound volume bm groups (?s1\<lparr>currentBit := currentBit ?s1 + 1\<rparr>)"
      using bs' by (simp add: best_sound_def del: end_range_fields(4-8))
    ultimately
    show "scan_inv volume bm groups grp maximum st b0 (?s1\<lparr>currentBit := currentBit ?s1 + 1\<rparr>)"
      unfolding scan_inv_def using pos p us gl' b0' cl cst
      by (auto simp del: end_range_fields(4-8))
  qed
qed

lemma scan_bits_spec:
  assumes bpb: "0 < bitsPerBlock volume"
    and nb: "nb \<le> bitsPerBlock volume" "nb \<le> 65536" and view: "ab_fNumBits cached = nb"
    and blk: "0 \<le> blk" "blk * bitsPerBlock volume + nb \<le> fNumBits grp"
    and n31: "fNumBits grp < 2147483648"
    and gi: "0 \<le> gi" "gi < int (length groups)" "groups ! nat gi = grp" and st: "0 \<le> st"
    and bt: "0 \<le> bt" "bt \<le> nb"
    and cur: "currentBit s = blk * bitsPerBlock volume + bt"
    and inv: "scan_inv volume bm groups grp maximum st b0 s"
  shows "case scan_bits cached (bm (fStart grp + blk)) grp gi maximum bt s of
           (Loop_end, s') \<Rightarrow> scan_inv volume bm groups grp maximum st b0 s'
                               \<and> currentBit s' = blk * bitsPerBlock volume + nb
         | (Break_maximum, s') \<Rightarrow> max_done volume bm groups grp maximum b0 s'
         | (Break_skip, s') \<Rightarrow> skip_done volume bm groups grp maximum st b0 s'"
  using bt cur inv
proof (induction "nat (nb - bt)" arbitrary: bt s rule: less_induct)
  case less
  let ?bpb = "bitsPerBlock volume"
  let ?d = "bm (fStart grp + blk)"
  show ?case
  proof (cases "bt < nb")
    case False
    with less.prems have "bt = nb" by simp
    with less.prems show ?thesis
      by (subst scan_bits.simps) (simp add: view)
  next
    case True
    have p: "currentBit s < fNumBits grp" using True blk less.prems by simp
    have used: "AllocationBlock_IsUsed cached ?d (nat (u16 bt))
                  = group_bit volume bm grp (currentBit s)"
      unfolding less.prems(3)
      by (rule IsUsed_group_bit [OF bpb blk(1) less.prems(1) True nb view])
    have "0 \<le> blk * ?bpb" using blk(1) bpb by simp
    then have "0 \<le> fNumBits grp" using p less.prems(1,3) by linarith
    then have n: "i32 (fNumBits grp) = fNumBits grp"
      using n31 by (intro i32_id) auto
    show ?thesis
    proof (cases "group_bit volume bm grp (currentBit s)")
      case False
      note step = extend_range_step [OF less.prems(4) p False gi st]
      show ?thesis
      proof (cases "maximum \<le> currentLength s + 1")
        case True
        with step \<open>bt < nb\<close> used False show ?thesis
          by (subst scan_bits.simps) (simp add: view Let_def)
      next
        case nomax: False
        let ?s' = "(extend_range s)\<lparr>currentBit := currentBit (extend_range s) + 1\<rparr>"
        have inv': "scan_inv volume bm groups grp maximum st b0 ?s'"
          using step nomax by simp
        have cur': "currentBit ?s' = blk * ?bpb + (bt + 1)"
          using less.prems(3) by simp
        have IH: "case scan_bits cached ?d grp gi maximum (bt + 1) ?s' of
           (Loop_end, s') \<Rightarrow> scan_inv volume bm groups grp maximum st b0 s'
                               \<and> currentBit s' = blk * ?bpb + nb
         | (Break_maximum, s') \<Rightarrow> max_done volume bm groups grp maximum b0 s'
         | (Break_skip, s') \<Rightarrow> skip_done volume bm groups grp maximum st b0 s'"
          using \<open>bt < nb\<close> less.prems(1) by (intro less.hyps cur' inv') auto
        have "scan_bits cached ?d grp gi maximum bt s
                = scan_bits cached ?d grp gi maximum (bt + 1) ?s'"
          using \<open>bt < nb\<close> used False nomax
          by (subst scan_bits.simps) (simp add: view Let_def)
        with IH show ?thesis by simp
      qed
    next
      case isused: True
      note step = end_range_step [OF less.prems(4) p isused gi st]
      let ?s1 = "end_range gi s"
      show ?thesis
      proof (cases "fNumBits grp - currentBit ?s1 \<le> groupLargestLength ?s1")
        case True
        with step have "skip_done volume bm groups grp maximum st b0 ?s1" by blast
        moreover have "scan_bits cached ?d grp gi maximum bt s = (Break_skip, ?s1)"
          using \<open>bt < nb\<close> used isused True
          by (subst scan_bits.simps) (simp add: view Let_def n del: end_range_fields)
        ultimately show ?thesis by simp
      next
        case noskip: False
        let ?s' = "?s1\<lparr>currentBit := currentBit ?s1 + 1\<rparr>"
        have inv': "scan_inv volume bm groups grp maximum st b0 ?s'"
          using step noskip by (simp del: end_range_fields)
        have cur': "currentBit ?s' = blk * ?bpb + (bt + 1)"
          using less.prems(3) by simp
        have IH: "case scan_bits cached ?d grp gi maximum (bt + 1) ?s' of
           (Loop_end, s') \<Rightarrow> scan_inv volume bm groups grp maximum st b0 s'
                               \<and> currentBit s' = blk * ?bpb + nb
         | (Break_maximum, s') \<Rightarrow> max_done volume bm groups grp maximum b0 s'
         | (Break_skip, s') \<Rightarrow> skip_done volume bm groups grp maximum st b0 s'"
          using \<open>bt < nb\<close> less.prems(1) by (intro less.hyps cur' inv') auto
        have "scan_bits cached ?d grp gi maximum bt s
                = scan_bits cached ?d grp gi maximum (bt + 1) ?s'"
          using \<open>bt < nb\<close> used isused noskip
          by (subst scan_bits.simps) (simp add: view Let_def n del: end_range_fields)
        with IH show ?thesis by simp
      qed
    qed
  qed
qed

text \<open>The bitmap blocks of a group are exactly the blocks that hold its bits.\<close>

definition valid_blocks :: "Volume \<Rightarrow> AllocationGroup \<Rightarrow> bool" where
  "valid_blocks volume grp \<longleftrightarrow>
     valid_geometry volume grp
     \<and> (fNumBitmapBlocks grp - 1) * bitsPerBlock volume < fNumBits grp
     \<and> fNumBits grp \<le> fNumBitmapBlocks grp * bitsPerBlock volume"

lemma SetTo_eq_SetToWritable:
  "AllocationBlock_SetTo volume grp block = AllocationBlock_SetToWritable volume grp block"
  by (simp add: AllocationBlock_SetTo_def AllocationBlock_SetToWritable_def)

text \<open>
  How the loop over the bitmap blocks of a group ends: at the end of the group with the
  invariant, by the \<^verbatim>\<open>break\<close> that skips the rest of the group, or by the \<^verbatim>\<open>break\<close> taken
  when \<open>maximum\<close> bits have been found.
\<close>

definition scan_result ::
  "Volume \<Rightarrow> bitmap \<Rightarrow> AllocationGroup list \<Rightarrow> AllocationGroup \<Rightarrow> int \<Rightarrow> int \<Rightarrow> int \<Rightarrow> bool
     \<Rightarrow> bool \<Rightarrow> search \<Rightarrow> bool" where
  "scan_result volume bm groups grp maximum st b0 c c' s' \<longleftrightarrow>
     (c' = c \<and> scan_inv volume bm groups grp maximum st b0 s' \<and> currentBit s' = fNumBits grp)
     \<or> (c' = c \<and> skip_done volume bm groups grp maximum st b0 s')
     \<or> (\<not> c' \<and> max_done volume bm groups grp maximum b0 s')"

lemma scan_blocks_spec:
  assumes g: "valid_blocks volume grp" and ok: "group_readable volume grp"
    and gi: "0 \<le> gi" "gi < int (length groups)" "groups ! nat gi = grp" and st: "0 \<le> st"
    and blk: "0 \<le> block"
    and cur: "currentBit s = block * bitsPerBlock volume + start mod bitsPerBlock volume"
    and fin: "fNumBitmapBlocks grp \<le> block \<longrightarrow> currentBit s = fNumBits grp"
    and inv: "scan_inv volume bm groups grp maximum st b0 s"
  shows "\<exists>c' s'. scan_blocks volume bm grp gi maximum block start c s = (B_OK, c', s')
           \<and> scan_result volume bm groups grp maximum st b0 c c' s'"
  using blk cur fin inv
proof (induction "nat (fNumBitmapBlocks grp - block)" arbitrary: block start s rule: less_induct)
  case less
  let ?bpb = "bitsPerBlock volume"
  let ?n = "fNumBits grp"
  from g have vg: "valid_geometry volume grp"
    and last: "(fNumBitmapBlocks grp - 1) * ?bpb < ?n"
    and all: "?n \<le> fNumBitmapBlocks grp * ?bpb"
    by (simp_all add: valid_blocks_def)
  note bpb = bitsPerBlock_bounds [OF vg]
  have bpb0: "0 < ?bpb" using bpb by simp
  show ?case
  proof (cases "block < fNumBitmapBlocks grp")
    case False
    with less.prems have "scan_inv volume bm groups grp maximum st b0 s \<and> currentBit s = ?n"
      by simp
    moreover have "scan_blocks volume bm grp gi maximum block start c s = (B_OK, c, s)"
      using False by (subst scan_blocks.simps) simp
    ultimately show ?thesis by (simp add: scan_result_def)
  next
    case True
    have "block * ?bpb \<le> (fNumBitmapBlocks grp - 1) * ?bpb"
      using True bpb0 by (intro mult_right_mono) auto
    with last have lt: "block * ?bpb < ?n" by simp
    have cok: "cache_ok volume (fStart grp + block)"
      using ok lt less.prems(1) by (simp add: group_readable_def)
    define nb where "nb = min ?bpb (?n - block * ?bpb)"
    define cached where "cached = \<lparr>ab_fNumBits = nb, ab_fBlockNumber = fStart grp + block\<rparr>"
    have set: "AllocationBlock_SetTo volume grp (u16 block) = Some cached"
      unfolding SetTo_eq_SetToWritable cached_def nb_def
      by (rule SetToWritable_in_group [OF vg less.prems(1) lt cok])
    have nb: "nb \<le> ?bpb" "nb \<le> 65536" "ab_fNumBits cached = nb"
      "block * ?bpb + nb \<le> ?n"
      using bpb by (auto simp: nb_def cached_def)
    have bn: "ab_fBlockNumber cached = fStart grp + block" by (simp add: cached_def)
    have n31: "?n < 2147483648" using vg by (simp add: valid_geometry_def)
    have bt: "0 \<le> start mod ?bpb" "start mod ?bpb \<le> nb"
    proof -
      show "0 \<le> start mod ?bpb" using bpb0 by simp
      have "start mod ?bpb < ?bpb" using bpb0 by simp
      moreover have "currentBit s \<le> ?n" using less.prems(4) by (simp add: scan_inv_def)
      ultimately show "start mod ?bpb \<le> nb" using less.prems(2) by (simp add: nb_def)
    qed
    obtain ex s1 where sb: "scan_bits cached (bm (fStart grp + block)) grp gi maximum
                              (start mod ?bpb) s = (ex, s1)"
      by (cases "scan_bits cached (bm (fStart grp + block)) grp gi maximum (start mod ?bpb) s")
    from scan_bits_spec [OF bpb0 nb(1,2,3) less.prems(1) nb(4) n31 gi st bt less.prems(2,4)]
    have res: "case ex of
           Loop_end \<Rightarrow> scan_inv volume bm groups grp maximum st b0 s1
                               \<and> currentBit s1 = block * ?bpb + nb
         | Break_maximum \<Rightarrow> max_done volume bm groups grp maximum b0 s1
         | Break_skip \<Rightarrow> skip_done volume bm groups grp maximum st b0 s1"
      unfolding sb by (cases ex) simp_all
    have unfold: "scan_blocks volume bm grp gi maximum block start c s
      = (let block' = (if ex = Break_skip then fNumBitmapBlocks grp else block)
         in if bestLength s1 \<ge> maximum then (B_OK, False, s1)
            else scan_blocks volume bm grp gi maximum (block' + 1) 0 c s1)"
      using True bn
      by (subst scan_blocks.simps)
         (simp add: set bitsPerBlock_def [symmetric] sb Let_def)
    show ?thesis
    proof (cases ex)
      case Break_maximum
      with res have md: "max_done volume bm groups grp maximum b0 s1" by simp
      then have "maximum \<le> bestLength s1" by (simp add: max_done_def)
      with unfold md show ?thesis by (auto simp: scan_result_def Let_def)
    next
      case Break_skip
      with res have sd: "skip_done volume bm groups grp maximum st b0 s1" by simp
      then have "bestLength s1 < maximum" by (simp add: skip_done_def)
      moreover have "scan_blocks volume bm grp gi maximum (fNumBitmapBlocks grp + 1) 0 c s1
                       = (B_OK, c, s1)"
        by (subst scan_blocks.simps) simp
      ultimately have "scan_blocks volume bm grp gi maximum block start c s = (B_OK, c, s1)"
        using unfold Break_skip by simp
      with sd show ?thesis by (simp add: scan_result_def)
    next
      case Loop_end
      with res have inv1: "scan_inv volume bm groups grp maximum st b0 s1"
        and cur1: "currentBit s1 = block * ?bpb + nb" by simp_all
      from inv1 have "bestLength s1 < maximum" by (simp add: scan_inv_def)
      then have step: "scan_blocks volume bm grp gi maximum block start c s
                         = scan_blocks volume bm grp gi maximum (block + 1) 0 c s1"
        using unfold Loop_end by simp
      have partial: "fNumBitmapBlocks grp \<le> block + 1" if "\<not> ?bpb \<le> ?n - block * ?bpb"
      proof (rule ccontr)
        assume "\<not> fNumBitmapBlocks grp \<le> block + 1"
        then have "(block + 2) * ?bpb \<le> fNumBitmapBlocks grp * ?bpb"
          using bpb0 by (intro mult_right_mono) auto
        then have "(block + 1) * ?bpb \<le> (fNumBitmapBlocks grp - 1) * ?bpb"
          by (simp add: algebra_simps)
        with last that show False by (simp add: algebra_simps)
      qed
      show ?thesis
      proof (cases "fNumBitmapBlocks grp \<le> block + 1")
        case True
        have "currentBit s1 = ?n"
        proof (cases "?bpb \<le> ?n - block * ?bpb")
          case full: True
          have "fNumBitmapBlocks grp * ?bpb \<le> (block + 1) * ?bpb"
            using True bpb0 by (intro mult_right_mono) auto
          with all full have "?n = block * ?bpb + ?bpb" by (simp add: algebra_simps)
          with cur1 full show ?thesis by (simp add: nb_def)
        next
          case False
          then show ?thesis using cur1 by (simp add: nb_def)
        qed
        moreover have "scan_blocks volume bm grp gi maximum (block + 1) 0 c s1 = (B_OK, c, s1)"
          using True by (subst scan_blocks.simps) simp
        ultimately show ?thesis using step inv1 by (simp add: scan_result_def)
      next
        case more: False
        have full: "?bpb \<le> ?n - block * ?bpb"
          using partial more by blast
        have c1: "currentBit s1 = (block + 1) * ?bpb + 0 mod ?bpb"
          using cur1 full by (simp add: nb_def algebra_simps)
        have "\<exists>c' s'. scan_blocks volume bm grp gi maximum (block + 1) 0 c s1 = (B_OK, c', s')
           \<and> scan_result volume bm groups grp maximum st b0 c c' s'"
          using more less.prems(1) True by (intro less.hyps c1 inv1) auto
        with step show ?thesis by simp
      qed
    qed
  qed
qed

text \<open>
  The largest-free hint of a group is sound when, if valid, it names a run of unset bits
  inside the group; it is exact when in addition no free run of the group is longer.
\<close>

definition hint_sound :: "Volume \<Rightarrow> bitmap \<Rightarrow> AllocationGroup \<Rightarrow> bool" where
  "hint_sound volume bm grp \<longleftrightarrow>
     (fLargestValid grp \<and> 0 \<le> fLargestLength grp \<longrightarrow>
        0 \<le> fLargestStart grp \<and> fLargestStart grp + fLargestLength grp \<le> fNumBits grp
        \<and> run_free volume bm grp (fLargestStart grp) (fLargestLength grp))"

definition largest_exact :: "Volume \<Rightarrow> bitmap \<Rightarrow> AllocationGroup \<Rightarrow> bool" where
  "largest_exact volume bm grp \<longleftrightarrow>
     (fLargestValid grp \<longrightarrow>
        (\<forall>a l. free_run_in volume bm grp a l \<longrightarrow> l \<le> fLargestLength grp))"

text \<open>
  A group is consistent with the bitmap when its bitmap blocks can be read, its free-bit
  count is the number of unset bits, its first-free hint is a lower bound and its
  largest-free hint is sound.
\<close>

definition group_consistent :: "Volume \<Rightarrow> bitmap \<Rightarrow> AllocationGroup \<Rightarrow> bool" where
  "group_consistent volume bm grp \<longleftrightarrow>
     valid_blocks volume grp \<and> group_readable volume grp
     \<and> fFreeBits grp = free_bit_count volume bm grp
     \<and> first_free_bound volume bm grp
     \<and> hint_sound volume bm grp"

lemma free_bit_count_zero:
  assumes "free_bit_count volume bm grp = 0" and "0 \<le> p" "p < fNumBits grp"
  shows "group_bit volume bm grp p"
proof -
  let ?F = "{p \<in> {0..<fNumBits grp}. \<not> group_bit volume bm grp p}"
  have "finite ?F" by (rule finite_subset [of _ "{0..<fNumBits grp}"]) auto
  with assms(1) have "?F = {}" by (simp add: free_bit_count_def)
  with assms(2,3) show ?thesis by auto
qed

lemma free_bit_count_nonzero:
  assumes "free_bit_count volume bm grp \<noteq> 0"
  obtains p where "0 \<le> p" "p < fNumBits grp" "\<not> group_bit volume bm grp p"
proof -
  let ?F = "{p \<in> {0..<fNumBits grp}. \<not> group_bit volume bm grp p}"
  have "?F \<noteq> {}"
  proof
    assume e: "?F = {}"
    have "free_bit_count volume bm grp = int (card ?F)" by (simp only: free_bit_count_def)
    also have "\<dots> = 0" by (simp only: e card.empty of_nat_0)
    finally show False using assms by simp
  qed
  then obtain p where "p \<in> ?F" by blast
  then show ?thesis by (intro that [of p]) auto
qed

lemma free_run_in_bit:
  "free_run_in volume bm grp a l \<Longrightarrow> 0 \<le> a \<and> a < fNumBits grp \<and> \<not> group_bit volume bm grp a"
  by (auto simp: free_run_in_def run_free_def)

lemma covered_from_first_free:
  assumes ffb: "first_free_bound volume bm grp"
    and st: "st \<le> fFirstFree grp \<or> st \<le> 0"
    and cov: "covered volume bm grp st s"
  shows "covered volume bm grp 0 s"
  unfolding covered_def
proof (intro allI impI)
  fix a l assume r: "0 \<le> a \<and> free_run_in volume bm grp a l"
  then have bit: "0 \<le> a" "a < fNumBits grp" "\<not> group_bit volume bm grp a"
    using free_run_in_bit by blast+
  have "st \<le> a"
  proof (rule ccontr)
    assume "\<not> st \<le> a"
    with st bit(1) have "a < fFirstFree grp" by auto
    with ffb bit show False by (simp add: first_free_bound_def)
  qed
  with cov r show "l \<le> bestLength s" unfolding covered_def by blast
qed

lemma best_sound_geometry:
  assumes "best_sound volume bm groups s" and "length groups' = length groups"
    and "\<And>i. i < length groups \<Longrightarrow> fStart (groups' ! i) = fStart (groups ! i)
                                    \<and> fNumBits (groups' ! i) = fNumBits (groups ! i)"
  shows "best_sound volume bm groups' s"
proof -
  have "nat (bestGroup s) < length groups" if "0 \<le> bestGroup s" "bestGroup s < int (length groups)"
    using that by simp
  with assms show ?thesis
    by (auto simp: best_sound_def run_free_cong [of "groups' ! nat (bestGroup s)" "groups ! nat (bestGroup s)"])
qed

text \<open>The end of a scan that reached the end of the group.\<close>

lemma close_scan_end:
  assumes inv: "scan_inv volume bm groups grp maximum st b0 s"
    and fin: "currentBit s = fNumBits grp" and n31: "fNumBits grp < 2147483648"
    and gi: "0 \<le> gi" "gi < int (length groups)" "groups ! nat gi = grp" and st: "0 \<le> st"
  shows "covered volume bm grp st (close_scan gi grp c s)"
    and "best_sound volume bm groups (close_scan gi grp c s)"
    and "largest_sound volume bm grp (close_scan gi grp c s)"
    and "bestLength s \<le> bestLength (close_scan gi grp c s)"
    and "bestLength (close_scan gi grp c s) < maximum"
proof -
  let ?p = "currentBit s" and ?cl = "currentLength s" and ?s2 = "close_scan gi grp c s"
  from inv have cl: "0 \<le> ?cl" "?cl \<le> ?p - st" "?cl < maximum"
    and rf: "run_free volume bm grp (?p - ?cl) ?cl"
    and cs: "0 < ?cl \<longrightarrow> currentStart s = ?p - ?cl"
    and cst: "0 \<le> currentStart s" "currentStart s \<le> fNumBits grp"
    and left: "st < ?p - ?cl \<longrightarrow> group_bit volume bm grp (?p - ?cl - 1)"
    and before: "\<And>a l. st \<le> a \<Longrightarrow> 1 \<le> l \<Longrightarrow> a + l \<le> ?p - ?cl
                   \<Longrightarrow> run_free volume bm grp a l \<Longrightarrow> l \<le> bestLength s"
    and ls: "largest_sound volume bm grp s"
    and bs: "best_sound volume bm groups s"
    and b0: "bestLength s < maximum"
    and pos: "st \<le> ?p"
    by (simp_all add: scan_inv_def)
  have n: "i32 (fNumBits grp) = fNumBits grp"
    using n31 pos st fin by (intro i32_id) auto
  have bl: "bestLength ?s2 = max (bestLength s) ?cl"
    using fin by (auto simp: close_scan_def n Let_def)
  show "bestLength s \<le> bestLength ?s2" "bestLength ?s2 < maximum"
    using bl b0 cl by auto
  show "best_sound volume bm groups ?s2"
    using bs cl cs cst rf gi st fin
    by (auto simp: best_sound_def close_scan_def n Let_def)
  show "largest_sound volume bm grp ?s2"
    using ls cl cs cst rf st fin
    by (auto simp: largest_sound_def close_scan_def n Let_def)
  have "l \<le> bestLength ?s2" if r: "st \<le> a" "free_run_in volume bm grp a l" for a l
  proof -
    from r(2) have run: "1 \<le> l" "a + l \<le> ?p" "run_free volume bm grp a l"
      by (simp_all add: free_run_in_def fin)
    show ?thesis
    proof (cases "a + l \<le> ?p - ?cl")
      case True
      from before [OF r(1) run(1) True run(3)] show ?thesis by (simp add: bl)
    next
      case False
      have "?p - ?cl \<le> a"
      proof (rule ccontr)
        assume "\<not> ?p - ?cl \<le> a"
        with r(1) have "st < ?p - ?cl" by simp
        with left have "group_bit volume bm grp (?p - ?cl - 1)" by simp
        moreover have "a \<le> ?p - ?cl - 1 \<and> ?p - ?cl - 1 < a + l"
          using \<open>\<not> ?p - ?cl \<le> a\<close> False by auto
        ultimately show False using run(3) by (auto simp: run_free_def)
      qed
      with run(2) have "l \<le> ?cl" by simp
      then show ?thesis by (simp add: bl)
    qed
  qed
  then show "covered volume bm grp st ?s2" unfolding covered_def by blast
qed

lemma close_scan_inside:
  assumes "currentBit s < fNumBits grp" "0 \<le> fNumBits grp" "fNumBits grp < 2147483648"
  shows "close_scan gi grp c s = s"
  using assms by (simp add: close_scan_def i32_id)

text \<open>
  What one pass over a group establishes: no error; only the largest-free hint of the
  group may change, and it stays sound; the best run stays sound and does not get
  shorter; the pass ends in \<^verbatim>\<open>break\<close> exactly when the best run has \<open>maximum\<close> bits; and a
  pass from offset 0 over a group with an exact hint leaves no longer free run behind in
  that group.
\<close>

definition visit_ok ::
  "Volume \<Rightarrow> bitmap \<Rightarrow> AllocationGroup list \<Rightarrow> AllocationGroup \<Rightarrow> int \<Rightarrow> int \<Rightarrow> search
     \<Rightarrow> visit \<Rightarrow> AllocationGroup \<Rightarrow> search \<Rightarrow> bool" where
  "visit_ok volume bm groups grp maximum start0 s v grp' s' \<longleftrightarrow>
     v \<noteq> Visit_error
     \<and> fNumBits grp' = fNumBits grp \<and> fNumBitmapBlocks grp' = fNumBitmapBlocks grp
     \<and> fStart grp' = fStart grp \<and> fFirstFree grp' = fFirstFree grp
     \<and> fFreeBits grp' = fFreeBits grp
     \<and> hint_sound volume bm grp'
     \<and> best_sound volume bm groups s' \<and> bestLength s \<le> bestLength s'
     \<and> (v = Visit_break \<longleftrightarrow> maximum \<le> bestLength s')
     \<and> (start0 = 0 \<and> largest_exact volume bm grp \<and> v = Visit_continue
          \<longrightarrow> covered volume bm grp 0 s')
     \<and> (grp' \<noteq> grp \<longrightarrow> start0 = 0 \<and> \<not> fLargestValid grp)"

lemma visit_group_scan:
  assumes cons: "group_consistent volume bm grp"
    and gi: "0 \<le> gi" "gi < int (length groups)" "groups ! nat gi = grp"
    and bs: "best_sound volume bm groups s" and bl: "- 1 \<le> bestLength s" "bestLength s < maximum"
    and st: "0 \<le> st" "st < fNumBits grp" and mx: "0 < maximum"
  shows "\<exists>c' s1. scan_blocks volume bm grp gi maximum (st div bitsPerBlock volume) st (st = 0)
                    (s\<lparr>currentStart := 0, currentLength := 0, groupLargestStart := -1,
                       groupLargestLength := -1, currentBit := st\<rparr>) = (B_OK, c', s1)
           \<and> best_sound volume bm groups (close_scan gi grp c' s1)
           \<and> bestLength s \<le> bestLength (close_scan gi grp c' s1)
           \<and> (c' \<longrightarrow> st = 0 \<and> largest_sound volume bm grp (close_scan gi grp c' s1))
           \<and> (bestLength (close_scan gi grp c' s1) < maximum
                \<longrightarrow> covered volume bm grp st (close_scan gi grp c' s1))"
proof -
  let ?bpb = "bitsPerBlock volume"
  let ?s0 = "s\<lparr>currentStart := 0, currentLength := 0, groupLargestStart := -1,
                groupLargestLength := -1, currentBit := st\<rparr>"
  let ?b0 = "bestLength s"
  from cons have vb: "valid_blocks volume grp" and ok: "group_readable volume grp"
    by (simp_all add: group_consistent_def)
  then have vg: "valid_geometry volume grp"
    and all: "fNumBits grp \<le> fNumBitmapBlocks grp * ?bpb"
    by (simp_all add: valid_blocks_def)
  note bpb = bitsPerBlock_bounds [OF vg]
  have n: "0 \<le> fNumBits grp" "fNumBits grp < 2147483648"
    using vg by (simp_all add: valid_geometry_def)
  have inv0: "scan_inv volume bm groups grp maximum st ?b0 ?s0"
    using bs bl st mx by (auto simp: scan_inv_def largest_sound_def best_sound_def)
  have blk: "0 \<le> st div ?bpb" using st(1) bpb by (simp add: pos_imp_zdiv_nonneg_iff)
  have cur: "currentBit ?s0 = st div ?bpb * ?bpb + st mod ?bpb" by simp
  have fin: "fNumBitmapBlocks grp \<le> st div ?bpb \<longrightarrow> currentBit ?s0 = fNumBits grp"
  proof
    assume "fNumBitmapBlocks grp \<le> st div ?bpb"
    then have "fNumBitmapBlocks grp * ?bpb \<le> st div ?bpb * ?bpb"
      using bpb by (intro mult_right_mono) auto
    moreover have "st div ?bpb * ?bpb + st mod ?bpb = st" by simp
    moreover have "0 \<le> st mod ?bpb" using bpb(2) by simp
    ultimately have "fNumBitmapBlocks grp * ?bpb \<le> st" by linarith
    then show "currentBit ?s0 = fNumBits grp" using all st(2) by simp
  qed
  from scan_blocks_spec [OF vb ok gi st(1) blk cur fin inv0, of "st = 0"]
  obtain c' s1 where
    res: "scan_blocks volume bm grp gi maximum (st div ?bpb) st (st = 0) ?s0 = (B_OK, c', s1)"
    and sr: "scan_result volume bm groups grp maximum st ?b0 (st = 0) c' s1"
    by blast
  let ?s2 = "close_scan gi grp c' s1"
  from sr consider
    (ended) "c' = (st = 0)" "scan_inv volume bm groups grp maximum st ?b0 s1"
            "currentBit s1 = fNumBits grp"
    | (skip) "c' = (st = 0)" "skip_done volume bm groups grp maximum st ?b0 s1"
    | (maxi) "\<not> c'" "max_done volume bm groups grp maximum ?b0 s1"
    by (auto simp: scan_result_def)
  then have "best_sound volume bm groups ?s2
           \<and> bestLength s \<le> bestLength ?s2
           \<and> (c' \<longrightarrow> st = 0 \<and> largest_sound volume bm grp ?s2)
           \<and> (bestLength ?s2 < maximum \<longrightarrow> covered volume bm grp st ?s2)"
  proof cases
    case ended
    note fin = close_scan_end [OF ended(2,3) n(2) gi st(1), of c']
    from ended(2) have "?b0 \<le> bestLength s1" by (simp add: scan_inv_def)
    with fin ended(1) show ?thesis by auto
  next
    case skip
    then have "currentBit s1 < fNumBits grp" by (simp add: skip_done_def)
    then have "?s2 = s1" using n by (rule close_scan_inside)
    with skip show ?thesis by (auto simp: skip_done_def)
  next
    case maxi
    then have "currentBit s1 < fNumBits grp" by (simp add: max_done_def)
    then have "?s2 = s1" using n by (rule close_scan_inside)
    with maxi show ?thesis by (auto simp: max_done_def)
  qed
  with res show ?thesis by blast
qed

lemma refresh_largest_fields [simp]:
  "fNumBits (refresh_largest grp c s) = fNumBits grp"
  "fNumBitmapBlocks (refresh_largest grp c s) = fNumBitmapBlocks grp"
  "fStart (refresh_largest grp c s) = fStart grp"
  "fFirstFree (refresh_largest grp c s) = fFirstFree grp"
  "fFreeBits (refresh_largest grp c s) = fFreeBits grp"
  by (simp_all add: refresh_largest_def)

lemma refresh_largest_sound:
  assumes "hint_sound volume bm grp" and "c \<longrightarrow> largest_sound volume bm grp s"
  shows "hint_sound volume bm (refresh_largest grp c s)"
  using assms
  by (auto simp: refresh_largest_def hint_sound_def largest_sound_def
        run_free_cong [of "grp\<lparr>fLargestStart := a, fLargestLength := b, fLargestValid := True\<rparr>" grp for a b])

lemma visit_group_spec:
  assumes cons: "group_consistent volume bm grp"
    and gi: "0 \<le> gi" "gi < int (length groups)" "groups ! nat gi = grp"
    and bs: "best_sound volume bm groups s" and bl: "- 1 \<le> bestLength s" "bestLength s < maximum"
    and s0: "0 \<le> start0" "start0 < 65536" and mx: "0 < maximum"
  shows "case visit_group volume bm grp gi maximum start0 s of
           (v, grp', s') \<Rightarrow> visit_ok volume bm groups grp maximum start0 s v grp' s'"
proof -
  from cons have vb: "valid_blocks volume grp"
    and cnt: "fFreeBits grp = free_bit_count volume bm grp"
    and ffb: "first_free_bound volume bm grp"
    and hs: "hint_sound volume bm grp"
    by (simp_all add: group_consistent_def)
  then have vg: "valid_geometry volume grp" by (simp add: valid_blocks_def)
  have n: "0 \<le> fNumBits grp" "fNumBits grp \<le> 65536"
    using vg by (simp_all add: valid_geometry_def)
  show ?thesis
  proof (cases "start0 \<ge> fNumBits grp \<or> IsFull grp")
    case True
    have none: "\<not> free_run_in volume bm grp a l" if "start0 = 0" for a l
    proof
      assume r: "free_run_in volume bm grp a l"
      then have bit: "0 \<le> a" "a < fNumBits grp" "\<not> group_bit volume bm grp a"
        using free_run_in_bit by blast+
      from True show False
      proof
        assume "fNumBits grp \<le> start0"
        with that bit show False by simp
      next
        assume "IsFull grp"
        then have "free_bit_count volume bm grp = 0" using cnt by (simp add: IsFull_def)
        from free_bit_count_zero [OF this bit(1,2)] bit(3) show False by simp
      qed
    qed
    have "visit_group volume bm grp gi maximum start0 s = (Visit_continue, grp, s)"
      using True by (simp add: visit_group_def)
    moreover have "visit_ok volume bm groups grp maximum start0 s Visit_continue grp s"
      using hs bs bl none by (auto simp: visit_ok_def covered_def)
    ultimately show ?thesis by simp
  next
    case False
    then have nf: "fFreeBits grp \<noteq> 0" and lt: "start0 < fNumBits grp"
      by (simp_all add: IsFull_def)
    from nf cnt obtain p where p: "0 \<le> p" "p < fNumBits grp" "\<not> group_bit volume bm grp p"
      by (metis free_bit_count_nonzero)
    have ff: "fFirstFree grp \<le> p"
    proof (rule ccontr)
      assume "\<not> fFirstFree grp \<le> p"
      with ffb p show False by (simp add: first_free_bound_def)
    qed
    define st where "st = (if start0 < fFirstFree grp then fFirstFree grp else start0)"
    have st: "0 \<le> st" "st < fNumBits grp" "start0 \<le> st"
      using s0 lt ff p by (auto simp: st_def)
    have st_code: "(if start0 < fFirstFree grp then u16 (fFirstFree grp) else start0) = st"
      using s0 ff p n by (auto simp: st_def u16_id)
    have st0: "st \<le> fFirstFree grp \<or> st \<le> 0" if "start0 = 0"
      using that by (auto simp: st_def)
    show ?thesis
    proof (cases "fLargestValid grp \<and> fLargestLength grp < bestLength s")
      case True
      have "visit_group volume bm grp gi maximum start0 s = (Visit_continue, grp, s)"
        using False True by (simp add: visit_group_def Let_def)
      moreover have "visit_ok volume bm groups grp maximum start0 s Visit_continue grp s"
        using hs bs bl True by (fastforce simp: visit_ok_def covered_def largest_exact_def)
      ultimately show ?thesis by simp
    next
      case noskip: False
      show ?thesis
      proof (cases "fLargestValid grp \<and> fLargestStart grp \<ge> st")
        case True
        with noskip have ge: "bestLength s \<le> fLargestLength grp" by simp
        let ?s' = "s\<lparr>bestGroup := gi, bestStart := fLargestStart grp,
                       bestLength := fLargestLength grp\<rparr>"
        let ?v = "if maximum \<le> fLargestLength grp then Visit_break else Visit_continue"
        have "visit_group volume bm grp gi maximum start0 s = (?v, grp, ?s')"
          using False True noskip ge by (simp add: visit_group_def Let_def st_code)
        moreover have "best_sound volume bm groups ?s'"
          using hs True gi by (simp add: best_sound_def hint_sound_def)
        moreover have "covered volume bm grp 0 ?s'" if "largest_exact volume bm grp"
          using that True by (auto simp: covered_def largest_exact_def)
        ultimately show ?thesis
          using hs ge by (simp add: visit_ok_def)
      next
        case scan: False
        let ?s0 = "s\<lparr>currentStart := 0, currentLength := 0, groupLargestStart := -1,
                      groupLargestLength := -1, currentBit := st\<rparr>"
        from visit_group_scan [OF cons gi bs bl st(1,2) mx] obtain c' s1 where
          res: "scan_blocks volume bm grp gi maximum (st div bitsPerBlock volume) st (st = 0) ?s0
                  = (B_OK, c', s1)"
          and bs2: "best_sound volume bm groups (close_scan gi grp c' s1)"
          and mono: "bestLength s \<le> bestLength (close_scan gi grp c' s1)"
          and lg: "c' \<longrightarrow> st = 0 \<and> largest_sound volume bm grp (close_scan gi grp c' s1)"
          and cov: "bestLength (close_scan gi grp c' s1) < maximum
                      \<longrightarrow> covered volume bm grp st (close_scan gi grp c' s1)"
          by blast
        let ?s2 = "close_scan gi grp c' s1"
        let ?g' = "refresh_largest grp c' ?s2"
        let ?v = "if maximum \<le> bestLength ?s2 then Visit_break else Visit_continue"
        have "visit_group volume bm grp gi maximum start0 s = (?v, ?g', ?s2)"
          using False noskip scan
          by (cases "fLargestValid grp")
             (simp_all add: visit_group_def Let_def st_code bitsPerBlock_def [symmetric] res)
        moreover have "hint_sound volume bm ?g'"
          using hs lg by (intro refresh_largest_sound) auto
        moreover have "covered volume bm grp 0 ?s2"
          if "start0 = 0" "bestLength ?s2 < maximum"
          using covered_from_first_free [OF ffb st0 [OF that(1)]] cov that(2) by blast
        moreover have "start0 = 0 \<and> \<not> fLargestValid grp" if "?g' \<noteq> grp"
        proof -
          from that have "c' \<and> \<not> fLargestValid grp"
            by (auto simp: refresh_largest_def split: if_splits)
          with lg st(3) s0(1) show ?thesis by auto
        qed
        ultimately show ?thesis
          using bs2 mono by (auto simp: visit_ok_def)
      qed
    qed
  qed
qed

text \<open>
  During the search only the largest-free hints of the groups change: \<open>groups_inv\<close> relates
  the groups to those at the start of the search.
\<close>

definition groups_inv ::
  "Volume \<Rightarrow> bitmap \<Rightarrow> AllocationGroup list \<Rightarrow> AllocationGroup list \<Rightarrow> bool" where
  "groups_inv volume bm groups0 groups \<longleftrightarrow>
     length groups = length groups0
     \<and> (\<forall>j<length groups0.
           fNumBits (groups ! j) = fNumBits (groups0 ! j)
           \<and> fNumBitmapBlocks (groups ! j) = fNumBitmapBlocks (groups0 ! j)
           \<and> fStart (groups ! j) = fStart (groups0 ! j)
           \<and> fFirstFree (groups ! j) = fFirstFree (groups0 ! j)
           \<and> fFreeBits (groups ! j) = fFreeBits (groups0 ! j)
           \<and> hint_sound volume bm (groups ! j))"

definition covered_groups ::
  "Volume \<Rightarrow> bitmap \<Rightarrow> AllocationGroup list \<Rightarrow> nat set \<Rightarrow> search \<Rightarrow> bool" where
  "covered_groups volume bm groups0 V s \<longleftrightarrow>
     (\<forall>j\<in>V. covered volume bm (groups0 ! j) 0 s)"

lemma covered_cong:
  "fStart grp' = fStart grp \<Longrightarrow> fNumBits grp' = fNumBits grp
     \<Longrightarrow> covered volume bm grp' st s = covered volume bm grp st s"
  by (simp add: covered_def free_run_in_def run_free_cong [of grp' grp])

lemma covered_mono:
  "covered volume bm grp st s \<Longrightarrow> bestLength s \<le> bestLength s' \<Longrightarrow> covered volume bm grp st s'"
  by (fastforce simp: covered_def)

lemma group_consistent_cong:
  assumes "group_consistent volume bm grp"
    and "fNumBits grp' = fNumBits grp" "fNumBitmapBlocks grp' = fNumBitmapBlocks grp"
      "fStart grp' = fStart grp" "fFirstFree grp' = fFirstFree grp"
      "fFreeBits grp' = fFreeBits grp" "hint_sound volume bm grp'"
  shows "group_consistent volume bm grp'"
  using assms
  by (simp add: group_consistent_def valid_blocks_def valid_geometry_def group_readable_def
      first_free_bound_def free_bit_count_cong [of grp' grp] group_bit_cong [of grp' grp])

lemma search_groups_spec:
  assumes n: "numGroups = int (length groups0)" "0 < numGroups"
    and cons0: "\<forall>j<length groups0. group_consistent volume bm (groups0 ! j)
                                    \<and> largest_exact volume bm (groups0 ! j)"
    and mx: "0 < maximum"
    and gidx: "0 \<le> gidx0" and start: "0 \<le> start" "start < 65536"
    and ginv: "groups_inv volume bm groups0 groups"
    and ch: "\<forall>j<length groups0. groups ! j \<noteq> groups0 ! j \<longrightarrow> j \<in> V"
    and cov: "covered_groups volume bm groups0 V s"
    and bs: "best_sound volume bm groups0 s"
    and bl: "- 1 \<le> bestLength s" "bestLength s < maximum"
  shows "\<exists>groups' s'.
           search_groups volume bm numGroups maximum i gidx0 start groups s = (B_OK, groups', s')
           \<and> groups_inv volume bm groups0 groups' \<and> best_sound volume bm groups0 s'
           \<and> bestLength s \<le> bestLength s'
           \<and> (bestLength s' < maximum \<longrightarrow>
                covered_groups volume bm groups0
                  (V \<union> {nat ((gidx0 + k) mod numGroups) | k.
                          (if start = 0 then 0 else 1) \<le> k \<and> k \<le> numGroups - i}) s')"
  using gidx start ginv ch cov bs bl
proof (induction "nat (numGroups + 1 - i)" arbitrary: i gidx0 start groups s V rule: less_induct)
  case less
  show ?case
  proof (cases "i < numGroups + 1")
    case False
    then have e: "V \<union> {nat ((gidx0 + k) mod numGroups) | k.
                 (if start = 0 then 0 else 1) \<le> k \<and> k \<le> numGroups - i} = V"
      by auto
    have sg: "search_groups volume bm numGroups maximum i gidx0 start groups s
                     = (B_OK, groups, s)"
      using False by (subst search_groups.simps) simp
    show ?thesis unfolding e sg
      using less.prems(4,6,7) by (intro exI [of _ groups] exI [of _ s]) simp
  next
    case True
    define gi where "gi = gidx0 mod numGroups"
    have gi: "0 \<le> gi" "gi < int (length groups)" "gi < int (length groups0)"
      using n less.prems(4) by (simp_all add: gi_def groups_inv_def)
    then have j: "nat gi < length groups0" by simp
    define grp where "grp = groups ! nat gi"
    from less.prems(4) j have same:
      "fNumBits grp = fNumBits (groups0 ! nat gi)"
      "fNumBitmapBlocks grp = fNumBitmapBlocks (groups0 ! nat gi)"
      "fStart grp = fStart (groups0 ! nat gi)" "fFirstFree grp = fFirstFree (groups0 ! nat gi)"
      "fFreeBits grp = fFreeBits (groups0 ! nat gi)" "hint_sound volume bm grp"
      and len: "length groups = length groups0"
      by (simp_all add: groups_inv_def grp_def)
    have c0: "group_consistent volume bm (groups0 ! nat gi)"
      and e0: "largest_exact volume bm (groups0 ! nat gi)"
      using cons0 j by blast+
    have cons: "group_consistent volume bm grp"
      by (rule group_consistent_cong [OF c0 same])
    have geo: "\<And>i. i < length groups0 \<Longrightarrow> fStart (groups ! i) = fStart (groups0 ! i)
                                    \<and> fNumBits (groups ! i) = fNumBits (groups0 ! i)"
      using less.prems(4) by (simp add: groups_inv_def)
    have geo': "\<And>i. i < length groups \<Longrightarrow> fStart (groups0 ! i) = fStart (groups ! i)
                                    \<and> fNumBits (groups0 ! i) = fNumBits (groups ! i)"
      using geo len by simp
    have bs': "best_sound volume bm groups s"
      by (rule best_sound_geometry [OF less.prems(7) len geo])
    obtain v grp' s' where vg: "visit_group volume bm grp gi maximum start s = (v, grp', s')"
      by (cases "visit_group volume bm grp gi maximum start s")
    from visit_group_spec [OF cons gi(1,2) grp_def [symmetric] bs' less.prems(8,9)
        less.prems(2,3) mx]
    have vok: "visit_ok volume bm groups grp maximum start s v grp' s'"
      by (simp add: vg)
    let ?groups' = "groups[nat gi := grp']"
    have vsame: "fNumBits grp' = fNumBits grp" "fNumBitmapBlocks grp' = fNumBitmapBlocks grp"
      "fStart grp' = fStart grp" "fFirstFree grp' = fFirstFree grp"
      "fFreeBits grp' = fFreeBits grp" "hint_sound volume bm grp'"
      using vok by (simp_all add: visit_ok_def)
    have ginv': "groups_inv volume bm groups0 ?groups'"
      unfolding groups_inv_def
    proof (rule conjI, goal_cases)
      case 1
      show "length ?groups' = length groups0" using len by simp
    next
      case 2
      show ?case
      proof (intro allI impI)
      fix j assume j': "j < length groups0"
      have old: "fNumBits (groups ! j) = fNumBits (groups0 ! j)
           \<and> fNumBitmapBlocks (groups ! j) = fNumBitmapBlocks (groups0 ! j)
           \<and> fStart (groups ! j) = fStart (groups0 ! j)
           \<and> fFirstFree (groups ! j) = fFirstFree (groups0 ! j)
           \<and> fFreeBits (groups ! j) = fFreeBits (groups0 ! j)
           \<and> hint_sound volume bm (groups ! j)"
        using less.prems(4) j' unfolding groups_inv_def by blast
      show "fNumBits (?groups' ! j) = fNumBits (groups0 ! j)
           \<and> fNumBitmapBlocks (?groups' ! j) = fNumBitmapBlocks (groups0 ! j)
           \<and> fStart (?groups' ! j) = fStart (groups0 ! j)
           \<and> fFirstFree (?groups' ! j) = fFirstFree (groups0 ! j)
           \<and> fFreeBits (?groups' ! j) = fFreeBits (groups0 ! j)
           \<and> hint_sound volume bm (?groups' ! j)"
      proof (cases "j = nat gi")
        case True
        then have "?groups' ! j = grp'" using j' len by simp
        then show ?thesis using vsame same True by simp
      next
        case False
        then have "?groups' ! j = groups ! j" by simp
        then show ?thesis using old by simp
      qed
      qed
    qed
    have bs0': "best_sound volume bm groups0 s'"
    proof -
      have "best_sound volume bm groups s'" using vok by (simp add: visit_ok_def)
      then show ?thesis
        by (rule best_sound_geometry [OF _ len [symmetric] geo'])
    qed
    have mono: "bestLength s \<le> bestLength s'" using vok by (simp add: visit_ok_def)
    have noerr: "v \<noteq> Visit_error" using vok by (simp add: visit_ok_def)
    show ?thesis
    proof (cases "v = Visit_break")
      case True
      then have "maximum \<le> bestLength s'" using vok by (simp add: visit_ok_def)
      moreover have "search_groups volume bm numGroups maximum i gidx0 start groups s
                       = (B_OK, ?groups', s')"
        using \<open>i < numGroups + 1\<close> True
        by (subst search_groups.simps)
           (simp add: Let_def gi_def [symmetric] grp_def [symmetric] vg)
      ultimately show ?thesis using ginv' bs0' mono by simp
    next
      case False
      with noerr have cont: "v = Visit_continue" by (cases v) auto
      then have bl': "bestLength s' < maximum" using vok by (simp add: visit_ok_def)
      define V' where "V' = V \<union> (if start = 0 then {nat gi} else {})"
      have ch': "\<forall>j<length groups0. ?groups' ! j \<noteq> groups0 ! j \<longrightarrow> j \<in> V'"
      proof (intro allI impI)
        fix j assume j': "j < length groups0" and d: "?groups' ! j \<noteq> groups0 ! j"
        show "j \<in> V'"
        proof (cases "j = nat gi")
          case True
          show ?thesis
          proof (cases "grp' = grp")
            case True
            with d \<open>j = nat gi\<close> j' len have "groups ! j \<noteq> groups0 ! j"
              by (simp add: grp_def)
            with less.prems(5) j' show ?thesis by (simp add: V'_def)
          next
            case False
            with vok have "start = 0" by (simp add: visit_ok_def)
            with \<open>j = nat gi\<close> show ?thesis by (simp add: V'_def)
          qed
        next
          case False
          with d have "groups ! j \<noteq> groups0 ! j" by simp
          with less.prems(5) j' show ?thesis by (simp add: V'_def)
        qed
      qed
      have old: "covered volume bm (groups0 ! j) 0 s'" if "j \<in> V" for j
        using less.prems(6) that mono by (auto simp: covered_groups_def intro: covered_mono)
      have cov': "covered_groups volume bm groups0 V' s'"
        unfolding covered_groups_def
      proof
        fix j assume "j \<in> V'"
        then consider "j \<in> V" | "start = 0" "j = nat gi" "j \<notin> V"
          by (auto simp: V'_def split: if_splits)
        then show "covered volume bm (groups0 ! j) 0 s'"
        proof cases
          case 1
          then show ?thesis by (rule old)
        next
          case 2
          with less.prems(5) j have eq: "grp = groups0 ! nat gi" by (auto simp: grp_def)
          then have "largest_exact volume bm grp" using e0 by simp
          with vok 2 cont have "covered volume bm grp 0 s'" by (simp add: visit_ok_def)
          with eq 2 show ?thesis by simp
        qed
      qed
      have step: "search_groups volume bm numGroups maximum i gidx0 start groups s
                    = search_groups volume bm numGroups maximum (i + 1) (gi + 1) 0 ?groups' s'"
        using \<open>i < numGroups + 1\<close> cont
        by (subst search_groups.simps)
           (simp add: Let_def gi_def [symmetric] grp_def [symmetric] vg)
      have "- 1 \<le> bestLength s'" using less.prems(8) mono by simp
      with \<open>i < numGroups + 1\<close> gi(1) ginv' ch' cov' bs0' bl'
      have "\<exists>groups'' s''.
           search_groups volume bm numGroups maximum (i + 1) (gi + 1) 0 ?groups' s'
             = (B_OK, groups'', s'')
           \<and> groups_inv volume bm groups0 groups'' \<and> best_sound volume bm groups0 s''
           \<and> bestLength s' \<le> bestLength s''
           \<and> (bestLength s'' < maximum \<longrightarrow>
                covered_groups volume bm groups0
                  (V' \<union> {nat ((gi + 1 + k) mod numGroups) | k.
                          (if (0 :: int) = 0 then 0 else 1) \<le> k \<and> k \<le> numGroups - (i + 1)}) s'')"
        by (intro less.hyps) auto
      then obtain groups'' s'' where
        res: "search_groups volume bm numGroups maximum (i + 1) (gi + 1) 0 ?groups' s'
                = (B_OK, groups'', s'')"
        and ginv'': "groups_inv volume bm groups0 groups''"
        and bs'': "best_sound volume bm groups0 s''"
        and mono': "bestLength s' \<le> bestLength s''"
        and cov'': "bestLength s'' < maximum \<longrightarrow>
                covered_groups volume bm groups0
                  (V' \<union> {nat ((gi + 1 + k) mod numGroups) | k. 0 \<le> k \<and> k \<le> numGroups - (i + 1)}) s''"
        by auto
      have sub: "V \<union> {nat ((gidx0 + k) mod numGroups) | k.
                          (if start = 0 then 0 else 1) \<le> k \<and> k \<le> numGroups - i}
                 \<subseteq> V' \<union> {nat ((gi + 1 + k) mod numGroups) | k. 0 \<le> k \<and> k \<le> numGroups - (i + 1)}"
      proof
        fix x assume "x \<in> V \<union> {nat ((gidx0 + k) mod numGroups) | k.
                          (if start = 0 then 0 else 1) \<le> k \<and> k \<le> numGroups - i}"
        then consider "x \<in> V"
          | k where "x = nat ((gidx0 + k) mod numGroups)" "(if start = 0 then 0 else 1) \<le> k"
              "k \<le> numGroups - i"
          by blast
        then show "x \<in> V' \<union> {nat ((gi + 1 + k) mod numGroups) | k.
                                 0 \<le> k \<and> k \<le> numGroups - (i + 1)}"
        proof cases
          case 1
          then show ?thesis by (simp add: V'_def)
        next
          case 2
          show ?thesis
          proof (cases "k = 0")
            case True
            with 2 have "start = 0" "x = nat gi" by (auto simp: gi_def split: if_splits)
            then show ?thesis by (simp add: V'_def)
          next
            case False
            with 2 have k: "0 \<le> k - 1" "k - 1 \<le> numGroups - (i + 1)"
              by (auto split: if_splits)
            have "(gidx0 + k) mod numGroups = (gi + 1 + (k - 1)) mod numGroups"
              unfolding gi_def by (simp add: mod_add_left_eq)
            with 2(1) have "x = nat ((gi + 1 + (k - 1)) mod numGroups)" by simp
            with k have "x \<in> {nat ((gi + 1 + k) mod numGroups) | k.
                                 0 \<le> k \<and> k \<le> numGroups - (i + 1)}"
              by (intro CollectI exI [of _ "k - 1"]) simp
            then show ?thesis by simp
          qed
        qed
      qed
      have "covered_groups volume bm groups0
              (V \<union> {nat ((gidx0 + k) mod numGroups) | k.
                      (if start = 0 then 0 else 1) \<le> k \<and> k \<le> numGroups - i}) s''"
        if "bestLength s'' < maximum"
        using cov'' that sub unfolding covered_groups_def by blast
      with step res ginv'' bs'' mono mono' show ?thesis by simp
    qed
  qed
qed

section \<open>The allocator as a whole\<close>

text \<open>
  The allocator is consistent with the bitmap when every group is and every valid
  largest-free hint is exact. \<open>initial_search\<close> is the state of the search variables before
  the first group is visited.
\<close>

definition allocator_consistent :: "Volume \<Rightarrow> BlockAllocator \<Rightarrow> bool" where
  "allocator_consistent volume alloc \<longleftrightarrow>
     fNumGroups alloc = int (length (fGroups alloc)) \<and> 0 < fNumGroups alloc
     \<and> (\<forall>j<length (fGroups alloc).
           group_consistent volume (fBitmap alloc) (fGroups alloc ! j)
           \<and> largest_exact volume (fBitmap alloc) (fGroups alloc ! j))"

definition initial_search :: search where
  "initial_search = \<lparr>bestGroup = -1, bestStart = -1, bestLength = -1, currentStart = 0,
     currentLength = 0, groupLargestStart = -1, groupLargestLength = -1, currentBit = 0\<rparr>"

lemma round_robin_reaches:
  fixes n j g :: int
  assumes "0 < n" "0 \<le> j" "j < n"
  shows "\<exists>k. 1 \<le> k \<and> k \<le> n \<and> (g + k) mod n = j"
proof (cases "(j - g) mod n = 0")
  case True
  then have "(g + n) mod n = j mod n"
    by (metis add.commute diff_add_cancel mod_add_self1 mod_add_left_eq add_0)
  with assms show ?thesis by (intro exI [of _ n]) simp
next
  case False
  let ?k = "(j - g) mod n"
  have "0 \<le> ?k" "?k < n" using assms by simp_all
  with False have "1 \<le> ?k" "?k \<le> n" by simp_all
  moreover have "(g + ?k) mod n = j"
    using assms by (simp add: mod_add_right_eq)
  ultimately show ?thesis by blast
qed

lemma AllocateBlocks_search:
  assumes cons: "allocator_consistent volume alloc" and mx: "0 < maximum"
    and gidx: "0 \<le> groupIndex" and start: "0 \<le> start" "start < 65536"
  obtains groups' s' where
    "search_groups volume (fBitmap alloc) (fNumGroups alloc) maximum 0 groupIndex start
       (fGroups alloc) initial_search = (B_OK, groups', s')"
    "groups_inv volume (fBitmap alloc) (fGroups alloc) groups'"
    "best_sound volume (fBitmap alloc) (fGroups alloc) s'"
    "- 1 \<le> bestLength s'"
    "\<And>j. bestLength s' < maximum \<Longrightarrow> j < length (fGroups alloc)
       \<Longrightarrow> covered volume (fBitmap alloc) (fGroups alloc ! j) 0 s'"
proof -
  let ?bm = "fBitmap alloc" and ?g0 = "fGroups alloc" and ?n = "fNumGroups alloc"
  from cons have n: "?n = int (length ?g0)" "0 < ?n"
    and cons0: "\<forall>j<length ?g0. group_consistent volume ?bm (?g0 ! j)
                                 \<and> largest_exact volume ?bm (?g0 ! j)"
    unfolding allocator_consistent_def by blast+
  have ginv: "groups_inv volume ?bm ?g0 ?g0"
    using cons0 by (simp add: groups_inv_def group_consistent_def)
  have ch: "\<forall>j<length ?g0. ?g0 ! j \<noteq> ?g0 ! j \<longrightarrow> j \<in> {}" by simp
  have cov: "covered_groups volume ?bm ?g0 {} initial_search"
    by (simp add: covered_groups_def)
  have bs: "best_sound volume ?bm ?g0 initial_search"
    by (simp add: best_sound_def initial_search_def)
  have bl: "- 1 \<le> bestLength initial_search" "bestLength initial_search < maximum"
    using mx by (simp_all add: initial_search_def)
  from search_groups_spec [OF n cons0 mx gidx start ginv ch cov bs bl, of 0]
  obtain groups' s' where
    res: "search_groups volume ?bm ?n maximum 0 groupIndex start ?g0 initial_search
            = (B_OK, groups', s')"
    and ginv': "groups_inv volume ?bm ?g0 groups'"
    and bs': "best_sound volume ?bm ?g0 s'"
    and mono: "bestLength initial_search \<le> bestLength s'"
    and cov': "bestLength s' < maximum \<longrightarrow>
                covered_groups volume ?bm ?g0
                  ({} \<union> {nat ((groupIndex + k) mod ?n) | k.
                          (if start = 0 then 0 else 1) \<le> k \<and> k \<le> ?n - 0}) s'"
    by blast
  have all: "covered volume ?bm (?g0 ! j) 0 s'" if "bestLength s' < maximum" "j < length ?g0"
    for j
  proof -
    from round_robin_reaches [of ?n "int j" groupIndex] n that(2)
    obtain k where k: "1 \<le> k" "k \<le> ?n" "(groupIndex + k) mod ?n = int j" by auto
    then have "j \<in> {nat ((groupIndex + k) mod ?n) | k.
                          (if start = 0 then 0 else 1) \<le> k \<and> k \<le> ?n - 0}"
      by (intro CollectI exI [of _ k]) auto
    with cov' that(1) show ?thesis by (simp add: covered_groups_def)
  qed
  show ?thesis
    by (rule that [OF res ginv' bs' _ all]) (use mono in \<open>simp_all add: initial_search_def\<close>)
qed

lemma round_down_bounds:
  assumes "0 < m" "m \<le> b"
  shows "m \<le> round_down b m" "round_down b m \<le> b" "m dvd round_down b m"
proof -
  have "0 < b div m" using assms by (simp only: pos_imp_zdiv_pos_iff)
  then have "1 \<le> b div m" by simp
  then have "1 * m \<le> b div m * m" using assms(1) by (intro mult_right_mono) auto
  then show "m \<le> round_down b m" by (simp add: round_down_def)
  have "b div m * m + b mod m = b" by simp
  moreover have "0 \<le> b mod m" using assms(1) by simp
  ultimately show "round_down b m \<le> b" unfolding round_down_def by linarith
  show "m dvd round_down b m" by (simp add: round_down_def)
qed


text \<open>The length that \<^verbatim>\<open>AllocateBlocks\<close> hands out for a best run of length \<open>best\<close>.\<close>

definition chosen_length :: "int \<Rightarrow> int \<Rightarrow> int \<Rightarrow> int" where
  "chosen_length maximum minimum best =
     (if best > maximum then maximum
      else if minimum > 1 then round_down best minimum else best)"

lemma chosen_length_bounds:
  assumes "0 < maximum" "1 \<le> minimum" "minimum \<le> best"
  shows "1 \<le> chosen_length maximum minimum best"
    "chosen_length maximum minimum best \<le> best"
    "chosen_length maximum minimum best \<le> maximum"
    "minimum \<le> maximum \<Longrightarrow> minimum \<le> chosen_length maximum minimum best"
  using assms round_down_bounds(1,2) [of minimum best]
  by (auto simp: chosen_length_def)

lemma AllocateBlocks_unfold:
  "BlockAllocator_AllocateBlocks volume alloc groupIndex start maximum minimum =
     (if maximum = 0 then Some (B_BAD_VALUE, alloc, None)
      else
        (case search_groups volume (fBitmap alloc) (fNumGroups alloc) maximum 0 groupIndex start
                (fGroups alloc) initial_search of
           (status, groups, s) \<Rightarrow>
             if status \<noteq> B_OK then Some (B_ERROR, alloc\<lparr>fGroups := groups\<rparr>, None)
             else if bestLength s < minimum
             then Some (B_DEVICE_FULL, alloc\<lparr>fGroups := groups\<rparr>, None)
             else
               (case AllocationGroup_Allocate volume (groups ! nat (bestGroup s))
                          (fBitmap alloc) (u16 (bestStart s))
                          (chosen_length maximum minimum (bestLength s)) of
                     None \<Rightarrow> None
                   | Some (status', grp', bm') \<Rightarrow>
                       if status' \<noteq> B_OK
                       then Some (B_IO_ERROR,
                              alloc\<lparr>fGroups := groups[nat (bestGroup s) := grp'],
                                    fBitmap := bm'\<rparr>, None)
                       else Some (B_OK,
                              alloc\<lparr>fGroups := groups[nat (bestGroup s) := grp'],
                                    fBitmap := bm',
                                    used_blocks := used_blocks alloc
                                      + chosen_length maximum minimum (bestLength s)\<rparr>,
                              Some \<lparr>run_allocation_group = bestGroup s,
                                    run_start = u16 (bestStart s),
                                    run_length = u16 (chosen_length maximum minimum
                                                       (bestLength s))\<rparr>))))"
  by (simp add: BlockAllocator_AllocateBlocks_def initial_search_def chosen_length_def Let_def
      split: prod.splits option.splits)

text \<open>
  When the search has found a run of at least \<open>minimum\<close> bits, the allocation of the chosen
  part of it succeeds, and sets exactly the bits of the run.
\<close>

lemma AllocateBlocks_commit:
  assumes cons: "allocator_consistent volume alloc"
    and mx: "0 < maximum" "maximum \<le> 65535" and mn: "1 \<le> minimum"
    and res: "search_groups volume (fBitmap alloc) (fNumGroups alloc) maximum 0 groupIndex
                start (fGroups alloc) initial_search = (B_OK, groups', s')"
    and ginv: "groups_inv volume (fBitmap alloc) (fGroups alloc) groups'"
    and bs: "best_sound volume (fBitmap alloc) (fGroups alloc) s'"
    and ge: "minimum \<le> bestLength s'"
  defines "len \<equiv> chosen_length maximum minimum (bestLength s')"
  defines "bg \<equiv> nat (bestGroup s')"
  obtains bm1 where
    "BlockAllocator_AllocateBlocks volume alloc groupIndex start maximum minimum
       = Some (B_OK,
           alloc\<lparr>fGroups := groups'[bg := Allocate_hints (groups' ! bg) (bestStart s') len],
                 fBitmap := bm1, used_blocks := used_blocks alloc + len\<rparr>,
           Some \<lparr>run_allocation_group = bestGroup s', run_start = bestStart s',
                 run_length = len\<rparr>)"
    "\<And>B c k. k < 32 \<Longrightarrow>
       (bit (bm1 B c) k \<longleftrightarrow>
          bit (fBitmap alloc B c) k
          \<or> run_chunk_bit (bitsPerBlock volume) (fStart (fGroups alloc ! bg)) (bestStart s')
               len B c k)"
    "0 \<le> bestGroup s'" "bg < length (fGroups alloc)" "0 \<le> bestStart s'"
    "bestStart s' + len \<le> fNumBits (fGroups alloc ! bg)"
    "run_free volume (fBitmap alloc) (fGroups alloc ! bg) (bestStart s') len"
    "valid_geometry volume (fGroups alloc ! bg)" "group_readable volume (fGroups alloc ! bg)"
proof -
  let ?bm = "fBitmap alloc" and ?g0 = "fGroups alloc"
  from ge mn have b0: "0 \<le> bestLength s'" by simp
  from bs b0 have bgr: "0 \<le> bestGroup s'" "bestGroup s' < int (length ?g0)"
    and st0: "0 \<le> bestStart s'"
    and fit: "bestStart s' + bestLength s' \<le> fNumBits (?g0 ! bg)"
    and fr: "run_free volume ?bm (?g0 ! bg) (bestStart s') (bestLength s')"
    unfolding best_sound_def bg_def by blast+
  from bgr have bgl: "bg < length ?g0" by (simp add: bg_def)
  note lb = chosen_length_bounds [OF mx(1) mn ge, folded len_def]
  from cons bgl have gc: "group_consistent volume ?bm (?g0 ! bg)"
    unfolding allocator_consistent_def by blast
  then have vg: "valid_geometry volume (?g0 ! bg)" and rd: "group_readable volume (?g0 ! bg)"
    by (simp_all add: group_consistent_def valid_blocks_def)
  from ginv bgl have same: "fNumBits (groups' ! bg) = fNumBits (?g0 ! bg)"
    "fStart (groups' ! bg) = fStart (?g0 ! bg)"
    unfolding groups_inv_def by blast+
  have vg': "valid_geometry volume (groups' ! bg)"
    using vg by (simp add: valid_geometry_def same)
  have rd': "group_readable volume (groups' ! bg)"
    using rd by (simp add: group_readable_def same)
  from vg have "fNumBits (?g0 ! bg) \<le> 65536" by (simp add: valid_geometry_def)
  with fit ge mn have st1: "bestStart s' < 65536" by simp
  have fit': "bestStart s' + len \<le> fNumBits (groups' ! bg)"
    using fit lb(2) by (simp add: same)
  have len0: "0 \<le> len" "len \<le> 65535" using lb mx by simp_all
  from AllocationGroup_Allocate_spec [OF vg' rd' st0 st1 len0 fit', of ?bm]
  obtain bm1 where
    al: "AllocationGroup_Allocate volume (groups' ! bg) ?bm (bestStart s') len
           = Some (B_OK, Allocate_hints (groups' ! bg) (bestStart s') len, bm1)"
    and bits: "\<And>B c k. k < 32 \<Longrightarrow>
       (bit (bm1 B c) k \<longleftrightarrow>
          bit (?bm B c) k
          \<or> run_chunk_bit (bitsPerBlock volume) (fStart (groups' ! bg)) (bestStart s')
               len B c k)"
    by blast
  have u: "u16 (bestStart s') = bestStart s'" "u16 len = len"
    using st0 st1 len0 by (simp_all add: u16_id)
  have nz: "maximum \<noteq> 0" "\<not> bestLength s' < minimum" using mx ge by simp_all
  have r: "BlockAllocator_AllocateBlocks volume alloc groupIndex start maximum minimum
       = Some (B_OK,
           alloc\<lparr>fGroups := groups'[bg := Allocate_hints (groups' ! bg) (bestStart s') len],
                 fBitmap := bm1, used_blocks := used_blocks alloc + len\<rparr>,
           Some \<lparr>run_allocation_group = bestGroup s', run_start = bestStart s',
                 run_length = len\<rparr>)"
    unfolding AllocateBlocks_unfold res
    by (simp add: nz u al len_def [symmetric] bg_def [symmetric])
  have fr': "run_free volume ?bm (?g0 ! bg) (bestStart s') len"
    using fr lb(2) by (auto simp: run_free_def)
  show ?thesis
    by (rule that [OF r bits [unfolded same] bgr(1) bgl st0 fit' [unfolded same] fr' vg rd])
qed

text \<open>
  What the search returns on a consistent allocator: the result of
  \<^verbatim>\<open>AllocateBlocks\<close> is decided by the length of the best run.
\<close>

definition best_found :: "Volume \<Rightarrow> BlockAllocator \<Rightarrow> int \<Rightarrow> int \<Rightarrow> int \<Rightarrow> int" where
  "best_found volume alloc groupIndex start maximum =
     bestLength (snd (snd (search_groups volume (fBitmap alloc) (fNumGroups alloc) maximum 0
       groupIndex start (fGroups alloc) initial_search)))"

text \<open>Some group holds a free run of \<open>l\<close> bits.\<close>

definition free_run_of :: "Volume \<Rightarrow> BlockAllocator \<Rightarrow> int \<Rightarrow> bool" where
  "free_run_of volume alloc l \<longleftrightarrow>
     (\<exists>j<length (fGroups alloc). \<exists>a.
        free_run_in volume (fBitmap alloc) (fGroups alloc ! j) a l)"

text \<open>The longest free run of the volume has \<open>L\<close> bits.\<close>

definition longest_free_run :: "Volume \<Rightarrow> BlockAllocator \<Rightarrow> int \<Rightarrow> bool" where
  "longest_free_run volume alloc L \<longleftrightarrow>
     free_run_of volume alloc L \<and> (\<forall>l. free_run_of volume alloc l \<longrightarrow> l \<le> L)"

lemma free_run_in_shorter:
  assumes "free_run_in volume bm grp a l" "1 \<le> l'" "l' \<le> l"
  shows "free_run_in volume bm grp a l'"
  using assms by (auto simp: free_run_in_def run_free_def)

lemma AllocateBlocks_best:
  assumes cons: "allocator_consistent volume alloc" and mx: "0 < maximum"
    and gidx: "0 \<le> groupIndex" and start: "0 \<le> start" "start < 65536"
  obtains groups' s' where
    "search_groups volume (fBitmap alloc) (fNumGroups alloc) maximum 0 groupIndex start
       (fGroups alloc) initial_search = (B_OK, groups', s')"
    "groups_inv volume (fBitmap alloc) (fGroups alloc) groups'"
    "best_sound volume (fBitmap alloc) (fGroups alloc) s'"
    "best_found volume alloc groupIndex start maximum = bestLength s'"
    "1 \<le> bestLength s' \<Longrightarrow> free_run_of volume alloc (bestLength s')"
    "\<And>l. free_run_of volume alloc l \<Longrightarrow> l \<le> bestLength s' \<or> maximum \<le> bestLength s'"
proof -
  from AllocateBlocks_search [OF cons mx gidx start] obtain groups' s' where
    res: "search_groups volume (fBitmap alloc) (fNumGroups alloc) maximum 0 groupIndex start
       (fGroups alloc) initial_search = (B_OK, groups', s')"
    and ginv: "groups_inv volume (fBitmap alloc) (fGroups alloc) groups'"
    and bs: "best_sound volume (fBitmap alloc) (fGroups alloc) s'"
    and cov: "\<And>j. bestLength s' < maximum \<Longrightarrow> j < length (fGroups alloc)
       \<Longrightarrow> covered volume (fBitmap alloc) (fGroups alloc ! j) 0 s'"
    by blast
  have bf: "best_found volume alloc groupIndex start maximum = bestLength s'"
    by (simp add: best_found_def res)
  have snd: "free_run_of volume alloc (bestLength s')" if "1 \<le> bestLength s'"
  proof -
    from bs that have "nat (bestGroup s') < length (fGroups alloc)"
      and "free_run_in volume (fBitmap alloc) (fGroups alloc ! nat (bestGroup s'))
             (bestStart s') (bestLength s')"
      by (auto simp: best_sound_def free_run_in_def)
    then show ?thesis unfolding free_run_of_def by blast
  qed
  have cmp: "l \<le> bestLength s' \<or> maximum \<le> bestLength s'" if "free_run_of volume alloc l" for l
  proof (cases "bestLength s' < maximum")
    case True
    from that obtain j a where j: "j < length (fGroups alloc)"
      and fr: "free_run_in volume (fBitmap alloc) (fGroups alloc ! j) a l"
      unfolding free_run_of_def by blast
    from fr have "0 \<le> a" by (simp add: free_run_in_def)
    with cov [OF True j] fr have "l \<le> bestLength s'" unfolding covered_def by blast
    then show ?thesis ..
  next
    case False
    then show ?thesis by simp
  qed
  show ?thesis by (rule that [OF res ginv bs bf snd cmp])
qed

text \<open>
  The reserved prefix of the volume, which \<^verbatim>\<open>BlockAllocator::Free\<close> refuses to free, is
  marked in the bitmap: the groups before the group of the log, and the bits before the
  end of the log in its group.
\<close>

definition reserved_allocated :: "Volume \<Rightarrow> BlockAllocator \<Rightarrow> bool" where
  "reserved_allocated volume alloc \<longleftrightarrow>
     (\<forall>j<length (fGroups alloc). \<forall>p.
        0 \<le> p \<and> p < fNumBits (fGroups alloc ! j)
        \<and> (int j < Log_AllocationGroup volume
           \<or> (int j = Log_AllocationGroup volume
              \<and> p < u32 (u32 (Log_Start volume) + Log_Length volume)))
        \<longrightarrow> group_bit volume (fBitmap alloc) (fGroups alloc ! j) p)"

text \<open>Setting the bits of a free run and clearing them again gives the bitmap back.\<close>

lemma set_then_clear_run:
  assumes bpb: "0 < bitsPerBlock volume"
    and fr: "run_free volume bm grp S len"
    and set: "\<And>B c k. k < 32 \<Longrightarrow>
       (bit (bm1 B c) k \<longleftrightarrow>
          bit (bm B c) k \<or> run_chunk_bit (bitsPerBlock volume) (fStart grp) S len B c k)"
    and clear: "\<And>B c k. k < 32 \<Longrightarrow>
       (bit (bm2 B c) k \<longleftrightarrow>
          bit (bm1 B c) k \<and> \<not> run_chunk_bit (bitsPerBlock volume) (fStart grp) S len B c k)"
  shows "bm2 = (bm :: bitmap)"
proof (intro ext bit_word_eqI)
  fix B c k
  assume "k < LENGTH(32)"
  then have k: "k < 32" by simp
  show "bit (bm2 B c) k \<longleftrightarrow> bit (bm B c) k"
  proof (cases "run_chunk_bit (bitsPerBlock volume) (fStart grp) S len B c k")
    case True
    from run_chunk_bit_group_bit [OF bpb k True, of bm] obtain p where
      "S \<le> p" "p < S + len" "bit (bm B c) k = group_bit volume bm grp p" by blast
    with fr have "\<not> bit (bm B c) k" by (simp add: run_free_def)
    with True show ?thesis by (simp add: clear [OF k])
  next
    case False
    then show ?thesis by (simp add: clear [OF k] set [OF k])
  qed
qed

text \<open>
  The loops of the group operations return whether or not the cache delivers the blocks.
  Allocate only sets bits of the run and free only clears bits of the run; when the
  status is \<^verbatim>\<open>B_OK\<close> every bit of the run has been set or cleared.
\<close>

lemma SetToWritable_fails:
  assumes g: "valid_geometry volume grp"
    and b: "0 \<le> block" "block * bitsPerBlock volume < fNumBits grp"
    and ok: "\<not> cache_ok volume (fStart grp + block)"
  shows "AllocationBlock_SetToWritable volume grp (u16 block) = None"
proof -
  have blk: "block < 8192" by (rule block_index_bound [OF g b])
  have u: "u16 block = block" using b(1) blk by (simp add: u16_id)
  show ?thesis using ok by (simp add: AllocationBlock_SetToWritable_def Let_def u)
qed

lemma Allocate_loop_returns:
  assumes g: "valid_geometry volume grp"
    and rng: "0 \<le> block" "0 \<le> start" "start < bitsPerBlock volume" "0 \<le> len" "len \<le> 65535"
      "len = 0 \<or> block * bitsPerBlock volume + start + len \<le> fNumBits grp"
  shows "\<exists>st bm'. AllocationGroup_Allocate_loop volume grp bm block start len = Some (st, bm')
           \<and> (st = B_OK \<or> st = B_IO_ERROR)
           \<and> (\<forall>B c k. k < 32 \<longrightarrow>
                 (bit (bm B c) k \<longrightarrow> bit (bm' B c) k)
                 \<and> (bit (bm' B c) k \<longrightarrow>
                      bit (bm B c) k
                      \<or> run_chunk_bit (bitsPerBlock volume) (fStart grp)
                           (block * bitsPerBlock volume + start) len B c k)
                 \<and> (st = B_OK \<longrightarrow>
                      run_chunk_bit (bitsPerBlock volume) (fStart grp)
                        (block * bitsPerBlock volume + start) len B c k \<longrightarrow>
                      bit (bm' B c) k))"
  using rng
proof (induction "nat len" arbitrary: bm block start len rule: less_induct)
  case less
  let ?bpb = "bitsPerBlock volume"
  note bpb = bitsPerBlock_bounds [OF g]
  show ?case
  proof (cases "len > 0")
    case False
    with less.prems have "len = 0" by simp
    then show ?thesis
      by (subst AllocationGroup_Allocate_loop.simps) (auto simp: run_chunk_bit_def)
  next
    case True
    with less.prems have fit: "block * ?bpb + start + len \<le> fNumBits grp" by simp
    have blk: "block * ?bpb < fNumBits grp"
      using fit True less.prems by linarith
    show ?thesis
    proof (cases "cache_ok volume (fStart grp + block)")
      case False
      have "AllocationGroup_Allocate_loop volume grp bm block start len = Some (B_IO_ERROR, bm)"
        using True
        by (subst AllocationGroup_Allocate_loop.simps)
           (simp add: SetToWritable_fails [OF g less.prems(1) blk False])
      then show ?thesis by simp
    next
      case cok: True
      define nbits where "nbits = min ?bpb (fNumBits grp - block * ?bpb)"
      have set: "AllocationBlock_SetToWritable volume grp (u16 block)
                   = Some \<lparr>ab_fNumBits = nbits, ab_fBlockNumber = fStart grp + block\<rparr>"
        unfolding nbits_def by (rule SetToWritable_in_group [OF g less.prems(1) blk cok])
      define numBlocks where "numBlocks = (if start + len > ?bpb then ?bpb - start else len)"
      have nb_pos: "0 < numBlocks" "numBlocks \<le> len"
        using True less.prems by (auto simp: numBlocks_def)
      have ulen: "u32 len = len" "u32 (start + len) = start + len"
        using True less.prems bpb by (auto simp: u32_id)
      have nb_code: "(if u32 (start + u32 len) > nbits then u32 (nbits - start) else u32 len)
                       = numBlocks"
      proof (cases "start + len > ?bpb")
        case True
        then have "nbits = ?bpb" using fit by (simp add: nbits_def min_def)
        with True less.prems bpb show ?thesis
          by (simp add: ulen numBlocks_def u32_id)
      next
        case False
        then have "start + len \<le> nbits" using fit by (simp add: nbits_def min_def)
        with False show ?thesis by (simp add: ulen numBlocks_def)
      qed
      have u16nb: "u16 numBlocks = numBlocks"
        using nb_pos less.prems by (simp add: u16_id)
      have blk': "block < 8192" by (rule block_index_bound [OF g less.prems(1) blk])
      have next_block: "u32 (block + 1) = block + 1"
        using less.prems(1) blk' by (simp add: u32_id)
      have next_len: "i32 (len - numBlocks) = len - numBlocks"
        using nb_pos less.prems by (simp add: i32_id)
      define bm1 where "bm1 = bm(fStart grp + block :=
          AllocationBlock_Allocate (bm (fStart grp + block)) (nat start) (nat numBlocks))"
      have unfold: "AllocationGroup_Allocate_loop volume grp bm block start len
          = AllocationGroup_Allocate_loop volume grp bm1 (block + 1) 0 (len - numBlocks)"
        using True
        by (subst AllocationGroup_Allocate_loop.simps)
           (simp only: if_True set option.case AllocationBlock.select_convs Let_def nb_code
              u16nb next_block next_len bm1_def)
      have rest: "len - numBlocks = 0
                    \<or> (block + 1) * ?bpb + 0 + (len - numBlocks) \<le> fNumBits grp"
        using fit less.prems by (auto simp: numBlocks_def algebra_simps)
      have "\<exists>st bm'. AllocationGroup_Allocate_loop volume grp bm1 (block + 1) 0 (len - numBlocks)
                    = Some (st, bm')
             \<and> (st = B_OK \<or> st = B_IO_ERROR)
             \<and> (\<forall>B c k. k < 32 \<longrightarrow>
                   (bit (bm1 B c) k \<longrightarrow> bit (bm' B c) k)
                   \<and> (bit (bm' B c) k \<longrightarrow>
                        bit (bm1 B c) k
                        \<or> run_chunk_bit ?bpb (fStart grp) ((block + 1) * ?bpb + 0)
                             (len - numBlocks) B c k)
                   \<and> (st = B_OK \<longrightarrow>
                        run_chunk_bit ?bpb (fStart grp) ((block + 1) * ?bpb + 0)
                          (len - numBlocks) B c k \<longrightarrow>
                        bit (bm' B c) k))"
        using nb_pos less.prems bpb rest
        by (intro less.hyps) auto
      then obtain st bm' where
        res: "AllocationGroup_Allocate_loop volume grp bm1 (block + 1) 0 (len - numBlocks)
                = Some (st, bm')"
        and st: "st = B_OK \<or> st = B_IO_ERROR"
        and bits: "\<And>B c k. k < 32 \<Longrightarrow>
                   (bit (bm1 B c) k \<longrightarrow> bit (bm' B c) k)
                   \<and> (bit (bm' B c) k \<longrightarrow>
                        bit (bm1 B c) k
                        \<or> run_chunk_bit ?bpb (fStart grp) ((block + 1) * ?bpb + 0)
                             (len - numBlocks) B c k)
                   \<and> (st = B_OK \<longrightarrow>
                        run_chunk_bit ?bpb (fStart grp) ((block + 1) * ?bpb + 0)
                          (len - numBlocks) B c k \<longrightarrow>
                        bit (bm' B c) k)"
        by blast
      have "(bit (bm B c) k \<longrightarrow> bit (bm' B c) k)
            \<and> (bit (bm' B c) k \<longrightarrow>
                 bit (bm B c) k
                 \<or> run_chunk_bit ?bpb (fStart grp) (block * ?bpb + start) len B c k)
            \<and> (st = B_OK \<longrightarrow>
                 run_chunk_bit ?bpb (fStart grp) (block * ?bpb + start) len B c k \<longrightarrow>
                 bit (bm' B c) k)"
        if k: "k < 32" for B c k
      proof -
        have one: "bit (bm1 B c) k \<longleftrightarrow> bit (bm B c) k
             \<or> (B = fStart grp + block \<and> nat start \<le> c * 32 + k
                 \<and> c * 32 + k < nat start + nat numBlocks)"
          using k by (auto simp: bm1_def AllocationBlock_Allocate_bits)
        have "0 < ?bpb" using bpb by simp
        from run_chunk_step [OF this less.prems(1,2,3) True numBlocks_def, of B "fStart grp" c k]
        show ?thesis
          using bits [OF k] one by blast
      qed
      with res st unfold show ?thesis by simp
    qed
  qed
qed

lemma Free_loop_returns:
  assumes g: "valid_geometry volume grp"
    and rng: "0 \<le> block" "0 \<le> start" "start < bitsPerBlock volume" "0 \<le> len" "len \<le> 65535"
      "len = 0 \<or> block * bitsPerBlock volume + start + len \<le> fNumBits grp"
  shows "\<exists>st bm'. AllocationGroup_Free_loop volume grp bm block start len = Some (st, bm')
           \<and> (st = B_OK \<or> st = B_IO_ERROR)
           \<and> (\<forall>B c k. k < 32 \<longrightarrow>
                 (bit (bm' B c) k \<longrightarrow> bit (bm B c) k)
                 \<and> (bit (bm B c) k \<longrightarrow>
                      bit (bm' B c) k
                      \<or> run_chunk_bit (bitsPerBlock volume) (fStart grp)
                           (block * bitsPerBlock volume + start) len B c k)
                 \<and> (st = B_OK \<longrightarrow>
                      run_chunk_bit (bitsPerBlock volume) (fStart grp)
                        (block * bitsPerBlock volume + start) len B c k \<longrightarrow>
                      \<not> bit (bm' B c) k))"
  using rng
proof (induction "nat len" arbitrary: bm block start len rule: less_induct)
  case less
  let ?bpb = "bitsPerBlock volume"
  note bpb = bitsPerBlock_bounds [OF g]
  show ?case
  proof (cases "len > 0")
    case False
    with less.prems have "len = 0" by simp
    then show ?thesis
      by (subst AllocationGroup_Free_loop.simps) (auto simp: run_chunk_bit_def)
  next
    case True
    with less.prems have fit: "block * ?bpb + start + len \<le> fNumBits grp" by simp
    have blk: "block * ?bpb < fNumBits grp"
      using fit True less.prems by linarith
    show ?thesis
    proof (cases "cache_ok volume (fStart grp + block)")
      case False
      have "AllocationGroup_Free_loop volume grp bm block start len = Some (B_IO_ERROR, bm)"
        using True
        by (subst AllocationGroup_Free_loop.simps)
           (simp add: SetToWritable_fails [OF g less.prems(1) blk False])
      then show ?thesis by simp
    next
      case cok: True
      define nbits where "nbits = min ?bpb (fNumBits grp - block * ?bpb)"
      have set: "AllocationBlock_SetToWritable volume grp (u16 block)
                   = Some \<lparr>ab_fNumBits = nbits, ab_fBlockNumber = fStart grp + block\<rparr>"
        unfolding nbits_def by (rule SetToWritable_in_group [OF g less.prems(1) blk cok])
      define numBlocks where "numBlocks = (if start + len > ?bpb then ?bpb - start else len)"
      have nb_pos: "0 < numBlocks" "numBlocks \<le> len"
        using True less.prems by (auto simp: numBlocks_def)
      have ulen: "u32 len = len" "u32 (start + len) = start + len"
        using True less.prems bpb by (auto simp: u32_id)
      have nb_code: "(if u32 (start + len) > nbits then u16 (nbits - start) else u16 len)
                       = numBlocks"
      proof (cases "start + len > ?bpb")
        case True
        then have "nbits = ?bpb" using fit by (simp add: nbits_def min_def)
        with True less.prems bpb show ?thesis
          by (simp add: ulen numBlocks_def u16_id)
      next
        case False
        then have "start + len \<le> nbits" using fit by (simp add: nbits_def min_def)
        with False \<open>0 < len\<close> less.prems show ?thesis by (simp add: ulen numBlocks_def u16_id)
      qed
      have blk': "block < 8192" by (rule block_index_bound [OF g less.prems(1) blk])
      have next_block: "u32 (block + 1) = block + 1"
        using less.prems(1) blk' by (simp add: u32_id)
      define bm1 where "bm1 = bm(fStart grp + block :=
          AllocationBlock_Free (bm (fStart grp + block)) (nat start) (nat numBlocks))"
      have unfold: "AllocationGroup_Free_loop volume grp bm block start len
          = AllocationGroup_Free_loop volume grp bm1 (block + 1) 0 (len - numBlocks)"
        using True
        by (subst AllocationGroup_Free_loop.simps)
           (simp only: if_True set option.case AllocationBlock.select_convs Let_def nb_code
              next_block bm1_def)
      have rest: "len - numBlocks = 0
                    \<or> (block + 1) * ?bpb + 0 + (len - numBlocks) \<le> fNumBits grp"
        using fit less.prems by (auto simp: numBlocks_def algebra_simps)
      have "\<exists>st bm'. AllocationGroup_Free_loop volume grp bm1 (block + 1) 0 (len - numBlocks)
                    = Some (st, bm')
             \<and> (st = B_OK \<or> st = B_IO_ERROR)
             \<and> (\<forall>B c k. k < 32 \<longrightarrow>
                   (bit (bm' B c) k \<longrightarrow> bit (bm1 B c) k)
                   \<and> (bit (bm1 B c) k \<longrightarrow>
                        bit (bm' B c) k
                        \<or> run_chunk_bit ?bpb (fStart grp) ((block + 1) * ?bpb + 0)
                             (len - numBlocks) B c k)
                   \<and> (st = B_OK \<longrightarrow>
                        run_chunk_bit ?bpb (fStart grp) ((block + 1) * ?bpb + 0)
                          (len - numBlocks) B c k \<longrightarrow>
                        \<not> bit (bm' B c) k))"
        using nb_pos less.prems bpb rest
        by (intro less.hyps) auto
      then obtain st bm' where
        res: "AllocationGroup_Free_loop volume grp bm1 (block + 1) 0 (len - numBlocks)
                = Some (st, bm')"
        and st: "st = B_OK \<or> st = B_IO_ERROR"
        and bits: "\<And>B c k. k < 32 \<Longrightarrow>
                   (bit (bm' B c) k \<longrightarrow> bit (bm1 B c) k)
                   \<and> (bit (bm1 B c) k \<longrightarrow>
                        bit (bm' B c) k
                        \<or> run_chunk_bit ?bpb (fStart grp) ((block + 1) * ?bpb + 0)
                             (len - numBlocks) B c k)
                   \<and> (st = B_OK \<longrightarrow>
                        run_chunk_bit ?bpb (fStart grp) ((block + 1) * ?bpb + 0)
                          (len - numBlocks) B c k \<longrightarrow>
                        \<not> bit (bm' B c) k)"
        by blast
      have "(bit (bm' B c) k \<longrightarrow> bit (bm B c) k)
            \<and> (bit (bm B c) k \<longrightarrow>
                 bit (bm' B c) k
                 \<or> run_chunk_bit ?bpb (fStart grp) (block * ?bpb + start) len B c k)
            \<and> (st = B_OK \<longrightarrow>
                 run_chunk_bit ?bpb (fStart grp) (block * ?bpb + start) len B c k \<longrightarrow>
                 \<not> bit (bm' B c) k)"
        if k: "k < 32" for B c k
      proof -
        have one: "bit (bm1 B c) k \<longleftrightarrow> bit (bm B c) k
             \<and> \<not> (B = fStart grp + block \<and> nat start \<le> c * 32 + k
                 \<and> c * 32 + k < nat start + nat numBlocks)"
          using k by (auto simp: bm1_def AllocationBlock_Free_bits)
        have "0 < ?bpb" using bpb by simp
        from run_chunk_step [OF this less.prems(1,2,3) True numBlocks_def, of B "fStart grp" c k]
        show ?thesis
          using bits [OF k] one by blast
      qed
      with res st unfold show ?thesis by simp
    qed
  qed
qed

lemma AllocationGroup_Allocate_returns:
  assumes g: "valid_geometry volume grp"
    and rng: "0 \<le> start" "start < 65536" "0 \<le> len" "len \<le> 65535"
      "start + len \<le> fNumBits grp"
  obtains st bm' where
    "AllocationGroup_Allocate volume grp bm start len
       = Some (st, (if st = B_OK then Allocate_hints grp start len
                    else (Allocate_hints grp start len)\<lparr>fLargestValid := False\<rparr>), bm')"
    "st = B_OK \<or> st = B_IO_ERROR"
    "group_readable volume grp \<Longrightarrow> st = B_OK"
    "\<And>p grp'. 0 \<le> p \<Longrightarrow> fStart grp' = fStart grp \<Longrightarrow>
       (group_bit volume bm grp' p \<longrightarrow> group_bit volume bm' grp' p)
       \<and> (group_bit volume bm' grp' p \<longrightarrow>
            group_bit volume bm grp' p \<or> (start \<le> p \<and> p < start + len))
       \<and> (st = B_OK \<longrightarrow> start \<le> p \<and> p < start + len \<longrightarrow> group_bit volume bm' grp' p)"
proof -
  let ?g = "Allocate_hints grp start len"
  let ?bpb = "bitsPerBlock volume"
  have g': "valid_geometry volume ?g"
    using g by (simp add: valid_geometry_def)
  note sp = start_split [OF g rng(1,2)]
  have "len = 0 \<or> start div ?bpb * ?bpb + start mod ?bpb + len \<le> fNumBits ?g"
    using rng sp(5) by simp
  from Allocate_loop_returns [OF g' sp(1) sp(3) sp(4) rng(3,4) this, of bm]
  obtain st bm' where
    res: "AllocationGroup_Allocate_loop volume ?g bm (start div ?bpb) (start mod ?bpb) len
            = Some (st, bm')"
    and st: "st = B_OK \<or> st = B_IO_ERROR"
    and bits: "\<And>B c k. k < 32 \<Longrightarrow>
                 (bit (bm B c) k \<longrightarrow> bit (bm' B c) k)
                 \<and> (bit (bm' B c) k \<longrightarrow>
                      bit (bm B c) k \<or> run_chunk_bit ?bpb (fStart grp) start len B c k)
                 \<and> (st = B_OK \<longrightarrow>
                      run_chunk_bit ?bpb (fStart grp) start len B c k \<longrightarrow> bit (bm' B c) k)"
    unfolding sp(5) hints_geometry by blast
  have r: "AllocationGroup_Allocate volume grp bm start len
       = Some (st, (if st = B_OK then ?g else ?g\<lparr>fLargestValid := False\<rparr>), bm')"
    unfolding AllocationGroup_Allocate_def Let_def bitsPerBlock_def [symmetric] sp(2) res
    by simp
  have rd: "st = B_OK" if "group_readable volume grp"
    using AllocationGroup_Allocate_spec [OF g that rng, of bm] r by auto
  have bpb: "0 < ?bpb" using bitsPerBlock_bounds(2) [OF g] by simp
  have gb: "(group_bit volume bm grp' p \<longrightarrow> group_bit volume bm' grp' p)
       \<and> (group_bit volume bm' grp' p \<longrightarrow>
            group_bit volume bm grp' p \<or> (start \<le> p \<and> p < start + len))
       \<and> (st = B_OK \<longrightarrow> start \<le> p \<and> p < start + len \<longrightarrow> group_bit volume bm' grp' p)"
    if "0 \<le> p" "fStart grp' = fStart grp" for p grp'
    unfolding group_bit_chunk that(2)
    using bits [of "nat (p mod ?bpb) mod 32" "fStart grp + p div ?bpb" "nat (p mod ?bpb) div 32"]
    by (simp add: run_chunk_bit_position [OF bpb that(1)])
  show ?thesis by (rule that [OF r st rd gb])
qed

lemma AllocationGroup_Free_returns:
  assumes g: "valid_geometry volume grp"
    and rng: "0 \<le> start" "start < 65536" "0 \<le> len" "len \<le> 65535"
      "start + len \<le> fNumBits grp"
  obtains st bm' where
    "AllocationGroup_Free volume grp bm start len = Some (st, Free_hints grp start len, bm')"
    "st = B_OK \<or> st = B_IO_ERROR"
    "group_readable volume grp \<Longrightarrow> st = B_OK"
    "\<And>p grp'. 0 \<le> p \<Longrightarrow> fStart grp' = fStart grp \<Longrightarrow>
       (group_bit volume bm' grp' p \<longrightarrow> group_bit volume bm grp' p)
       \<and> (group_bit volume bm grp' p \<longrightarrow>
            group_bit volume bm' grp' p \<or> (start \<le> p \<and> p < start + len))
       \<and> (st = B_OK \<longrightarrow> start \<le> p \<and> p < start + len \<longrightarrow> \<not> group_bit volume bm' grp' p)"
proof -
  let ?g = "Free_hints grp start len"
  let ?bpb = "bitsPerBlock volume"
  have g': "valid_geometry volume ?g"
    using g by (simp add: valid_geometry_def)
  note sp = start_split [OF g rng(1,2)]
  have "len = 0 \<or> start div ?bpb * ?bpb + start mod ?bpb + len \<le> fNumBits ?g"
    using rng sp(5) by simp
  from Free_loop_returns [OF g' sp(1) sp(3) sp(4) rng(3,4) this, of bm]
  obtain st bm' where
    res: "AllocationGroup_Free_loop volume ?g bm (start div ?bpb) (start mod ?bpb) len
            = Some (st, bm')"
    and st: "st = B_OK \<or> st = B_IO_ERROR"
    and bits: "\<And>B c k. k < 32 \<Longrightarrow>
                 (bit (bm' B c) k \<longrightarrow> bit (bm B c) k)
                 \<and> (bit (bm B c) k \<longrightarrow>
                      bit (bm' B c) k \<or> run_chunk_bit ?bpb (fStart grp) start len B c k)
                 \<and> (st = B_OK \<longrightarrow>
                      run_chunk_bit ?bpb (fStart grp) start len B c k \<longrightarrow> \<not> bit (bm' B c) k)"
    unfolding sp(5) hints_geometry by blast
  have r: "AllocationGroup_Free volume grp bm start len = Some (st, ?g, bm')"
    unfolding AllocationGroup_Free_def Let_def bitsPerBlock_def [symmetric] sp(2) res
    by simp
  have rd: "st = B_OK" if "group_readable volume grp"
    using AllocationGroup_Free_spec [OF g that rng, of bm] r by auto
  have bpb: "0 < ?bpb" using bitsPerBlock_bounds(2) [OF g] by simp
  have gb: "(group_bit volume bm' grp' p \<longrightarrow> group_bit volume bm grp' p)
       \<and> (group_bit volume bm grp' p \<longrightarrow>
            group_bit volume bm' grp' p \<or> (start \<le> p \<and> p < start + len))
       \<and> (st = B_OK \<longrightarrow> start \<le> p \<and> p < start + len \<longrightarrow> \<not> group_bit volume bm' grp' p)"
    if "0 \<le> p" "fStart grp' = fStart grp" for p grp'
    unfolding group_bit_chunk that(2)
    using bits [of "nat (p mod ?bpb) mod 32" "fStart grp + p div ?bpb" "nat (p mod ?bpb) div 32"]
    by (simp add: run_chunk_bit_position [OF bpb that(1)])
  show ?thesis by (rule that [OF r st rd gb])
qed

section \<open>The scan of the bitmap at mount time\<close>

text \<open>
  \<^verbatim>\<open>BlockAllocator::_Initialize\<close> reads the bitmap blocks of each group from the device and
  scans them for free ranges. \<open>Mount\<close> holds what the function reads from the volume, the
  allocator and the device: \<^verbatim>\<open>volume->NumBlocks()\<close>, \<^verbatim>\<open>volume->BlockShift()\<close> and
  \<^verbatim>\<open>allocator->fBlocksPerGroup\<close> (the last two are \<^verbatim>\<open>uint32\<close> values), and at which block
  offsets \<^verbatim>\<open>read_pos\<close> delivers the blocks; a read that returns an error ends the scan, a
  read that delivers fewer bytes than asked for is not modelled. The device holds the
  block bitmap: the buffer that \<^verbatim>\<open>read_pos\<close> fills at block \<open>offset\<close> is the sequence of the
  32-bit chunks of the bitmap blocks \<open>offset\<close>, \<open>offset + 1\<close>, ... The source reads
  \<open>fBlocksPerGroup\<close> blocks of \<open>2 ^ BlockShift\<close> bytes; the scan of a group whose bits lie
  in these blocks reads no chunk behind them.
\<close>

record Mount =
  NumBlocks :: int
  BlockShift :: int
  fBlocksPerGroup :: int
  read_ok :: "int \<Rightarrow> bool"

definition read_buffer :: "Volume \<Rightarrow> bitmap \<Rightarrow> int \<Rightarrow> nat \<Rightarrow> 32 word" where
  "read_buffer volume bm offset k =
     bm (offset + int k div (BlockSize volume div 4)) (nat (int k mod (BlockSize volume div 4)))"

text \<open>
  The local variables of the scan of one group: the group, the start and the length of
  the free range that is being read, and the number of the current bit.
\<close>

record scan_state =
  sc_group :: AllocationGroup
  sc_start :: int
  sc_range :: int
  sc_bit :: int

text \<open>The inner loop, over the bits \<open>j\<close> of one chunk of the buffer.\<close>

function Initialize_bits :: "32 word \<Rightarrow> int \<Rightarrow> nat \<Rightarrow> scan_state \<Rightarrow> scan_state" where
  "Initialize_bits chunk numBits j s =
     (if j < 32 \<and> sc_bit s < numBits
      then Initialize_bits chunk numBits (j + 1)
             (let s1 = (if chunk AND push_bit j 1 \<noteq> 0
                        then (if sc_range s > 0
                              then s\<lparr>sc_group := AllocationGroup_AddFreeRange (sc_group s)
                                                    (sc_start s) (sc_range s),
                                     sc_range := 0\<rparr>
                              else s)
                        else (let s0 = (if sc_range s = 0 then s\<lparr>sc_start := sc_bit s\<rparr> else s)
                              in s0\<lparr>sc_range := sc_range s0 + 1\<rparr>))
              in s1\<lparr>sc_bit := sc_bit s1 + 1\<rparr>)
      else s)"
  by pat_completeness auto
termination
  by (relation "measure (\<lambda>(chunk, numBits, j, s). 32 - j)") auto

text \<open>The outer loop, over the chunks \<open>k\<close> of the buffer.\<close>

function Initialize_chunks ::
  "(nat \<Rightarrow> 32 word) \<Rightarrow> int \<Rightarrow> int \<Rightarrow> int \<Rightarrow> scan_state \<Rightarrow> scan_state" where
  "Initialize_chunks buffer numBits count k s =
     (if k < count
      then Initialize_chunks buffer numBits count (k + 1)
             (Initialize_bits (buffer (nat k)) numBits 0 s)
      else s)"
  by pat_completeness auto
termination
  by (relation "measure (\<lambda>(buffer, numBits, count, k, s). nat (count - k))") auto

declare Initialize_bits.simps [simp del] Initialize_chunks.simps [simp del]

text \<open>
  The body of the loop over the groups, for group \<open>i\<close> whose bitmap starts at block
  \<open>offset\<close>, once its blocks have been read. \<open>Initialize_size\<close> is the assignment of the
  size and the position of the group; the last group may be shorter than the others.
  \<open>Initialize_group\<close> is the whole body: the size, the scan, and the free range that is
  open at the end of the scan. The division by 32 is the one of C, on \<^verbatim>\<open>int32\<close> values.
\<close>

definition Initialize_size :: "Mount \<Rightarrow> int \<Rightarrow> int \<Rightarrow> int \<Rightarrow> AllocationGroup \<Rightarrow> AllocationGroup" where
  "Initialize_size mount numGroups i offset grp =
     (let blocks = fBlocksPerGroup mount;
          blockShift = BlockShift mount;
          bitsPerGroup = u32 (8 * u32 (blocks * 2 ^ nat blockShift));
          g1 = (if i = numGroups - 1
                then (let g = grp\<lparr>fNumBits := u32 (NumBlocks mount - u32 (i * bitsPerGroup))\<rparr>
                      in g\<lparr>fNumBitmapBlocks :=
                            u32 (1 + u32 (fNumBits g - 1) div 2 ^ nat (blockShift + 3))\<rparr>)
                else grp\<lparr>fNumBits := bitsPerGroup, fNumBitmapBlocks := blocks\<rparr>)
      in g1\<lparr>fStart := i32 offset\<rparr>)"

definition Initialize_group ::
  "Volume \<Rightarrow> Mount \<Rightarrow> bitmap \<Rightarrow> int \<Rightarrow> int \<Rightarrow> int \<Rightarrow> AllocationGroup \<Rightarrow> AllocationGroup" where
  "Initialize_group volume mount bm numGroups i offset grp =
     (let g = Initialize_size mount numGroups i offset grp;
          numBits = i32 (fNumBits g);
          count = (if numBits + 31 < 0 then - ((- (numBits + 31)) div 32)
                   else (numBits + 31) div 32);
          s = Initialize_chunks (read_buffer volume bm offset) numBits count 0
                \<lparr>sc_group = g, sc_start = - 1, sc_range = 0, sc_bit = 0\<rparr>
      in if sc_range s \<noteq> 0
         then AllocationGroup_AddFreeRange (sc_group s) (sc_start s) (sc_range s)
         else sc_group s)"

text \<open>
  The loop over the groups. It stops at the first group whose blocks cannot be read and
  leaves this group and the following ones as they were. The result is the groups and
  the sum \<open>freeBlocks\<close> of their free bits.
\<close>

function Initialize_groups ::
  "Volume \<Rightarrow> Mount \<Rightarrow> bitmap \<Rightarrow> int \<Rightarrow> int \<Rightarrow> int \<Rightarrow> int \<Rightarrow> AllocationGroup list
     \<Rightarrow> AllocationGroup list \<times> int" where
  "Initialize_groups volume mount bm numGroups i offset freeBlocks groups =
     (if i < numGroups
      then (if \<not> read_ok mount offset then (groups, freeBlocks)
            else (let g = Initialize_group volume mount bm numGroups i offset (groups ! nat i)
                  in Initialize_groups volume mount bm numGroups (i + 1)
                       (offset + fBlocksPerGroup mount) (freeBlocks + fFreeBits g)
                       (groups[nat i := g])))
      else (groups, freeBlocks))"
  by pat_completeness auto
termination
  by (relation "measure (\<lambda>(volume, mount, bm, numGroups, i, offset, freeBlocks, groups).
        nat (numGroups - i))") auto

declare Initialize_groups.simps [simp del]

subsection \<open>The scan counts the unset bits\<close>

lemma AddFreeRange_fields [simp]:
  "fNumBits (AllocationGroup_AddFreeRange grp start blocks) = fNumBits grp"
  "fNumBitmapBlocks (AllocationGroup_AddFreeRange grp start blocks) = fNumBitmapBlocks grp"
  "fStart (AllocationGroup_AddFreeRange grp start blocks) = fStart grp"
  "fFreeBits (AllocationGroup_AddFreeRange grp start blocks) = fFreeBits grp + blocks"
  by (simp_all add: AllocationGroup_AddFreeRange_def Let_def)

text \<open>Bit \<open>j\<close> of chunk \<open>k\<close> of the buffer of a group is bit \<open>32 k + j\<close> of the group.\<close>

lemma read_buffer_bit:
  assumes bs: "0 < BlockSize volume" "BlockSize volume \<le> 8192" "4 dvd BlockSize volume"
    and j: "j < 32"
  shows "bit (read_buffer volume bm (fStart grp) k) j
           \<longleftrightarrow> group_bit volume bm grp (32 * int k + int j)"
proof -
  from bs(3) obtain m where m: "BlockSize volume = 4 * m" by (auto simp: dvd_def)
  with bs have m0: "0 < m" by simp
  have bpb: "bitsPerBlock volume = 32 * m"
    using bs m by (simp add: bitsPerBlock_def u32_id)
  let ?p = "32 * int k + int j"
  have d32: "?p div 32 = int k" using j by simp
  have m32: "?p mod 32 = int j" using j by simp
  have "?p div (32 * m) = ?p div 32 div m"
    using m0 by (intro zdiv_zmult2_eq) simp
  then have pd: "?p div (32 * m) = int k div m" by (simp only: d32)
  have "?p mod (32 * m) = 32 * (?p div 32 mod m) + ?p mod 32"
    using m0 by (intro zmod_zmult2_eq) simp
  then have pm: "?p mod (32 * m) = 32 * (int k mod m) + int j" by (simp only: d32 m32)
  have km: "0 \<le> int k mod m" using m0 by simp
  have n1: "nat (32 * (int k mod m) + int j) div 32 = nat (int k mod m)"
    using km j by (simp add: nat_add_distrib nat_mult_distrib)
  have n2: "nat (32 * (int k mod m) + int j) mod 32 = j"
    using km j by (simp add: nat_add_distrib nat_mult_distrib)
  show ?thesis
    unfolding group_bit_chunk bpb pd pm n1 n2 read_buffer_def m by simp
qed

text \<open>
  The invariant of the scan of the group \<open>g0\<close>: the free bits of the group and the
  length of the open range add up to the number of unset bits before the current bit.
\<close>

definition count_inv :: "Volume \<Rightarrow> bitmap \<Rightarrow> AllocationGroup \<Rightarrow> scan_state \<Rightarrow> bool" where
  "count_inv volume bm g0 s \<longleftrightarrow>
     fNumBits (sc_group s) = fNumBits g0 \<and> fStart (sc_group s) = fStart g0
     \<and> fNumBitmapBlocks (sc_group s) = fNumBitmapBlocks g0
     \<and> 0 \<le> sc_range s \<and> 0 \<le> sc_bit s
     \<and> fFreeBits (sc_group s) + sc_range s
         = int (card {p \<in> {0..<sc_bit s}. \<not> group_bit volume bm g0 p})"

lemma card_unset_step:
  fixes b :: int
  assumes "0 \<le> b"
  shows "int (card {p \<in> {0..<b + 1}. \<not> P p})
           = int (card {p \<in> {0..<b}. \<not> P p}) + (if P b then 0 else 1)"
proof -
  have fin: "finite {p \<in> {0..<b}. \<not> P p}"
    by (rule finite_subset [of _ "{0..<b}"]) auto
  show ?thesis
  proof (cases "P b")
    case True
    then have "{p \<in> {0..<b + 1}. \<not> P p} = {p \<in> {0..<b}. \<not> P p}"
      by (auto simp: less_le)
    with True show ?thesis by simp
  next
    case False
    then have "{p \<in> {0..<b + 1}. \<not> P p} = insert b {p \<in> {0..<b}. \<not> P p}"
      using assms by auto
    moreover have "b \<notin> {p \<in> {0..<b}. \<not> P p}" by simp
    ultimately show ?thesis using False fin by simp
  qed
qed

lemma Initialize_bits_count:
  assumes bs: "0 < BlockSize volume" "BlockSize volume \<le> 8192" "4 dvd BlockSize volume"
    and inv: "count_inv volume bm g0 s"
    and pos: "sc_bit s = 32 * int k + int j" "j \<le> 32"
  shows "count_inv volume bm g0
           (Initialize_bits (read_buffer volume bm (fStart g0) k) numBits j s)
         \<and> sc_bit (Initialize_bits (read_buffer volume bm (fStart g0) k) numBits j s)
             = (if 32 * int k + int j < numBits then min (32 * int k + 32) numBits
                else 32 * int k + int j)"
  using inv pos
proof (induction "32 - j" arbitrary: j s rule: less_induct)
  case less
  let ?chunk = "read_buffer volume bm (fStart g0) k"
  show ?case
  proof (cases "j < 32 \<and> sc_bit s < numBits")
    case False
    then have "Initialize_bits ?chunk numBits j s = s"
      by (subst Initialize_bits.simps) auto
    with False less.prems show ?thesis by (auto simp: min_def)
  next
    case True
    let ?b = "sc_bit s"
    define s1 where "s1 = (if ?chunk AND push_bit j 1 \<noteq> 0
                        then (if sc_range s > 0
                              then s\<lparr>sc_group := AllocationGroup_AddFreeRange (sc_group s)
                                                    (sc_start s) (sc_range s),
                                     sc_range := 0\<rparr>
                              else s)
                        else (let s0 = (if sc_range s = 0 then s\<lparr>sc_start := sc_bit s\<rparr> else s)
                              in s0\<lparr>sc_range := sc_range s0 + 1\<rparr>))"
    define s2 where "s2 = s1\<lparr>sc_bit := sc_bit s1 + 1\<rparr>"
    have unfold: "Initialize_bits ?chunk numBits j s = Initialize_bits ?chunk numBits (j + 1) s2"
      using True by (subst Initialize_bits.simps) (simp add: s1_def s2_def Let_def)
    have used: "?chunk AND push_bit j 1 \<noteq> 0 \<longleftrightarrow> group_bit volume bm g0 ?b"
      unfolding and_one_shifted less.prems(2)
      using True by (intro read_buffer_bit [OF bs]) simp
    from less.prems(1) have b0: "0 \<le> ?b" by (simp add: count_inv_def)
    have bit2: "sc_bit s2 = ?b + 1" by (simp add: s2_def s1_def Let_def)
    have inv2: "count_inv volume bm g0 s2"
      using less.prems(1) card_unset_step [OF b0, of "group_bit volume bm g0"]
      unfolding count_inv_def bit2
      by (auto simp: s2_def s1_def used [unfolded push_bit_of_1] Let_def)
    have pos2: "sc_bit s2 = 32 * int k + int (j + 1)" "j + 1 \<le> 32"
      using True less.prems(2) by (simp_all add: bit2)
    have "32 - (j + 1) < 32 - j" using True by linarith
    from less.hyps [OF this inv2 pos2] True less.prems(2)
    show ?thesis unfolding unfold by (auto simp: min_def)
  qed
qed

lemma Initialize_chunks_count:
  assumes bs: "0 < BlockSize volume" "BlockSize volume \<le> 8192" "4 dvd BlockSize volume"
    and inv: "count_inv volume bm g0 s"
    and pos: "0 \<le> k" "sc_bit s = min (32 * k) numBits" "0 \<le> numBits"
  shows "count_inv volume bm g0
           (Initialize_chunks (read_buffer volume bm (fStart g0)) numBits count k s)
         \<and> sc_bit (Initialize_chunks (read_buffer volume bm (fStart g0)) numBits count k s)
             = (if k < count then min (32 * count) numBits else min (32 * k) numBits)"
  using inv pos
proof (induction "nat (count - k)" arbitrary: k s rule: less_induct)
  case less
  let ?buf = "read_buffer volume bm (fStart g0)"
  show ?case
  proof (cases "k < count")
    case False
    then have "Initialize_chunks ?buf numBits count k s = s"
      by (subst Initialize_chunks.simps) auto
    with False less.prems show ?thesis by simp
  next
    case True
    define s1 where "s1 = Initialize_bits (?buf (nat k)) numBits 0 s"
    have unfold: "Initialize_chunks ?buf numBits count k s
                    = Initialize_chunks ?buf numBits count (k + 1) s1"
      using True by (subst Initialize_chunks.simps) (simp add: s1_def)
    have s1: "count_inv volume bm g0 s1 \<and> sc_bit s1 = min (32 * (k + 1)) numBits"
    proof (cases "32 * k < numBits")
      case lt: True
      then have "sc_bit s = 32 * int (nat k) + int 0" using less.prems by simp
      from Initialize_bits_count [OF bs less.prems(1) this, of numBits] lt less.prems(2)
      show ?thesis by (simp add: s1_def algebra_simps)
    next
      case ge: False
      then have e: "sc_bit s = numBits" using less.prems by simp
      then have "Initialize_bits (?buf (nat k)) numBits 0 s = s"
        by (subst Initialize_bits.simps) auto
      with ge e less.prems show ?thesis by (simp add: s1_def min_def)
    qed
    have "nat (count - (k + 1)) < nat (count - k)" using True by simp
    from less.hyps [OF this, of s1] s1 less.prems(2,4) True
    show ?thesis unfolding unfold by (auto simp: min_def)
  qed
qed


lemma Initialize_size_fields [simp]:
  "fStart (Initialize_size mount numGroups i offset grp) = i32 offset"
  "fFirstFree (Initialize_size mount numGroups i offset grp) = fFirstFree grp"
  "fFreeBits (Initialize_size mount numGroups i offset grp) = fFreeBits grp"
  "fLargestValid (Initialize_size mount numGroups i offset grp) = fLargestValid grp"
  by (simp_all add: Initialize_size_def Let_def)

text \<open>
  After the scan of a group that was constructed with no free bits, the free bits of the
  group are the unset bits of its region of the bitmap.
\<close>

lemma Initialize_group_count:
  assumes bs: "0 < BlockSize volume" "BlockSize volume \<le> 8192" "4 dvd BlockSize volume"
    and con: "fFreeBits grp = 0"
    and nb: "fNumBits (Initialize_size mount numGroups i offset grp) < 2147483648"
      "0 \<le> fNumBits (Initialize_size mount numGroups i offset grp)"
    and off: "i32 offset = offset"
  shows "fNumBits (Initialize_group volume mount bm numGroups i offset grp)
           = fNumBits (Initialize_size mount numGroups i offset grp)"
    and "fNumBitmapBlocks (Initialize_group volume mount bm numGroups i offset grp)
           = fNumBitmapBlocks (Initialize_size mount numGroups i offset grp)"
    and "fStart (Initialize_group volume mount bm numGroups i offset grp) = offset"
    and "fFreeBits (Initialize_group volume mount bm numGroups i offset grp)
           = free_bit_count volume bm (Initialize_group volume mount bm numGroups i offset grp)"
proof -
  let ?g = "Initialize_size mount numGroups i offset grp"
  let ?N = "fNumBits ?g"
  let ?count = "(?N + 31) div 32"
  let ?s0 = "\<lparr>sc_group = ?g, sc_start = - 1, sc_range = 0, sc_bit = 0\<rparr>"
  define s where "s = Initialize_chunks (read_buffer volume bm offset) ?N ?count 0 ?s0"
  let ?G = "Initialize_group volume mount bm numGroups i offset grp"
  have N: "i32 ?N = ?N" using nb by (simp add: i32_id)
  have G: "?G = (if sc_range s \<noteq> 0
                 then AllocationGroup_AddFreeRange (sc_group s) (sc_start s) (sc_range s)
                 else sc_group s)"
    using nb(2) by (simp add: Initialize_group_def Let_def N s_def)
  have st: "fStart ?g = offset" by (simp add: off)
  have inv0: "count_inv volume bm ?g ?s0" by (simp add: count_inv_def con)
  from Initialize_chunks_count [OF bs inv0, of 0 ?N ?count] nb(2)
  have inv: "count_inv volume bm ?g s"
    and bit: "sc_bit s = (if 0 < ?count then min (32 * ?count) ?N else 0)"
    by (simp_all add: s_def off)
  have "sc_bit s = ?N"
  proof (cases "0 < ?count")
    case True
    have "?N \<le> 32 * ?count" by linarith
    with True bit show ?thesis by simp
  next
    case False
    then have "?N = 0" using nb(2) by linarith
    with False bit show ?thesis by simp
  qed
  with inv have fields: "fNumBits (sc_group s) = ?N" "fStart (sc_group s) = offset"
      "fNumBitmapBlocks (sc_group s) = fNumBitmapBlocks ?g"
    and cnt: "fFreeBits (sc_group s) + sc_range s
                = int (card {p \<in> {0..<?N}. \<not> group_bit volume bm ?g p})"
    by (simp_all add: count_inv_def off)
  show n: "fNumBits ?G = ?N" and "fNumBitmapBlocks ?G = fNumBitmapBlocks ?g"
    and s: "fStart ?G = offset"
    using fields by (simp_all add: G)
  have "fFreeBits ?G = free_bit_count volume bm ?g"
    using cnt by (simp add: G free_bit_count_def)
  also have "\<dots> = free_bit_count volume bm ?G"
    by (rule free_bit_count_cong [symmetric]) (simp_all add: n s off)
  finally show "fFreeBits ?G = free_bit_count volume bm ?G" .
qed

text \<open>The loop over the groups gives every group whose blocks were read its scan.\<close>

lemma Initialize_groups_length:
  "length (fst (Initialize_groups volume mount bm numGroups i offset fb groups)) = length groups"
proof (induction volume mount bm numGroups i offset fb groups rule: Initialize_groups.induct)
  case (1 volume mount bm numGroups i offset freeBlocks groups)
  then show ?case
    by (subst Initialize_groups.simps) (simp add: Let_def)
qed

lemma Initialize_groups_before:
  "j < nat i \<Longrightarrow> 0 \<le> i \<Longrightarrow>
   fst (Initialize_groups volume mount bm numGroups i offset fb groups) ! j = groups ! j"
proof (induction volume mount bm numGroups i offset fb groups rule: Initialize_groups.induct)
  case (1 volume mount bm numGroups i offset freeBlocks groups)
  show ?case
  proof (cases "i < numGroups \<and> read_ok mount offset")
    case False
    then show ?thesis by (subst Initialize_groups.simps) auto
  next
    case True
    let ?g = "Initialize_group volume mount bm numGroups i offset (groups ! nat i)"
    have "fst (Initialize_groups volume mount bm numGroups (i + 1)
                 (offset + fBlocksPerGroup mount) (freeBlocks + fFreeBits ?g)
                 (groups[nat i := ?g])) ! j = groups[nat i := ?g] ! j"
      using True "1.prems" by (intro "1.IH") auto
    then show ?thesis
      using True "1.prems" by (subst Initialize_groups.simps) (simp add: Let_def)
  qed
qed

lemma Initialize_groups_nth:
  assumes "i \<le> j" "j < numGroups" "0 \<le> i" "nat j < length groups"
    and "\<forall>j'. i \<le> j' \<and> j' \<le> j \<longrightarrow> read_ok mount (offset + (j' - i) * fBlocksPerGroup mount)"
  shows "fst (Initialize_groups volume mount bm numGroups i offset fb groups) ! nat j
           = Initialize_group volume mount bm numGroups j
               (offset + (j - i) * fBlocksPerGroup mount) (groups ! nat j)"
  using assms
proof (induction volume mount bm numGroups i offset fb groups rule: Initialize_groups.induct)
  case (1 volume mount bm numGroups i offset freeBlocks groups)
  let ?g = "Initialize_group volume mount bm numGroups i offset (groups ! nat i)"
  let ?rest = "Initialize_groups volume mount bm numGroups (i + 1)
                 (offset + fBlocksPerGroup mount) (freeBlocks + fFreeBits ?g)
                 (groups[nat i := ?g])"
  from "1.prems" have lt: "i < numGroups" and rd: "read_ok mount offset" by auto
  have unfold: "Initialize_groups volume mount bm numGroups i offset freeBlocks groups = ?rest"
    using lt rd by (subst Initialize_groups.simps) (simp add: Let_def)
  show ?case
  proof (cases "j = i")
    case True
    have "fst ?rest ! nat j = groups[nat i := ?g] ! nat j"
      using True "1.prems" by (intro Initialize_groups_before) auto
    then show ?thesis using True "1.prems" by (simp add: unfold)
  next
    case False
    with "1.prems" have ij: "i + 1 \<le> j" by simp
    have reads: "\<forall>j'. i + 1 \<le> j' \<and> j' \<le> j \<longrightarrow>
                   read_ok mount (offset + fBlocksPerGroup mount
                                   + (j' - (i + 1)) * fBlocksPerGroup mount)"
    proof (intro allI impI)
      fix j'
      assume "i + 1 \<le> j' \<and> j' \<le> j"
      then have "read_ok mount (offset + (j' - i) * fBlocksPerGroup mount)"
        using "1.prems"(5) by auto
      then show "read_ok mount (offset + fBlocksPerGroup mount
                                   + (j' - (i + 1)) * fBlocksPerGroup mount)"
        by (simp add: algebra_simps)
    qed
    have "fst ?rest ! nat j
            = Initialize_group volume mount bm numGroups j
                (offset + fBlocksPerGroup mount + (j - (i + 1)) * fBlocksPerGroup mount)
                (groups[nat i := ?g] ! nat j)"
      using lt rd ij "1.prems" reads by (intro "1.IH") auto
    moreover have "groups[nat i := ?g] ! nat j = groups ! nat j"
      using False "1.prems" by simp
    moreover have "offset + fBlocksPerGroup mount + (j - (i + 1)) * fBlocksPerGroup mount
                     = offset + (j - i) * fBlocksPerGroup mount"
      by (simp add: algebra_simps)
    ultimately show ?thesis by (simp add: unfold)
  qed
qed

text \<open>
  \<^verbatim>\<open>Initialize\<close> allocates the array of groups, which runs the constructor on each of
  them, and the scan starts at block 1, after the super block. \<open>mounted_groups\<close> is the
  array after the loop over the groups, \<open>raw\<close> being the memory of the array before the
  constructors ran.
\<close>

definition mounted_groups ::
  "Volume \<Rightarrow> Mount \<Rightarrow> bitmap \<Rightarrow> AllocationGroup list \<Rightarrow> AllocationGroup list" where
  "mounted_groups volume mount bm raw =
     fst (Initialize_groups volume mount bm (int (length raw)) 0 1 0
            (map AllocationGroup_init raw))"

lemma mounted_groups_nth:
  assumes i: "i < length raw"
    and reads: "\<forall>j\<le>i. read_ok mount (1 + int j * fBlocksPerGroup mount)"
  shows "mounted_groups volume mount bm raw ! i
           = Initialize_group volume mount bm (int (length raw)) (int i)
               (1 + int i * fBlocksPerGroup mount) (AllocationGroup_init (raw ! i))"
proof -
  have r: "\<forall>j'. 0 \<le> j' \<and> j' \<le> int i \<longrightarrow>
             read_ok mount (1 + (j' - 0) * fBlocksPerGroup mount)"
  proof (intro allI impI)
    fix j' :: int
    assume "0 \<le> j' \<and> j' \<le> int i"
    then have "nat j' \<le> i" "int (nat j') = j'" by linarith+
    with reads show "read_ok mount (1 + (j' - 0) * fBlocksPerGroup mount)" by force
  qed
  from Initialize_groups_nth [of 0 "int i" "int (length raw)" "map AllocationGroup_init raw"
      mount 1 volume bm 0, OF _ _ _ _ r] i
  show ?thesis by (simp add: mounted_groups_def)
qed

text \<open>The scan leaves the size and the position of the group as they were assigned.\<close>

lemma Initialize_bits_fields:
  "fNumBits (sc_group (Initialize_bits chunk numBits j s)) = fNumBits (sc_group s)
   \<and> fNumBitmapBlocks (sc_group (Initialize_bits chunk numBits j s))
       = fNumBitmapBlocks (sc_group s)
   \<and> fStart (sc_group (Initialize_bits chunk numBits j s)) = fStart (sc_group s)"
proof (induction "32 - j" arbitrary: j s rule: less_induct)
  case less
  show ?case
  proof (cases "j < 32 \<and> sc_bit s < numBits")
    case False
    then have "Initialize_bits chunk numBits j s = s"
      by (subst Initialize_bits.simps) auto
    then show ?thesis by simp
  next
    case True
    define s2 where "s2 =
             (let s1 = (if chunk AND push_bit j 1 \<noteq> 0
                        then (if sc_range s > 0
                              then s\<lparr>sc_group := AllocationGroup_AddFreeRange (sc_group s)
                                                    (sc_start s) (sc_range s),
                                     sc_range := 0\<rparr>
                              else s)
                        else (let s0 = (if sc_range s = 0 then s\<lparr>sc_start := sc_bit s\<rparr> else s)
                              in s0\<lparr>sc_range := sc_range s0 + 1\<rparr>))
              in s1\<lparr>sc_bit := sc_bit s1 + 1\<rparr>)"
    have unfold: "Initialize_bits chunk numBits j s = Initialize_bits chunk numBits (j + 1) s2"
      using True by (subst Initialize_bits.simps) (simp add: s2_def)
    have f: "fNumBits (sc_group s2) = fNumBits (sc_group s)"
      "fNumBitmapBlocks (sc_group s2) = fNumBitmapBlocks (sc_group s)"
      "fStart (sc_group s2) = fStart (sc_group s)"
      by (simp_all add: s2_def Let_def)
    have "32 - (j + 1) < 32 - j" using True by linarith
    from less.hyps [OF this, of s2] show ?thesis unfolding unfold f .
  qed
qed

lemma Initialize_chunks_fields:
  "fNumBits (sc_group (Initialize_chunks buffer numBits count k s)) = fNumBits (sc_group s)
   \<and> fNumBitmapBlocks (sc_group (Initialize_chunks buffer numBits count k s))
       = fNumBitmapBlocks (sc_group s)
   \<and> fStart (sc_group (Initialize_chunks buffer numBits count k s)) = fStart (sc_group s)"
proof (induction "nat (count - k)" arbitrary: k s rule: less_induct)
  case less
  show ?case
  proof (cases "k < count")
    case False
    then have "Initialize_chunks buffer numBits count k s = s"
      by (subst Initialize_chunks.simps) auto
    then show ?thesis by simp
  next
    case True
    define s1 where "s1 = Initialize_bits (buffer (nat k)) numBits 0 s"
    have unfold: "Initialize_chunks buffer numBits count k s
                    = Initialize_chunks buffer numBits count (k + 1) s1"
      using True by (subst Initialize_chunks.simps) (simp add: s1_def)
    have f: "fNumBits (sc_group s1) = fNumBits (sc_group s)"
      "fNumBitmapBlocks (sc_group s1) = fNumBitmapBlocks (sc_group s)"
      "fStart (sc_group s1) = fStart (sc_group s)"
      using Initialize_bits_fields [of "buffer (nat k)" numBits 0 s] by (simp_all add: s1_def)
    have "nat (count - (k + 1)) < nat (count - k)" using True by simp
    from less.hyps [OF this, of s1] show ?thesis unfolding unfold f .
  qed
qed

lemma Initialize_group_fields:
  "fNumBits (Initialize_group volume mount bm numGroups i offset grp)
     = fNumBits (Initialize_size mount numGroups i offset grp)"
  "fNumBitmapBlocks (Initialize_group volume mount bm numGroups i offset grp)
     = fNumBitmapBlocks (Initialize_size mount numGroups i offset grp)"
  "fStart (Initialize_group volume mount bm numGroups i offset grp) = i32 offset"
  using Initialize_chunks_fields
  by (simp_all add: Initialize_group_def Let_def)

lemma mounted_group_count:
  assumes i: "i < length raw"
    and reads: "\<forall>j\<le>i. read_ok mount (1 + int j * fBlocksPerGroup mount)"
    and dv: "4 dvd BlockSize volume"
    and g: "valid_geometry volume (mounted_groups volume mount bm raw ! i)"
    and st: "fStart (mounted_groups volume mount bm raw ! i) = 1 + int i * fBlocksPerGroup mount"
  shows "fFreeBits (mounted_groups volume mount bm raw ! i)
           = free_bit_count volume bm (mounted_groups volume mount bm raw ! i)"
    and "0 \<le> fFreeBits (mounted_groups volume mount bm raw ! i)"
    and "fFreeBits (mounted_groups volume mount bm raw ! i)
           \<le> fNumBits (mounted_groups volume mount bm raw ! i)"
proof -
  let ?G = "mounted_groups volume mount bm raw ! i"
  let ?off = "1 + int i * fBlocksPerGroup mount"
  let ?c = "AllocationGroup_init (raw ! i)"
  have m: "?G = Initialize_group volume mount bm (int (length raw)) (int i) ?off ?c"
    by (rule mounted_groups_nth [OF i reads])
  from g have bs: "0 < BlockSize volume" "BlockSize volume \<le> 8192"
    and n: "0 \<le> fNumBits ?G" "fNumBits ?G \<le> 65536"
    by (simp_all add: valid_geometry_def)
  have con: "fFreeBits ?c = 0" by (simp add: AllocationGroup_init_def)
  have nb: "fNumBits (Initialize_size mount (int (length raw)) (int i) ?off ?c) < 2147483648"
    "0 \<le> fNumBits (Initialize_size mount (int (length raw)) (int i) ?off ?c)"
    using n unfolding m Initialize_group_fields by simp_all
  have off: "i32 ?off = ?off"
    using st unfolding m Initialize_group_fields .
  show eq: "fFreeBits ?G = free_bit_count volume bm ?G"
    unfolding m by (rule Initialize_group_count(4) [OF bs dv con nb off])
  show "0 \<le> fFreeBits ?G" unfolding eq by (rule free_bit_count_bounds(1))
  show "fFreeBits ?G \<le> fNumBits ?G" unfolding eq by (rule free_bit_count_bounds(2) [OF n(1)])
qed

subsection \<open>The scan finds the first unset bit\<close>

text \<open>One round of the inner loop of the scan, on a bit that is set (\<open>used\<close>) or unset.\<close>

definition scan_step :: "bool \<Rightarrow> scan_state \<Rightarrow> scan_state" where
  "scan_step used s =
     (let s1 = (if used
                then (if sc_range s > 0
                      then s\<lparr>sc_group := AllocationGroup_AddFreeRange (sc_group s)
                                            (sc_start s) (sc_range s),
                             sc_range := 0\<rparr>
                      else s)
                else (let s0 = (if sc_range s = 0 then s\<lparr>sc_start := sc_bit s\<rparr> else s)
                      in s0\<lparr>sc_range := sc_range s0 + 1\<rparr>))
      in s1\<lparr>sc_bit := sc_bit s1 + 1\<rparr>)"

lemma scan_step_bit [simp]: "sc_bit (scan_step used s) = sc_bit s + 1"
  by (simp add: scan_step_def Let_def)

lemma Initialize_bits_invariant:
  assumes bs: "0 < BlockSize volume" "BlockSize volume \<le> 8192" "4 dvd BlockSize volume"
    and step: "\<And>s. I s \<Longrightarrow> 0 \<le> sc_bit s \<Longrightarrow> sc_bit s < numBits
                 \<Longrightarrow> I (scan_step (group_bit volume bm g0 (sc_bit s)) s)"
    and inv: "I s"
    and pos: "sc_bit s = 32 * int k + int j" "j \<le> 32"
  shows "I (Initialize_bits (read_buffer volume bm (fStart g0) k) numBits j s)"
  using inv pos
proof (induction "32 - j" arbitrary: j s rule: less_induct)
  case less
  let ?chunk = "read_buffer volume bm (fStart g0) k"
  show ?case
  proof (cases "j < 32 \<and> sc_bit s < numBits")
    case False
    then have "Initialize_bits ?chunk numBits j s = s"
      by (subst Initialize_bits.simps) auto
    with less.prems show ?thesis by simp
  next
    case True
    have used: "?chunk AND push_bit j 1 \<noteq> 0 \<longleftrightarrow> group_bit volume bm g0 (sc_bit s)"
      unfolding and_one_shifted less.prems(2)
      using True by (intro read_buffer_bit [OF bs]) simp
    define s2 where "s2 = scan_step (group_bit volume bm g0 (sc_bit s)) s"
    have unfold: "Initialize_bits ?chunk numBits j s = Initialize_bits ?chunk numBits (j + 1) s2"
      using True
      by (subst Initialize_bits.simps)
         (simp add: s2_def scan_step_def used [unfolded push_bit_of_1, symmetric] Let_def)
    have b0: "0 \<le> sc_bit s" using less.prems(2) by simp
    have inv2: "I s2" unfolding s2_def using less.prems(1) b0 True by (intro step) simp_all
    have pos2: "sc_bit s2 = 32 * int k + int (j + 1)" "j + 1 \<le> 32"
      using True less.prems(2) by (simp_all add: s2_def)
    have "32 - (j + 1) < 32 - j" using True by linarith
    from less.hyps [OF this inv2 pos2] show ?thesis unfolding unfold .
  qed
qed

lemma Initialize_chunks_invariant:
  assumes bs: "0 < BlockSize volume" "BlockSize volume \<le> 8192" "4 dvd BlockSize volume"
    and step: "\<And>s. I s \<Longrightarrow> 0 \<le> sc_bit s \<Longrightarrow> sc_bit s < numBits
                 \<Longrightarrow> I (scan_step (group_bit volume bm g0 (sc_bit s)) s)"
    and inv: "I s" "count_inv volume bm g0 s"
    and pos: "0 \<le> k" "sc_bit s = min (32 * k) numBits" "0 \<le> numBits"
  shows "I (Initialize_chunks (read_buffer volume bm (fStart g0)) numBits count k s)"
  using inv pos
proof (induction "nat (count - k)" arbitrary: k s rule: less_induct)
  case less
  let ?buf = "read_buffer volume bm (fStart g0)"
  show ?case
  proof (cases "k < count")
    case False
    then have "Initialize_chunks ?buf numBits count k s = s"
      by (subst Initialize_chunks.simps) auto
    with less.prems show ?thesis by simp
  next
    case True
    define s1 where "s1 = Initialize_bits (?buf (nat k)) numBits 0 s"
    have unfold: "Initialize_chunks ?buf numBits count k s
                    = Initialize_chunks ?buf numBits count (k + 1) s1"
      using True by (subst Initialize_chunks.simps) (simp add: s1_def)
    have s1: "I s1 \<and> count_inv volume bm g0 s1 \<and> sc_bit s1 = min (32 * (k + 1)) numBits"
    proof (cases "32 * k < numBits")
      case lt: True
      then have p: "sc_bit s = 32 * int (nat k) + int 0" using less.prems by simp
      have "I s1"
        unfolding s1_def
        by (rule Initialize_bits_invariant [OF bs step less.prems(1) p]) simp_all
      with Initialize_bits_count [OF bs less.prems(2) p, of numBits] lt less.prems(3)
      show ?thesis by (simp add: s1_def algebra_simps)
    next
      case ge: False
      then have e: "sc_bit s = numBits" using less.prems by simp
      then have "Initialize_bits (?buf (nat k)) numBits 0 s = s"
        by (subst Initialize_bits.simps) auto
      with ge e less.prems show ?thesis by (simp add: s1_def min_def)
    qed
    have "nat (count - (k + 1)) < nat (count - k)" using True by simp
    from less.hyps [OF this, of s1] s1 less.prems(3,5)
    show ?thesis unfolding unfold by simp
  qed
qed

text \<open>
  The invariant for the first-free hint: as long as no free range has been added, every
  bit before the open range is set; afterwards every bit below the hint is set.
\<close>

definition first_inv :: "Volume \<Rightarrow> bitmap \<Rightarrow> AllocationGroup \<Rightarrow> scan_state \<Rightarrow> bool" where
  "first_inv volume bm g0 s \<longleftrightarrow>
     0 \<le> sc_range s \<and> sc_range s \<le> sc_bit s
     \<and> (0 < sc_range s \<longrightarrow> sc_start s = sc_bit s - sc_range s)
     \<and> (\<forall>p. 0 \<le> p
              \<and> p < (if fFirstFree (sc_group s) = - 1 then sc_bit s - sc_range s
                     else fFirstFree (sc_group s))
            \<longrightarrow> group_bit volume bm g0 p)"

lemma AddFreeRange_first [simp]:
  "fFirstFree (AllocationGroup_AddFreeRange grp start blocks)
     = (if fFirstFree grp = - 1 then start else fFirstFree grp)"
  by (simp add: AllocationGroup_AddFreeRange_def Let_def)

lemma first_inv_step:
  assumes inv: "first_inv volume bm g0 s"
  shows "first_inv volume bm g0 (scan_step (group_bit volume bm g0 (sc_bit s)) s)"
proof (cases "group_bit volume bm g0 (sc_bit s)")
  case used: True
  show ?thesis
  proof (cases "0 < sc_range s")
    case True
    with inv have st: "sc_start s = sc_bit s - sc_range s" "0 \<le> sc_start s"
      by (simp_all add: first_inv_def)
    have "group_bit volume bm g0 p"
      if "0 \<le> p" "p < (if fFirstFree (sc_group s) = - 1 then sc_start s
                         else fFirstFree (sc_group s))" for p
      using inv that st by (auto simp: first_inv_def split: if_splits)
    with inv True used st show ?thesis
      by (auto simp: first_inv_def scan_step_def Let_def)
  next
    case False
    with inv have r: "sc_range s = 0" by (simp add: first_inv_def)
    have "group_bit volume bm g0 p"
      if "0 \<le> p" "p < (if fFirstFree (sc_group s) = - 1 then sc_bit s + 1
                         else fFirstFree (sc_group s))" for p
    proof (cases "p = sc_bit s")
      case True
      with used show ?thesis by simp
    next
      case False
      with inv that r show ?thesis by (auto simp: first_inv_def split: if_splits)
    qed
    with inv r used show ?thesis
      by (auto simp: first_inv_def scan_step_def Let_def)
  qed
next
  case free: False
  with inv show ?thesis
    by (auto simp: first_inv_def scan_step_def Let_def)
qed

lemma Initialize_group_first:
  assumes bs: "0 < BlockSize volume" "BlockSize volume \<le> 8192" "4 dvd BlockSize volume"
    and con: "fFreeBits grp = 0" "fFirstFree grp = - 1"
    and nb: "fNumBits (Initialize_size mount numGroups i offset grp) < 2147483648"
      "0 \<le> fNumBits (Initialize_size mount numGroups i offset grp)"
    and off: "i32 offset = offset"
  shows "first_free_bound volume bm (Initialize_group volume mount bm numGroups i offset grp)"
proof -
  let ?g = "Initialize_size mount numGroups i offset grp"
  let ?N = "fNumBits ?g"
  let ?count = "(?N + 31) div 32"
  let ?s0 = "\<lparr>sc_group = ?g, sc_start = - 1, sc_range = 0, sc_bit = 0\<rparr>"
  define s where "s = Initialize_chunks (read_buffer volume bm offset) ?N ?count 0 ?s0"
  let ?G = "Initialize_group volume mount bm numGroups i offset grp"
  have N: "i32 ?N = ?N" using nb by (simp add: i32_id)
  have G: "?G = (if sc_range s \<noteq> 0
                 then AllocationGroup_AddFreeRange (sc_group s) (sc_start s) (sc_range s)
                 else sc_group s)"
    using nb(2) by (simp add: Initialize_group_def Let_def N s_def)
  have inv0: "count_inv volume bm ?g ?s0" by (simp add: count_inv_def con)
  have f0: "first_inv volume bm ?g ?s0" by (auto simp: first_inv_def con)
  have st: "fStart ?g = offset" by (simp add: off)
  have "first_inv volume bm ?g
          (Initialize_chunks (read_buffer volume bm (fStart ?g)) ?N ?count 0 ?s0)"
    by (rule Initialize_chunks_invariant [OF bs first_inv_step f0 inv0]) (use nb in simp_all)
  then have inv: "first_inv volume bm ?g s" by (simp only: st s_def)
  have "group_bit volume bm ?g p" if p: "0 \<le> p" "p < fFirstFree ?G" for p
  proof (cases "sc_range s \<noteq> 0")
    case True
    with inv have r: "0 < sc_range s" "sc_start s = sc_bit s - sc_range s"
      by (simp_all add: first_inv_def)
    from p True have "p < (if fFirstFree (sc_group s) = - 1 then sc_bit s - sc_range s
                           else fFirstFree (sc_group s))"
      by (simp add: G r)
    with inv p(1) show ?thesis unfolding first_inv_def by blast
  next
    case False
    with p have lt: "p < fFirstFree (sc_group s)" by (simp add: G)
    with p(1) have "fFirstFree (sc_group s) \<noteq> - 1" by auto
    with inv p(1) lt show ?thesis unfolding first_inv_def by auto
  qed
  moreover have "fStart ?G = fStart ?g" by (simp add: Initialize_group_fields)
  ultimately show ?thesis
    by (simp add: first_free_bound_def group_bit_cong [of ?G ?g])
qed

lemma mounted_group_first:
  assumes i: "i < length raw"
    and reads: "\<forall>j\<le>i. read_ok mount (1 + int j * fBlocksPerGroup mount)"
    and dv: "4 dvd BlockSize volume"
    and g: "valid_geometry volume (mounted_groups volume mount bm raw ! i)"
    and st: "fStart (mounted_groups volume mount bm raw ! i) = 1 + int i * fBlocksPerGroup mount"
  shows "first_free_bound volume bm (mounted_groups volume mount bm raw ! i)"
proof -
  let ?G = "mounted_groups volume mount bm raw ! i"
  let ?off = "1 + int i * fBlocksPerGroup mount"
  let ?c = "AllocationGroup_init (raw ! i)"
  have m: "?G = Initialize_group volume mount bm (int (length raw)) (int i) ?off ?c"
    by (rule mounted_groups_nth [OF i reads])
  from g have bs: "0 < BlockSize volume" "BlockSize volume \<le> 8192"
    and n: "0 \<le> fNumBits ?G" "fNumBits ?G \<le> 65536"
    by (simp_all add: valid_geometry_def)
  have con: "fFreeBits ?c = 0" "fFirstFree ?c = - 1" by (simp_all add: AllocationGroup_init_def)
  have nb: "fNumBits (Initialize_size mount (int (length raw)) (int i) ?off ?c) < 2147483648"
    "0 \<le> fNumBits (Initialize_size mount (int (length raw)) (int i) ?off ?c)"
    using n unfolding m Initialize_group_fields by simp_all
  have off: "i32 ?off = ?off"
    using st unfolding m Initialize_group_fields .
  show ?thesis
    unfolding m by (rule Initialize_group_first [OF bs dv con nb off])
qed

section \<open>A small volume\<close>

text \<open>
  A volume of two allocation groups with 1024-byte blocks, one bitmap block and 8192 bits
  per group. The super block is block 0, the bitmap is blocks 1 and 2, the log is blocks
  3 to 7: the first eight blocks are reserved and marked in the bitmap of group 0.
\<close>

definition zero_block :: block_data where
  "zero_block = (\<lambda>_. 0)"

definition example_volume :: Volume where
  "example_volume = \<lparr>BlockSize = 1024, cache_ok = (\<lambda>_. True), Log_AllocationGroup = 0,
     Log_Start = 3, Log_Length = 5\<rparr>"

definition example_group0 :: AllocationGroup where
  "example_group0 = \<lparr>fNumBits = 8192, fNumBitmapBlocks = 1, fStart = 1, fFirstFree = 8,
     fFreeBits = 8184, fLargestStart = 8, fLargestLength = 8184, fLargestValid = True\<rparr>"

definition example_group1 :: AllocationGroup where
  "example_group1 = \<lparr>fNumBits = 8192, fNumBitmapBlocks = 1, fStart = 2, fFirstFree = 0,
     fFreeBits = 8192, fLargestStart = 0, fLargestLength = 8192, fLargestValid = True\<rparr>"

definition example_bitmap :: bitmap where
  "example_bitmap = (\<lambda>_. zero_block)(1 := zero_block(0 := 255))"

definition example_allocator :: BlockAllocator where
  "example_allocator = \<lparr>fGroups = [example_group0, example_group1], fNumGroups = 2,
     fBitmap = example_bitmap, used_blocks = 8\<rparr>"

text \<open>A group whose only bitmap block is short: 100 valid bits.\<close>

definition short_group :: AllocationGroup where
  "short_group = \<lparr>fNumBits = 100, fNumBitmapBlocks = 1, fStart = 1, fFirstFree = 0,
     fFreeBits = 100, fLargestStart = 0, fLargestLength = 100, fLargestValid = True\<rparr>"

lemma example_volume_simps [simp]:
  "BlockSize example_volume = 1024" "cache_ok example_volume b"
  "Log_AllocationGroup example_volume = 0" "Log_Start example_volume = 3"
  "Log_Length example_volume = 5" "bitsPerBlock example_volume = 8192"
  by (simp_all add: example_volume_def bitsPerBlock_def u32_def)

lemma example_group0_simps [simp]:
  "fNumBits example_group0 = 8192" "fNumBitmapBlocks example_group0 = 1"
  "fStart example_group0 = 1" "fFirstFree example_group0 = 8" "fFreeBits example_group0 = 8184"
  "fLargestStart example_group0 = 8" "fLargestLength example_group0 = 8184"
  "fLargestValid example_group0"
  by (simp_all add: example_group0_def)

lemma example_group1_simps [simp]:
  "fNumBits example_group1 = 8192" "fNumBitmapBlocks example_group1 = 1"
  "fStart example_group1 = 2" "fFirstFree example_group1 = 0" "fFreeBits example_group1 = 8192"
  "fLargestStart example_group1 = 0" "fLargestLength example_group1 = 8192"
  "fLargestValid example_group1"
  by (simp_all add: example_group1_def)

lemma example_bitmap_simps [simp]:
  "zero_block c = 0" "example_bitmap 1 = zero_block(0 := 255)" "example_bitmap 2 = zero_block"
  by (simp_all add: example_bitmap_def zero_block_def)

lemma example_geometry [simp]:
  "valid_geometry example_volume example_group0" "valid_geometry example_volume example_group1"
  "group_readable example_volume grp"
  by (simp_all add: valid_geometry_def group_readable_def)

text \<open>Allocating the run \<open>(start 0, length 5)\<close> in the empty group 1, step by step.\<close>

lemma example_mask: "Allocate_mask 0 5 0 = (31, 0)"
  by (simp add: Allocate_mask.simps)

lemma example_block_Allocate: "AllocationBlock_Allocate zero_block 0 5 = zero_block(0 := 31)"
  by (simp add: AllocationBlock_Allocate_def AllocationBlock_Allocate_loop.simps example_mask)

lemma example_hints:
  "Allocate_hints example_group1 0 5
     = example_group1\<lparr>fFirstFree := 5, fFreeBits := 8187, fLargestStart := 5,
         fLargestLength := 8187\<rparr>"
  by (simp add: Allocate_hints_def i32_def)

lemma example_SetToWritable:
  "fNumBits grp = 8192 \<Longrightarrow> fStart grp = 2 \<Longrightarrow>
   AllocationBlock_SetToWritable example_volume grp 0 = Some \<lparr>ab_fNumBits = 8192, ab_fBlockNumber = 2\<rparr>"
  by (simp add: AllocationBlock_SetToWritable_def u32_def)

lemma example_Allocate_loop:
  "fNumBits grp = 8192 \<Longrightarrow> fStart grp = 2 \<Longrightarrow>
   AllocationGroup_Allocate_loop example_volume grp example_bitmap 0 0 5
     = Some (B_OK, example_bitmap(2 := zero_block(0 := 31)))"
  apply (subst AllocationGroup_Allocate_loop.simps)
  apply (simp add: example_SetToWritable u32_def u16_def i32_def example_block_Allocate)
  apply (subst AllocationGroup_Allocate_loop.simps)
  apply simp
  done

lemma example_Allocate:
  "AllocationGroup_Allocate example_volume example_group1 example_bitmap 0 5
     = Some (B_OK,
         example_group1\<lparr>fFirstFree := 5, fFreeBits := 8187, fLargestStart := 5,
           fLargestLength := 8187\<rparr>,
         example_bitmap(2 := zero_block(0 := 31)))"
  by (simp add: AllocationGroup_Allocate_def Let_def u32_def u16_def example_Allocate_loop
      example_hints [symmetric])


text \<open>
  The request \<open>maximum = 10\<close>, \<open>minimum = 4\<close> with group 0 as the hint, step by step:
  the search adopts the largest-free hint of group 0, and the run \<open>(start 8, length 10)\<close>
  is allocated.
\<close>

lemma example_mask0: "Allocate_mask 8 10 0 = (261888, 0)"
  by (simp add: Allocate_mask.simps)

lemma example_block_Allocate0:
  "AllocationBlock_Allocate (zero_block(0 := 255)) 8 10 = zero_block(0 := 262143)"
  by (simp add: AllocationBlock_Allocate_def AllocationBlock_Allocate_loop.simps example_mask0)

lemma example_hints0:
  "Allocate_hints example_group0 8 10
     = example_group0\<lparr>fFirstFree := 18, fFreeBits := 8174, fLargestStart := 18,
         fLargestLength := 8174\<rparr>"
  by (simp add: Allocate_hints_def i32_def)

lemma example_SetToWritable0:
  "fNumBits grp = 8192 \<Longrightarrow> fStart grp = 1 \<Longrightarrow>
   AllocationBlock_SetToWritable example_volume grp 0 = Some \<lparr>ab_fNumBits = 8192, ab_fBlockNumber = 1\<rparr>"
  by (simp add: AllocationBlock_SetToWritable_def u32_def)

lemma example_Allocate_loop0:
  "fNumBits grp = 8192 \<Longrightarrow> fStart grp = 1 \<Longrightarrow>
   AllocationGroup_Allocate_loop example_volume grp example_bitmap 0 8 10
     = Some (B_OK, example_bitmap(1 := zero_block(0 := 262143)))"
  apply (subst AllocationGroup_Allocate_loop.simps)
  apply (simp add: example_SetToWritable0 u32_def u16_def i32_def example_block_Allocate0)
  apply (subst AllocationGroup_Allocate_loop.simps)
  apply simp
  done

lemma example_Allocate0:
  "AllocationGroup_Allocate example_volume example_group0 example_bitmap 8 10
     = Some (B_OK,
         example_group0\<lparr>fFirstFree := 18, fFreeBits := 8174, fLargestStart := 18,
           fLargestLength := 8174\<rparr>,
         example_bitmap(1 := zero_block(0 := 262143)))"
  by (simp add: AllocationGroup_Allocate_def Let_def u32_def u16_def example_Allocate_loop0
      example_hints0 [symmetric])

lemma example_search:
  "search_groups example_volume example_bitmap 2 10 0 0 0 [example_group0, example_group1]
     \<lparr>bestGroup = -1, bestStart = -1, bestLength = -1, currentStart = 0, currentLength = 0,
      groupLargestStart = -1, groupLargestLength = -1, currentBit = 0\<rparr>
   = (B_OK, [example_group0, example_group1],
      \<lparr>bestGroup = 0, bestStart = 8, bestLength = 8184, currentStart = 0, currentLength = 0,
       groupLargestStart = -1, groupLargestLength = -1, currentBit = 0\<rparr>)"
  by (simp add: search_groups.simps visit_group_def IsFull_def u16_def)

text \<open>Group 1 of the example volume is empty: all its bits are unset.\<close>

lemma example_group1_free: "run_free example_volume example_bitmap example_group1 0 8192"
proof -
  have "\<not> group_bit example_volume example_bitmap example_group1 p"
    if "0 \<le> p" "p < 8192" for p
  proof -
    have "p div 8192 = 0" using that by simp
    then show ?thesis by (simp add: group_bit_def block_bit_def)
  qed
  then show ?thesis by (simp add: run_free_def)
qed

lemma example_group1_count:
  "free_bit_count example_volume example_bitmap example_group1 = 8192"
  using free_bit_count_cleared [of example_group1 example_volume example_bitmap]
    example_group1_free by simp

text \<open>Freeing the run \<open>(start 0, length 5)\<close> in the empty group 1, step by step.\<close>

lemma example_Free_mask: "Free_mask 0 5 0 = (31, 0)"
  by (simp add: Free_mask.simps)

lemma example_block_Free: "AllocationBlock_Free zero_block 0 5 = zero_block"
  by (rule ext)
     (simp add: AllocationBlock_Free_def AllocationBlock_Free_loop.simps example_Free_mask)

lemma example_Free_hints:
  "Free_hints example_group1 0 5 = example_group1\<lparr>fFreeBits := 8197\<rparr>"
  by (simp add: Free_hints_def i32_def)

lemma example_Free_loop:
  "fNumBits grp = 8192 \<Longrightarrow> fStart grp = 2 \<Longrightarrow>
   AllocationGroup_Free_loop example_volume grp example_bitmap 0 0 5
     = Some (B_OK, example_bitmap)"
  apply (subst AllocationGroup_Free_loop.simps)
  apply (simp add: example_SetToWritable u32_def u16_def example_block_Free)
  apply (subst AllocationGroup_Free_loop.simps)
  apply (simp add: fun_upd_idem)
  done

lemma example_Free:
  "AllocationGroup_Free example_volume example_group1 example_bitmap 0 5
     = Some (B_OK, example_group1\<lparr>fFreeBits := 8197\<rparr>, example_bitmap)"
  by (simp add: AllocationGroup_Free_def Let_def u32_def u16_def example_Free_loop
      example_Free_hints [symmetric])

text \<open>
  The allocator of the example volume is consistent with its bitmap: the bits of group 0
  are the eight reserved ones, group 1 is empty.
\<close>

lemma example_group0_bit:
  assumes "0 \<le> p" "p < 8192"
  shows "group_bit example_volume example_bitmap example_group0 p \<longleftrightarrow> p < 8"
proof -
  have d: "p div 8192 = 0" "p mod 8192 = p" using assms by simp_all
  have m: "(255 :: 32 word) = mask 8" by (simp add: mask_eq_exp_minus_1)
  show ?thesis
  proof (cases "p < 32")
    case True
    then have "nat p div 32 = 0" "nat p mod 32 = nat p" using assms by simp_all
    then show ?thesis
      using assms True by (auto simp: group_bit_def block_bit_def d m bit_mask_iff)
  next
    case False
    then have "nat p div 32 \<noteq> 0" using assms by simp
    then show ?thesis
      using False by (simp add: group_bit_def block_bit_def d)
  qed
qed

lemma example_group0_count:
  "free_bit_count example_volume example_bitmap example_group0 = 8184"
proof -
  have "{p \<in> {0..<8192}. \<not> group_bit example_volume example_bitmap example_group0 p}
          = {8..<8192}"
    using example_group0_bit by auto
  then show ?thesis by (simp add: free_bit_count_def)
qed

lemma example_group0_consistent:
  "group_consistent example_volume example_bitmap example_group0"
  "largest_exact example_volume example_bitmap example_group0"
proof -
  have "first_free_bound example_volume example_bitmap example_group0"
    using example_group0_bit by (simp add: first_free_bound_def)
  moreover have "hint_sound example_volume example_bitmap example_group0"
    using example_group0_bit by (simp add: hint_sound_def run_free_def)
  ultimately show "group_consistent example_volume example_bitmap example_group0"
    by (simp add: group_consistent_def valid_blocks_def example_group0_count)
  show "largest_exact example_volume example_bitmap example_group0"
    unfolding largest_exact_def
  proof (intro impI allI)
    fix a l
    assume fr: "free_run_in example_volume example_bitmap example_group0 a l"
    from free_run_in_bit [OF this] example_group0_bit [of a] have "8 \<le> a" by auto
    with fr show "l \<le> fLargestLength example_group0" by (simp add: free_run_in_def)
  qed
qed

lemma example_group1_consistent:
  "group_consistent example_volume example_bitmap example_group1"
  "largest_exact example_volume example_bitmap example_group1"
proof -
  have "first_free_bound example_volume example_bitmap example_group1"
    by (auto simp: first_free_bound_def)
  moreover have "hint_sound example_volume example_bitmap example_group1"
    using example_group1_free by (simp add: hint_sound_def)
  ultimately show "group_consistent example_volume example_bitmap example_group1"
    by (simp add: group_consistent_def valid_blocks_def example_group1_count)
  show "largest_exact example_volume example_bitmap example_group1"
    by (simp add: largest_exact_def free_run_in_def)
qed

lemma example_allocator_consistent: "allocator_consistent example_volume example_allocator"
  unfolding allocator_consistent_def
  using example_group0_consistent example_group1_consistent
  by (simp add: example_allocator_def less_Suc_eq)

lemma example_reserved: "reserved_allocated example_volume example_allocator"
  unfolding reserved_allocated_def
  using example_group0_bit
  by (simp add: example_allocator_def less_Suc_eq u32_def)

lemma example_longest: "longest_free_run example_volume example_allocator 8192"
proof -
  have "free_run_in example_volume example_bitmap example_group1 0 8192"
    using example_group1_free by (simp add: free_run_in_def)
  then have "free_run_of example_volume example_allocator 8192"
    unfolding free_run_of_def
    by (intro exI [of _ 1] conjI exI [of _ 0]) (simp_all add: example_allocator_def)
  moreover have "l \<le> 8192" if "free_run_of example_volume example_allocator l" for l
    using that
    by (auto simp: free_run_of_def free_run_in_def example_allocator_def less_Suc_eq)
  ultimately show ?thesis by (simp add: longest_free_run_def)
qed

lemma example_AllocateBlocks:
  "BlockAllocator_AllocateBlocks example_volume example_allocator 0 0 10 1
     = Some (B_OK,
         example_allocator
           \<lparr>fGroups := [example_group0\<lparr>fFirstFree := 18, fFreeBits := 8174,
                          fLargestStart := 18, fLargestLength := 8174\<rparr>, example_group1],
            fBitmap := example_bitmap(1 := zero_block(0 := 262143)),
            used_blocks := 18\<rparr>,
         Some \<lparr>run_allocation_group = 0, run_start = 8, run_length = 10\<rparr>)"
  by (simp add: BlockAllocator_AllocateBlocks_def example_allocator_def example_search
      example_Allocate0 u16_def)

text \<open>The same volume with every block of group 0 allocated.\<close>

definition full_block :: block_data where
  "full_block = (\<lambda>_. - 1)"

definition full_group0 :: AllocationGroup where
  "full_group0 = \<lparr>fNumBits = 8192, fNumBitmapBlocks = 1, fStart = 1, fFirstFree = 8192,
     fFreeBits = 0, fLargestStart = 0, fLargestLength = 0, fLargestValid = False\<rparr>"

definition full_bitmap :: bitmap where
  "full_bitmap = (\<lambda>_. zero_block)(1 := full_block)"

definition full_allocator :: BlockAllocator where
  "full_allocator = \<lparr>fGroups = [full_group0, example_group1], fNumGroups = 2,
     fBitmap = full_bitmap, used_blocks = 8192\<rparr>"

lemma full_group0_simps [simp]:
  "fNumBits full_group0 = 8192" "fNumBitmapBlocks full_group0 = 1"
  "fStart full_group0 = 1" "fFirstFree full_group0 = 8192" "fFreeBits full_group0 = 0"
  "\<not> fLargestValid full_group0" "valid_geometry example_volume full_group0"
  by (simp_all add: full_group0_def valid_geometry_def)

lemma full_group0_bit:
  assumes "0 \<le> p" "p < 8192"
  shows "group_bit example_volume full_bitmap full_group0 p"
proof -
  have "p div 8192 = 0" using assms by simp
  then show ?thesis
    by (simp add: group_bit_def block_bit_def full_bitmap_def full_block_def)
qed

lemma full_group0_count: "free_bit_count example_volume full_bitmap full_group0 = 0"
proof -
  have e: "{p \<in> {0..<fNumBits full_group0}.
              \<not> group_bit example_volume full_bitmap full_group0 p} = {}"
    using full_group0_bit by auto
  show ?thesis unfolding free_bit_count_def by (simp only: e card.empty of_nat_0)
qed

lemma full_group1_free: "run_free example_volume full_bitmap example_group1 0 8192"
proof -
  have "\<not> group_bit example_volume full_bitmap example_group1 p"
    if "0 \<le> p" "p < 8192" for p
  proof -
    have "p div 8192 = 0" using that by simp
    then show ?thesis by (simp add: group_bit_def block_bit_def full_bitmap_def)
  qed
  then show ?thesis by (simp add: run_free_def)
qed

lemma full_allocator_consistent: "allocator_consistent example_volume full_allocator"
proof -
  have "first_free_bound example_volume full_bitmap full_group0"
    using full_group0_bit by (simp add: first_free_bound_def)
  then have g0: "group_consistent example_volume full_bitmap full_group0"
    by (simp add: group_consistent_def valid_blocks_def full_group0_count hint_sound_def)
  have e0: "largest_exact example_volume full_bitmap full_group0"
    by (simp add: largest_exact_def)
  have "free_bit_count example_volume full_bitmap example_group1 = 8192"
    using free_bit_count_cleared [of example_group1 example_volume full_bitmap]
      full_group1_free by simp
  moreover have "first_free_bound example_volume full_bitmap example_group1"
    by (auto simp: first_free_bound_def)
  moreover have "hint_sound example_volume full_bitmap example_group1"
    using full_group1_free by (simp add: hint_sound_def)
  ultimately have g1: "group_consistent example_volume full_bitmap example_group1"
    by (simp add: group_consistent_def valid_blocks_def)
  have e1: "largest_exact example_volume full_bitmap example_group1"
    by (simp add: largest_exact_def free_run_in_def)
  show ?thesis
    unfolding allocator_consistent_def using g0 e0 g1 e1
    by (simp add: full_allocator_def less_Suc_eq)
qed

lemma full_allocator_run: "free_run_of example_volume full_allocator 3"
proof -
  have "free_run_in example_volume full_bitmap example_group1 0 3"
    using full_group1_free by (simp add: free_run_in_def run_free_def)
  then show ?thesis
    unfolding free_run_of_def
    by (intro exI [of _ 1] conjI exI [of _ 0]) (simp_all add: full_allocator_def)
qed

text \<open>The example volume with a block cache that delivers no block.\<close>

definition failing_volume :: Volume where
  "failing_volume = example_volume\<lparr>cache_ok := (\<lambda>_. False)\<rparr>"

lemma failing_volume_simps [simp]:
  "BlockSize failing_volume = 1024" "\<not> cache_ok failing_volume b"
  "bitsPerBlock failing_volume = 8192"
  by (simp_all add: failing_volume_def example_volume_def bitsPerBlock_def u32_def)

lemma failing_Allocate:
  "AllocationGroup_Allocate failing_volume example_group1 example_bitmap 0 5
     = Some (B_IO_ERROR,
         example_group1\<lparr>fFirstFree := 5, fFreeBits := 8187, fLargestStart := 5,
           fLargestLength := 8187, fLargestValid := False\<rparr>,
         example_bitmap)"
proof -
  have "AllocationGroup_Allocate_loop failing_volume grp example_bitmap 0 0 5
          = Some (B_IO_ERROR, example_bitmap)" for grp
    by (subst AllocationGroup_Allocate_loop.simps)
       (simp add: AllocationBlock_SetToWritable_def Let_def)
  then show ?thesis
    by (simp add: AllocationGroup_Allocate_def Let_def u32_def u16_def example_hints)
qed

text \<open>
  What the mount-time scan reads on the example volume: 16384 blocks, blocks of
  \<open>2\<^sup>1\<^sup>0\<close> bytes, one bitmap block per group, and every read succeeds.
\<close>

definition example_mount :: Mount where
  "example_mount = \<lparr>NumBlocks = 16384, BlockShift = 10, fBlocksPerGroup = 1,
     read_ok = (\<lambda>_. True)\<rparr>"

lemma example_mount_simps [simp]:
  "NumBlocks example_mount = 16384" "BlockShift example_mount = 10"
  "fBlocksPerGroup example_mount = 1" "read_ok example_mount offset"
  by (simp_all add: example_mount_def)

lemma example_bitsPerGroup: "u32 (8 * u32 (1 * 2 ^ nat 10)) = 8192"
  by (simp add: u32_def)

lemma example_mount_size:
  "fNumBits (Initialize_size example_mount 2 0 1 grp) = 8192"
  "fNumBitmapBlocks (Initialize_size example_mount 2 0 1 grp) = 1"
  "fNumBits (Initialize_size example_mount 2 1 2 grp) = 8192"
  "fNumBitmapBlocks (Initialize_size example_mount 2 1 2 grp) = 1"
  unfolding Initialize_size_def Let_def example_mount_simps example_bitsPerGroup
  by (simp_all add: u32_def)

text \<open>Group 0 of the example volume after the scan of any bitmap.\<close>

lemma example_mounted_group0:
  assumes "length raw = 2"
  shows "fNumBits (mounted_groups example_volume example_mount bm raw ! 0) = 8192"
    and "fNumBitmapBlocks (mounted_groups example_volume example_mount bm raw ! 0) = 1"
    and "fStart (mounted_groups example_volume example_mount bm raw ! 0) = 1"
    and "valid_geometry example_volume (mounted_groups example_volume example_mount bm raw ! 0)"
proof -
  have m: "mounted_groups example_volume example_mount bm raw ! 0
             = Initialize_group example_volume example_mount bm 2 0 1
                 (AllocationGroup_init (raw ! 0))"
    using mounted_groups_nth [of 0 raw example_mount example_volume bm] assms by simp
  show n: "fNumBits (mounted_groups example_volume example_mount bm raw ! 0) = 8192"
    and "fNumBitmapBlocks (mounted_groups example_volume example_mount bm raw ! 0) = 1"
    and "fStart (mounted_groups example_volume example_mount bm raw ! 0) = 1"
    unfolding m Initialize_group_fields by (simp_all add: example_mount_size i32_def)
  then show "valid_geometry example_volume
               (mounted_groups example_volume example_mount bm raw ! 0)"
    by (simp add: valid_geometry_def)
qed

text \<open>
  A group of the example volume whose bitmap block holds \<open>n\<close> set bits followed by unset
  bits only.
\<close>

lemma low_bits_group_bit:
  assumes b: "bm (fStart grp) = zero_block(0 := mask n)" and n: "n \<le> 32"
    and p: "0 \<le> p" "p < 8192"
  shows "group_bit example_volume bm grp p \<longleftrightarrow> p < int n"
proof -
  have d: "p div 8192 = 0" "p mod 8192 = p" using p by simp_all
  show ?thesis
  proof (cases "p < 32")
    case True
    then have "nat p div 32 = 0" "nat p mod 32 = nat p" using p by simp_all
    then show ?thesis
      using p True by (auto simp: group_bit_def block_bit_def d b bit_mask_iff)
  next
    case False
    then have "nat p div 32 \<noteq> 0" using p by simp
    then show ?thesis
      using False n by (simp add: group_bit_def block_bit_def d b)
  qed
qed

lemma low_bits_count:
  assumes b: "bm (fStart grp) = zero_block(0 := mask n)" and n: "n \<le> 32"
    and nb: "fNumBits grp = 8192"
  shows "free_bit_count example_volume bm grp = 8192 - int n"
proof -
  have "{p \<in> {0..<8192}. \<not> group_bit example_volume bm grp p} = {int n..<8192}"
    using low_bits_group_bit [of bm grp n, OF b n] n by auto
  then show ?thesis using n by (simp add: free_bit_count_def nb)
qed

text \<open>
  A bitmap of the example volume in which only the first five blocks are marked: the
  reserved prefix, the blocks 0 to 7, is not fully allocated.
\<close>

definition unreserved_bitmap :: bitmap where
  "unreserved_bitmap = (\<lambda>_. zero_block)(1 := zero_block(0 := 31))"

lemma unreserved_bitmap_block: "unreserved_bitmap 1 = zero_block(0 := mask 5)"
  by (simp add: unreserved_bitmap_def mask_eq_exp_minus_1)

lemma example_bitmap_block: "example_bitmap 1 = zero_block(0 := mask 8)"
  by (simp add: mask_eq_exp_minus_1)

section \<open>The claims\<close>

text \<open>
  C2 (violated by the code). The claim: the length of the run returned by a successful
  \<^verbatim>\<open>AllocateBlocks\<close> with a power of two as \<open>minimum\<close> is a multiple of \<open>minimum\<close>, also when
  the best run found is longer than \<open>maximum\<close> and is clamped. On the example volume the
  request \<open>maximum = 10\<close>, \<open>minimum = 4\<close> finds the run of 8184 free blocks through the
  largest-free hint of group 0, clamps it to 10 and returns 10 blocks without rounding.
\<close>

theorem AllocateBlocks_clamped_length_not_rounded:
  "BlockAllocator_AllocateBlocks example_volume example_allocator 0 0 10 4
     = Some (B_OK,
         example_allocator
           \<lparr>fGroups := [example_group0\<lparr>fFirstFree := 18, fFreeBits := 8174,
                          fLargestStart := 18, fLargestLength := 8174\<rparr>, example_group1],
            fBitmap := example_bitmap(1 := zero_block(0 := 262143)),
            used_blocks := 18\<rparr>,
         Some \<lparr>run_allocation_group = 0, run_start = 8, run_length = 10\<rparr>)
   \<and> \<not> (4 :: int) dvd 10"
  by (simp add: BlockAllocator_AllocateBlocks_def example_allocator_def example_search
      example_Allocate0 u16_def)

text \<open>
  C9. \<^verbatim>\<open>AllocateBlocks\<close> called with \<open>maximum = 0\<close> returns \<^verbatim>\<open>B_BAD_VALUE\<close> at once: no group
  is examined, and the allocator (groups, bitmap and used-blocks counter) is unchanged.
\<close>

theorem AllocateBlocks_zero_maximum:
  "BlockAllocator_AllocateBlocks volume alloc groupIndex start 0 minimum
     = Some (B_BAD_VALUE, alloc, None)"
  by (simp add: BlockAllocator_AllocateBlocks_def)

theorem AllocateBlocks_zero_maximum_witness:
  "BlockAllocator_AllocateBlocks example_volume example_allocator 0 0 0 1
     = Some (B_BAD_VALUE, example_allocator, None)"
  by (rule AllocateBlocks_zero_maximum)

text \<open>
  C10. For a view bound to a bitmap block by \<^verbatim>\<open>SetTo\<close>, \<^verbatim>\<open>IsUsed\<close> returns true for every bit
  index strictly greater than the number of valid bits of the block, whatever the block
  holds.
\<close>

theorem IsUsed_past_valid_bits:
  "AllocationBlock_SetTo volume grp block = Some cached \<Longrightarrow> ab_fNumBits cached < int bt
     \<Longrightarrow> AllocationBlock_IsUsed cached fBlock bt"
  by (simp add: AllocationBlock_IsUsed_def)

theorem IsUsed_past_valid_bits_witness:
  "AllocationBlock_SetTo example_volume short_group 0
     = Some \<lparr>ab_fNumBits = 100, ab_fBlockNumber = 1\<rparr>
   \<and> ab_fNumBits \<lparr>ab_fNumBits = 100, ab_fBlockNumber = 1\<rparr> < int 101
   \<and> AllocationBlock_IsUsed \<lparr>ab_fNumBits = 100, ab_fBlockNumber = 1\<rparr> zero_block 101"
proof -
  have bound: "AllocationBlock_SetTo example_volume short_group 0
                 = Some \<lparr>ab_fNumBits = 100, ab_fBlockNumber = 1\<rparr>"
    by (simp add: AllocationBlock_SetTo_def short_group_def u32_def)
  have past: "ab_fNumBits \<lparr>ab_fNumBits = 100, ab_fBlockNumber = 1\<rparr> < int 101"
    by simp
  from IsUsed_past_valid_bits [OF bound past, of zero_block] bound past show ?thesis
    by simp
qed

text \<open>
  C3. A run whose group precedes the group of the log, or that lies in the group of the log
  with a start offset below \<open>Log_Start + Log_Length\<close>, is rejected by \<^verbatim>\<open>Free\<close> with
  \<^verbatim>\<open>B_BAD_VALUE\<close>, and the allocator (bitmap, groups, used-blocks counter) is unchanged.
  The start and the length of the log are unsigned 16-bit numbers.
\<close>

theorem Free_rejects_reserved:
  assumes "0 \<le> Log_Start volume" "Log_Start volume < 65536"
    and "0 \<le> Log_Length volume" "Log_Length volume < 65536"
    and "run_allocation_group run < Log_AllocationGroup volume
         \<or> (run_allocation_group run = Log_AllocationGroup volume
            \<and> run_start run < Log_Start volume + Log_Length volume)"
  shows "BlockAllocator_Free volume alloc run = Some (B_BAD_VALUE, alloc)"
proof -
  have "u32 (u32 (Log_Start volume) + Log_Length volume) = Log_Start volume + Log_Length volume"
    using assms(1-4) by (simp add: u32_id)
  with assms(5) show ?thesis
    by (auto simp: BlockAllocator_Free_def Let_def)
qed

theorem Free_rejects_reserved_witness:
  "(run_allocation_group \<lparr>run_allocation_group = 0, run_start = 5, run_length = 3\<rparr>
      = Log_AllocationGroup example_volume
    \<and> run_start \<lparr>run_allocation_group = 0, run_start = 5, run_length = 3\<rparr>
        < Log_Start example_volume + Log_Length example_volume)
   \<and> BlockAllocator_Free example_volume example_allocator
         \<lparr>run_allocation_group = 0, run_start = 5, run_length = 3\<rparr>
       = Some (B_BAD_VALUE, example_allocator)"
  using Free_rejects_reserved [of example_volume
      "\<lparr>run_allocation_group = 0, run_start = 5, run_length = 3\<rparr>" example_allocator]
  by simp

text \<open>
  C8 (corrected). The claim: a group allocate of a run that touches or overlaps the valid
  largest-free run always leaves the hint invalid, and no recomputation is attempted. The
  code recomputes the hint: in the empty group 1 of the example volume the run
  \<open>(start 0, length 5)\<close> overlaps the valid largest-free run \<open>(0, 8192)\<close>, and after the
  allocation the hint is still valid, cut to \<open>(5, 8187)\<close>.
\<close>

theorem Allocate_cuts_largest_hint_counterexample:
  "fLargestValid example_group1 \<and> fLargestStart example_group1 = 0
   \<and> fLargestLength example_group1 = 8192
   \<and> AllocationGroup_Allocate example_volume example_group1 example_bitmap 0 5
       = Some (B_OK,
           example_group1\<lparr>fFirstFree := 5, fFreeBits := 8187, fLargestStart := 5,
             fLargestLength := 8187\<rparr>,
           example_bitmap(2 := zero_block(0 := 31)))
   \<and> fLargestValid (example_group1\<lparr>fFirstFree := 5, fFreeBits := 8187, fLargestStart := 5,
                       fLargestLength := 8187\<rparr>)"
  by (simp add: example_Allocate)

text \<open>
  C8 as amended. Let a group allocate return while the largest-free hint was valid.
  If it failed, the hint is invalid afterwards. If it succeeded: a run that starts at the
  start of the hint cuts the hint from its start, a run that starts strictly inside the
  hint cuts it from its end, and in both cases the hint is invalid afterwards exactly when
  the remaining length is smaller than the remaining start offset or smaller than the
  number of bits that follow the remaining run; a run of non-negative length that does not
  overlap the hint (it ends at or before the start of the hint, or starts at or after its
  end, and does not start at the start of the hint) leaves the hint as it was. The
  statement says nothing about a run that starts before the hint and reaches into it.
\<close>

theorem Allocate_largest_hint:
  assumes res: "AllocationGroup_Allocate volume grp bm start len = Some (status, grp', bm')"
    and valid: "fLargestValid grp"
  shows "(status \<noteq> B_OK \<longrightarrow> \<not> fLargestValid grp')
    \<and> (status = B_OK \<and> fLargestStart grp = start \<longrightarrow>
         fLargestStart grp' = fLargestStart grp + len
         \<and> fLargestLength grp' = fLargestLength grp - len
         \<and> (fLargestValid grp' \<longleftrightarrow>
              \<not> (fLargestLength grp - len < fLargestStart grp + len
                 \<or> fLargestLength grp - len
                      < i32 (fNumBits grp) - (fLargestStart grp + fLargestLength grp))))
    \<and> (status = B_OK \<and> fLargestStart grp < start
           \<and> start < fLargestStart grp + fLargestLength grp \<longrightarrow>
         fLargestStart grp' = fLargestStart grp
         \<and> fLargestLength grp' = start - fLargestStart grp
         \<and> (fLargestValid grp' \<longleftrightarrow>
              \<not> (start - fLargestStart grp < fLargestStart grp
                 \<or> start - fLargestStart grp < i32 (fNumBits grp) - start)))
    \<and> (status = B_OK \<and> 0 \<le> len \<and> fLargestStart grp \<noteq> start
           \<and> (start + len \<le> fLargestStart grp
              \<or> fLargestStart grp + fLargestLength grp \<le> start) \<longrightarrow>
         fLargestValid grp' \<and> fLargestStart grp' = fLargestStart grp
         \<and> fLargestLength grp' = fLargestLength grp)"
proof -
  have grp': "grp' = (if status = B_OK then Allocate_hints grp start len
                      else (Allocate_hints grp start len)\<lparr>fLargestValid := False\<rparr>)"
    using res by (auto simp: AllocationGroup_Allocate_def Let_def split: option.splits)
  show ?thesis
    unfolding grp' using valid
    by (auto simp: Allocate_hints_def Let_def)
qed

theorem Allocate_largest_hint_witness:
  "AllocationGroup_Allocate example_volume example_group1 example_bitmap 0 5
       = Some (B_OK,
           example_group1\<lparr>fFirstFree := 5, fFreeBits := 8187, fLargestStart := 5,
             fLargestLength := 8187\<rparr>,
           example_bitmap(2 := zero_block(0 := 31)))
   \<and> fLargestValid example_group1 \<and> fLargestStart example_group1 = 0
   \<and> fLargestStart (example_group1\<lparr>fFirstFree := 5, fFreeBits := 8187, fLargestStart := 5,
                       fLargestLength := 8187\<rparr>) = fLargestStart example_group1 + 5
   \<and> fLargestLength (example_group1\<lparr>fFirstFree := 5, fFreeBits := 8187, fLargestStart := 5,
                       fLargestLength := 8187\<rparr>) = fLargestLength example_group1 - 5"
  using Allocate_largest_hint [OF example_Allocate] example_Allocate
  by simp

text \<open>
  A run that starts before the hint leaves the hint as it was, also when it reaches into
  the hint: \<^verbatim>\<open>AllocationGroup::Allocate\<close> tests only whether the run starts at the start of
  the hint or inside it. The hint then stays valid over bits that the run has allocated.
\<close>

lemma Allocate_hints_before_hint:
  assumes "fLargestValid grp" "start < fLargestStart grp"
  shows "fLargestValid (Allocate_hints grp start len)
    \<and> fLargestStart (Allocate_hints grp start len) = fLargestStart grp
    \<and> fLargestLength (Allocate_hints grp start len) = fLargestLength grp"
  using assms by (simp add: Allocate_hints_def Let_def)

text \<open>
  C1 (corrected). The claim: after initialization and after every allocate or free
  operation on a group, \<open>fFreeBits\<close> equals the number of unset bits of the group and lies
  within \<open>[0, fNumBits]\<close>. The group operations do not look at the bits they are given: in
  the empty group 1 of the example volume, where the count is right, freeing the run
  \<open>(start 0, length 5)\<close>, which is not allocated, succeeds and leaves \<open>fFreeBits = 8197\<close> for
  8192 bits, all of them unset.
\<close>

theorem Free_breaks_free_bit_count_counterexample:
  "fFreeBits example_group1 = free_bit_count example_volume example_bitmap example_group1
   \<and> AllocationGroup_Free example_volume example_group1 example_bitmap 0 5
       = Some (B_OK, example_group1\<lparr>fFreeBits := 8197\<rparr>, example_bitmap)
   \<and> fNumBits (example_group1\<lparr>fFreeBits := 8197\<rparr>)
       < fFreeBits (example_group1\<lparr>fFreeBits := 8197\<rparr>)
   \<and> fFreeBits (example_group1\<lparr>fFreeBits := 8197\<rparr>)
       \<noteq> free_bit_count example_volume example_bitmap (example_group1\<lparr>fFreeBits := 8197\<rparr>)"
proof -
  have "free_bit_count example_volume example_bitmap (example_group1\<lparr>fFreeBits := 8197\<rparr>)
          = 8192"
    by (simp add: free_bit_count_cong [of _ example_group1] example_group1_count)
  then show ?thesis
    by (simp add: example_Free example_group1_count)
qed

text \<open>
  The reserved prefix at mount time. \<^verbatim>\<open>_Initialize\<close> checks after the scan that the
  reserved prefix is allocated and, when it is not and the volume is writable, allocates
  it in group 0 with \<^verbatim>\<open>groups[0].Allocate(transaction, 0, reservedBlocks)\<close>. This is a
  group allocate of a run some of whose bits are set already. On the example volume with
  only the blocks 0 to 4 marked, the scan counts 8187 free bits in group 0; the
  allocation of the run \<open>(start 0, length 8)\<close> returns \<^verbatim>\<open>B_OK\<close> and leaves \<open>fFreeBits = 8179\<close>
  for 8184 unset bits.
\<close>

lemma mount_reserve_free_bit_count:
  assumes raw: "length raw = 2"
  shows "fFreeBits (mounted_groups example_volume example_mount unreserved_bitmap raw ! 0) = 8187
   \<and> free_bit_count example_volume unreserved_bitmap
        (mounted_groups example_volume example_mount unreserved_bitmap raw ! 0) = 8187
   \<and> (\<exists>grp' bm'. AllocationGroup_Allocate example_volume
                     (mounted_groups example_volume example_mount unreserved_bitmap raw ! 0)
                     unreserved_bitmap 0 8 = Some (B_OK, grp', bm')
          \<and> fFreeBits grp' = 8179 \<and> free_bit_count example_volume bm' grp' = 8184)"
proof -
  let ?G = "mounted_groups example_volume example_mount unreserved_bitmap raw ! 0"
  note f = example_mounted_group0 [OF raw, of unreserved_bitmap]
  have b: "unreserved_bitmap (fStart ?G) = zero_block(0 := mask 5)"
    by (simp add: f unreserved_bitmap_block)
  have cnt: "free_bit_count example_volume unreserved_bitmap ?G = 8187"
    using low_bits_count [of unreserved_bitmap ?G 5, OF b _ f(1)] by simp
  have "fFreeBits ?G = free_bit_count example_volume unreserved_bitmap ?G"
    using raw f by (intro mounted_group_count(1)) simp_all
  with cnt have fb: "fFreeBits ?G = 8187" by simp
  have rng: "(0::int) \<le> 0" "(0::int) < 65536" "(0::int) \<le> 8" "(8::int) \<le> 65535"
    "0 + 8 \<le> fNumBits ?G"
    by (simp_all add: f(1))
  show ?thesis
  proof (rule AllocationGroup_Allocate_group_bits
      [OF f(4) example_geometry(3) rng, of unreserved_bitmap])
    fix bm'
    assume res: "AllocationGroup_Allocate example_volume ?G unreserved_bitmap 0 8
            = Some (B_OK, Allocate_hints ?G 0 8, bm')"
      and bits: "\<And>p grp'. 0 \<le> p \<Longrightarrow> fStart grp' = fStart ?G \<Longrightarrow>
         group_bit example_volume bm' grp' p
           \<longleftrightarrow> group_bit example_volume unreserved_bitmap grp' p \<or> (0 \<le> p \<and> p < 0 + 8)"
    have "{p \<in> {0..<8192}. \<not> group_bit example_volume bm' ?G p} = {8..<8192}"
      using bits [OF _ refl] low_bits_group_bit [of unreserved_bitmap ?G 5, OF b] by auto
    then have "free_bit_count example_volume bm' ?G = 8184"
      by (simp add: free_bit_count_def f(1))
    then have "free_bit_count example_volume bm' (Allocate_hints ?G 0 8) = 8184"
      by (simp add: free_bit_count_cong [of "Allocate_hints ?G 0 8" ?G])
    moreover have "fFreeBits (Allocate_hints ?G 0 8) = 8179"
      by (simp add: hints_counters fb)
    ultimately show ?thesis using res fb cnt by blast
  qed
qed


text \<open>
  C1 as amended. A group is within the limits of the format when the blocks have at most
  8192 bytes and the group has at most 65536 bits. After initialization the free bits of
  a group are the unset bits of its region of the bitmap: for a group as format sets it
  up over cleared bitmap blocks, and for every group within the limits of the format
  whose blocks the mount-time scan has read, when the bits of the group lie in the blocks
  that the scan has read for it (\<open>fBlocksPerGroup\<close> blocks of \<open>2 ^ BlockShift\<close> bytes, a
  multiple of 4) and its bitmap starts where the scan has read it. For every run inside a
  group within the limits of the format, of at most 65535 bits, the group allocate and
  the group free return, with \<^verbatim>\<open>B_OK\<close> when the cache delivers the bitmap blocks of the
  group. If \<open>fFreeBits\<close> is the number of unset bits of the group before, it is so again
  after an allocate that returns \<^verbatim>\<open>B_OK\<close> for a run all of whose bits were unset, and after
  a free that returns \<^verbatim>\<open>B_OK\<close> for a run all of whose bits were set. In all these cases
  \<open>fFreeBits\<close> lies within \<open>[0, fNumBits]\<close>.
\<close>

theorem free_bit_count_maintained:
  assumes g: "valid_geometry volume grp"
    and rng: "0 \<le> start" "start < 65536" "0 \<le> len" "len \<le> 65535"
      "start + len \<le> fNumBits grp"
    and inv: "fFreeBits grp = free_bit_count volume bm grp"
  shows "(0 \<le> numBits \<and> run_free volume bm0 (format_group numBits numBitmapBlocks offset) 0 numBits
          \<longrightarrow> fFreeBits (format_group numBits numBitmapBlocks offset)
                = free_bit_count volume bm0 (format_group numBits numBitmapBlocks offset)
              \<and> 0 \<le> fFreeBits (format_group numBits numBitmapBlocks offset)
              \<and> fFreeBits (format_group numBits numBitmapBlocks offset)
                  \<le> fNumBits (format_group numBits numBitmapBlocks offset))
    \<and> (i < length raw \<and> (\<forall>j\<le>i. read_ok mount (1 + int j * fBlocksPerGroup mount))
         \<and> 4 dvd BlockSize volume \<and> BlockSize volume = 2 ^ nat (BlockShift mount)
         \<and> valid_geometry volume (mounted_groups volume mount bm0 raw ! i)
         \<and> fNumBits (mounted_groups volume mount bm0 raw ! i)
              \<le> fBlocksPerGroup mount * bitsPerBlock volume
         \<and> fStart (mounted_groups volume mount bm0 raw ! i) = 1 + int i * fBlocksPerGroup mount
          \<longrightarrow> fFreeBits (mounted_groups volume mount bm0 raw ! i)
                = free_bit_count volume bm0 (mounted_groups volume mount bm0 raw ! i)
              \<and> 0 \<le> fFreeBits (mounted_groups volume mount bm0 raw ! i)
              \<and> fFreeBits (mounted_groups volume mount bm0 raw ! i)
                  \<le> fNumBits (mounted_groups volume mount bm0 raw ! i))
    \<and> (\<exists>st grp' bm'. AllocationGroup_Allocate volume grp bm start len = Some (st, grp', bm')
          \<and> (group_readable volume grp \<longrightarrow> st = B_OK)
          \<and> (st = B_OK \<and> run_free volume bm grp start len \<longrightarrow>
                fFreeBits grp' = free_bit_count volume bm' grp'
                \<and> 0 \<le> fFreeBits grp' \<and> fFreeBits grp' \<le> fNumBits grp'))
    \<and> (\<exists>st grp' bm'. AllocationGroup_Free volume grp bm start len = Some (st, grp', bm')
          \<and> (group_readable volume grp \<longrightarrow> st = B_OK)
          \<and> (st = B_OK \<and> run_used volume bm grp start len \<longrightarrow>
                fFreeBits grp' = free_bit_count volume bm' grp'
                \<and> 0 \<le> fFreeBits grp' \<and> fFreeBits grp' \<le> fNumBits grp'))"
proof (intro conjI)
  show "0 \<le> numBits \<and> run_free volume bm0 (format_group numBits numBitmapBlocks offset) 0 numBits
          \<longrightarrow> fFreeBits (format_group numBits numBitmapBlocks offset)
                = free_bit_count volume bm0 (format_group numBits numBitmapBlocks offset)
              \<and> 0 \<le> fFreeBits (format_group numBits numBitmapBlocks offset)
              \<and> fFreeBits (format_group numBits numBitmapBlocks offset)
                  \<le> fNumBits (format_group numBits numBitmapBlocks offset)"
    using free_bit_count_cleared [of "format_group numBits numBitmapBlocks offset" volume bm0]
    by (simp add: format_group_def)
next
  show "i < length raw \<and> (\<forall>j\<le>i. read_ok mount (1 + int j * fBlocksPerGroup mount))
         \<and> 4 dvd BlockSize volume \<and> BlockSize volume = 2 ^ nat (BlockShift mount)
         \<and> valid_geometry volume (mounted_groups volume mount bm0 raw ! i)
         \<and> fNumBits (mounted_groups volume mount bm0 raw ! i)
              \<le> fBlocksPerGroup mount * bitsPerBlock volume
         \<and> fStart (mounted_groups volume mount bm0 raw ! i) = 1 + int i * fBlocksPerGroup mount
          \<longrightarrow> fFreeBits (mounted_groups volume mount bm0 raw ! i)
                = free_bit_count volume bm0 (mounted_groups volume mount bm0 raw ! i)
              \<and> 0 \<le> fFreeBits (mounted_groups volume mount bm0 raw ! i)
              \<and> fFreeBits (mounted_groups volume mount bm0 raw ! i)
                  \<le> fNumBits (mounted_groups volume mount bm0 raw ! i)"
    using mounted_group_count [of i raw mount volume bm0] by blast
next
  let ?h = "Allocate_hints grp start len"
  show "\<exists>st grp' bm'. AllocationGroup_Allocate volume grp bm start len = Some (st, grp', bm')
          \<and> (group_readable volume grp \<longrightarrow> st = B_OK)
          \<and> (st = B_OK \<and> run_free volume bm grp start len \<longrightarrow>
                fFreeBits grp' = free_bit_count volume bm' grp'
                \<and> 0 \<le> fFreeBits grp' \<and> fFreeBits grp' \<le> fNumBits grp')"
  proof (rule AllocationGroup_Allocate_returns [OF g rng, of bm])
    fix st bm'
    let ?g = "if st = B_OK then ?h else ?h\<lparr>fLargestValid := False\<rparr>"
    assume res: "AllocationGroup_Allocate volume grp bm start len = Some (st, ?g, bm')"
      and rd: "group_readable volume grp \<Longrightarrow> st = B_OK"
      and bits: "\<And>p grp'. 0 \<le> p \<Longrightarrow> fStart grp' = fStart grp \<Longrightarrow>
         (group_bit volume bm grp' p \<longrightarrow> group_bit volume bm' grp' p)
         \<and> (group_bit volume bm' grp' p \<longrightarrow>
              group_bit volume bm grp' p \<or> (start \<le> p \<and> p < start + len))
         \<and> (st = B_OK \<longrightarrow> start \<le> p \<and> p < start + len \<longrightarrow> group_bit volume bm' grp' p)"
    have after: "fFreeBits ?g = free_bit_count volume bm' ?g
                \<and> 0 \<le> fFreeBits ?g \<and> fFreeBits ?g \<le> fNumBits ?g"
      if ok: "st = B_OK" and fr: "run_free volume bm grp start len"
    proof -
      have exact: "group_bit volume bm' grp p
                     \<longleftrightarrow> group_bit volume bm grp p \<or> (start \<le> p \<and> p < start + len)"
        if "0 \<le> p" for p
        using bits [OF that refl] ok by blast
      have cnt: "free_bit_count volume bm' ?h = free_bit_count volume bm grp - len"
        and le: "len \<le> free_bit_count volume bm grp"
        using free_bit_count_Allocate [OF rng(1,3,5) fr exact, of ?h] by simp_all
      have "fFreeBits ?h = free_bit_count volume bm' ?h"
        using cnt inv by (simp add: hints_counters)
      moreover have "0 \<le> fFreeBits ?h" using le inv by (simp add: hints_counters)
      moreover have "fFreeBits ?h \<le> fNumBits ?h"
        using free_bit_count_bounds(2) [of grp volume bm] g inv rng
        by (simp add: hints_counters valid_geometry_def)
      ultimately show ?thesis using ok by simp
    qed
    from res rd after show ?thesis by blast
  qed
next
  let ?g = "Free_hints grp start len"
  show "\<exists>st grp' bm'. AllocationGroup_Free volume grp bm start len = Some (st, grp', bm')
          \<and> (group_readable volume grp \<longrightarrow> st = B_OK)
          \<and> (st = B_OK \<and> run_used volume bm grp start len \<longrightarrow>
                fFreeBits grp' = free_bit_count volume bm' grp'
                \<and> 0 \<le> fFreeBits grp' \<and> fFreeBits grp' \<le> fNumBits grp')"
  proof (rule AllocationGroup_Free_returns [OF g rng, of bm])
    fix st bm'
    assume res: "AllocationGroup_Free volume grp bm start len = Some (st, ?g, bm')"
      and rd: "group_readable volume grp \<Longrightarrow> st = B_OK"
      and bits: "\<And>p grp'. 0 \<le> p \<Longrightarrow> fStart grp' = fStart grp \<Longrightarrow>
         (group_bit volume bm' grp' p \<longrightarrow> group_bit volume bm grp' p)
         \<and> (group_bit volume bm grp' p \<longrightarrow>
              group_bit volume bm' grp' p \<or> (start \<le> p \<and> p < start + len))
         \<and> (st = B_OK \<longrightarrow> start \<le> p \<and> p < start + len \<longrightarrow> \<not> group_bit volume bm' grp' p)"
    have after: "fFreeBits ?g = free_bit_count volume bm' ?g
                \<and> 0 \<le> fFreeBits ?g \<and> fFreeBits ?g \<le> fNumBits ?g"
      if ok: "st = B_OK" and us: "run_used volume bm grp start len"
    proof -
      have exact: "group_bit volume bm' grp p
                     \<longleftrightarrow> group_bit volume bm grp p \<and> \<not> (start \<le> p \<and> p < start + len)"
        if "0 \<le> p" for p
        using bits [OF that refl] ok by blast
      have cnt: "free_bit_count volume bm' ?g = free_bit_count volume bm grp + len"
        using free_bit_count_Free [OF rng(1,3,5) us exact, of ?g] by simp
      have eq: "fFreeBits ?g = free_bit_count volume bm' ?g"
        using cnt inv by (simp add: hints_counters)
      moreover have "0 \<le> fFreeBits ?g" unfolding eq by (rule free_bit_count_bounds(1))
      moreover have "fFreeBits ?g \<le> fNumBits ?g"
        unfolding eq using free_bit_count_bounds(2) [of ?g volume bm'] g
        by (simp add: valid_geometry_def)
      ultimately show ?thesis by simp
    qed
    from res rd after show ?thesis by blast
  qed
qed

theorem free_bit_count_maintained_witness:
  "run_free example_volume example_bitmap example_group1 0 5
   \<and> fFreeBits example_group1 = free_bit_count example_volume example_bitmap example_group1
   \<and> (\<exists>grp' bm'. AllocationGroup_Allocate example_volume example_group1 example_bitmap 0 5
                    = Some (B_OK, grp', bm')
         \<and> fFreeBits grp' = free_bit_count example_volume bm' grp'
         \<and> 0 \<le> fFreeBits grp' \<and> fFreeBits grp' \<le> fNumBits grp')
   \<and> fFreeBits (mounted_groups example_volume example_mount example_bitmap
                   [example_group0, example_group1] ! 0)
       = free_bit_count example_volume example_bitmap
           (mounted_groups example_volume example_mount example_bitmap
              [example_group0, example_group1] ! 0)
   \<and> fFreeBits (mounted_groups example_volume example_mount example_bitmap
                   [example_group0, example_group1] ! 0) = 8184"
proof -
  let ?raw = "[example_group0, example_group1]"
  let ?G = "mounted_groups example_volume example_mount example_bitmap ?raw ! 0"
  have fr: "run_free example_volume example_bitmap example_group1 0 5"
    using example_group1_free by (simp add: run_free_def)
  have inv: "fFreeBits example_group1
               = free_bit_count example_volume example_bitmap example_group1"
    by (simp add: example_group1_count)
  have prem: "valid_geometry example_volume example_group1" "(0::int) \<le> 0" "(0::int) < 65536"
    "(0::int) \<le> 5" "(5::int) \<le> 65535" "0 + 5 \<le> fNumBits example_group1"
    by simp_all
  note t = free_bit_count_maintained [OF prem inv,
      where mount = example_mount and raw = ?raw and i = 0 and ?bm0.0 = example_bitmap]
  note f = example_mounted_group0 [of ?raw example_bitmap]
  have b: "example_bitmap (fStart ?G) = zero_block(0 := mask 8)"
    by (simp only: f(3) [simplified] example_bitmap_block)
  have cnt: "free_bit_count example_volume example_bitmap ?G = 8184"
    using low_bits_count [of example_bitmap ?G 8, OF b] f by simp
  from t [THEN conjunct2, THEN conjunct1] f
  have m: "fFreeBits ?G = free_bit_count example_volume example_bitmap ?G" by simp
  from t [THEN conjunct2, THEN conjunct2, THEN conjunct1] fr
  have a: "\<exists>grp' bm'. AllocationGroup_Allocate example_volume example_group1 example_bitmap 0 5
                    = Some (B_OK, grp', bm')
         \<and> fFreeBits grp' = free_bit_count example_volume bm' grp'
         \<and> 0 \<le> fFreeBits grp' \<and> fFreeBits grp' \<le> fNumBits grp'"
    by auto
  from fr inv a m cnt show ?thesis by simp
qed

text \<open>
  C4. Let the allocator be consistent with the bitmap (every group's bitmap blocks are
  delivered by the cache, its counters and hints agree with its bits), and let
  \<open>1 \<le> minimum \<le> maximum\<close>. Then \<^verbatim>\<open>AllocateBlocks\<close> returns \<^verbatim>\<open>B_DEVICE_FULL\<close> exactly
  when the best run of its search is shorter than \<open>minimum\<close>, which is exactly when no
  group holds a free run of \<open>minimum\<close> bits. When \<open>minimum = 1\<close> and the longest free run
  of the volume has \<open>L < maximum\<close> bits, the call returns \<^verbatim>\<open>B_OK\<close> and a run of exactly \<open>L\<close>
  blocks.
\<close>

theorem AllocateBlocks_device_full_iff:
  assumes cons: "allocator_consistent volume alloc"
    and mn: "1 \<le> minimum" "minimum \<le> maximum" and mx: "maximum \<le> 65535"
    and gidx: "0 \<le> groupIndex" and start: "0 \<le> start" "start < 65536"
  shows "(map_option fst (BlockAllocator_AllocateBlocks volume alloc groupIndex start
              maximum minimum) = Some B_DEVICE_FULL
            \<longleftrightarrow> best_found volume alloc groupIndex start maximum < minimum)
         \<and> (map_option fst (BlockAllocator_AllocateBlocks volume alloc groupIndex start
              maximum minimum) = Some B_DEVICE_FULL
            \<longleftrightarrow> \<not> free_run_of volume alloc minimum)
         \<and> (minimum = 1 \<and> longest_free_run volume alloc L \<and> L < maximum \<longrightarrow>
              (\<exists>alloc' run. BlockAllocator_AllocateBlocks volume alloc groupIndex start
                                maximum minimum = Some (B_OK, alloc', Some run)
                 \<and> run_length run = L))"
proof -
  from mn have mx0: "0 < maximum" by simp
  from AllocateBlocks_best [OF cons mx0 gidx start] obtain groups' s' where
    res: "search_groups volume (fBitmap alloc) (fNumGroups alloc) maximum 0 groupIndex start
       (fGroups alloc) initial_search = (B_OK, groups', s')"
    and ginv: "groups_inv volume (fBitmap alloc) (fGroups alloc) groups'"
    and bs: "best_sound volume (fBitmap alloc) (fGroups alloc) s'"
    and bf: "best_found volume alloc groupIndex start maximum = bestLength s'"
    and snd: "1 \<le> bestLength s' \<Longrightarrow> free_run_of volume alloc (bestLength s')"
    and cmp: "\<And>l. free_run_of volume alloc l
                \<Longrightarrow> l \<le> bestLength s' \<or> maximum \<le> bestLength s'"
    by blast
  let ?r = "BlockAllocator_AllocateBlocks volume alloc groupIndex start maximum minimum"
  have full: "map_option fst ?r = Some B_DEVICE_FULL" if "bestLength s' < minimum"
    unfolding AllocateBlocks_unfold res using that mx0 by simp
  have ok: "\<exists>alloc'. ?r = Some (B_OK, alloc',
              Some \<lparr>run_allocation_group = bestGroup s', run_start = bestStart s',
                    run_length = chosen_length maximum minimum (bestLength s')\<rparr>)"
    if "minimum \<le> bestLength s'"
  proof (rule AllocateBlocks_commit [OF cons mx0 mx mn(1) res ginv bs that])
    fix bm1
    assume "?r = Some (B_OK,
           alloc\<lparr>fGroups := groups'[nat (bestGroup s') :=
                   Allocate_hints (groups' ! nat (bestGroup s')) (bestStart s')
                     (chosen_length maximum minimum (bestLength s'))],
                 fBitmap := bm1,
                 used_blocks := used_blocks alloc
                   + chosen_length maximum minimum (bestLength s')\<rparr>,
           Some \<lparr>run_allocation_group = bestGroup s', run_start = bestStart s',
                 run_length = chosen_length maximum minimum (bestLength s')\<rparr>)"
    then show ?thesis by (rule exI)
  qed
  have a: "map_option fst ?r = Some B_DEVICE_FULL \<longleftrightarrow> bestLength s' < minimum"
    using full ok by (cases "bestLength s' < minimum") auto
  have b: "bestLength s' < minimum \<longleftrightarrow> \<not> free_run_of volume alloc minimum"
  proof
    assume lt: "bestLength s' < minimum"
    show "\<not> free_run_of volume alloc minimum"
    proof
      assume "free_run_of volume alloc minimum"
      from cmp [OF this] lt mn show False by simp
    qed
  next
    assume no: "\<not> free_run_of volume alloc minimum"
    show "bestLength s' < minimum"
    proof (rule ccontr)
      assume "\<not> bestLength s' < minimum"
      then have ge: "minimum \<le> bestLength s'" by simp
      with mn have "free_run_of volume alloc (bestLength s')" by (intro snd) simp
      then have "free_run_of volume alloc minimum"
        unfolding free_run_of_def using free_run_in_shorter [OF _ mn(1) ge] by blast
      with no show False ..
    qed
  qed
  have c: "\<exists>alloc' run. ?r = Some (B_OK, alloc', Some run) \<and> run_length run = L"
    if m1: "minimum = 1" and lg: "longest_free_run volume alloc L" and lt: "L < maximum"
  proof -
    from lg have ex: "free_run_of volume alloc L"
      and top: "\<And>l. free_run_of volume alloc l \<Longrightarrow> l \<le> L"
      unfolding longest_free_run_def by blast+
    from ex have L1: "1 \<le> L" by (auto simp: free_run_of_def free_run_in_def)
    have le: "bestLength s' \<le> L"
    proof (cases "1 \<le> bestLength s'")
      case True
      from top [OF snd [OF True]] show ?thesis .
    next
      case False
      with L1 show ?thesis by simp
    qed
    with lt cmp [OF ex] have eq: "bestLength s' = L" by simp
    with L1 m1 have ge: "minimum \<le> bestLength s'" by simp
    have "chosen_length maximum minimum (bestLength s') = L"
      using eq lt m1 by (simp add: chosen_length_def)
    with ok [OF ge] show ?thesis by auto
  qed
  from a b c show ?thesis unfolding bf by blast
qed

theorem AllocateBlocks_device_full_iff_witness:
  "allocator_consistent example_volume example_allocator
   \<and> longest_free_run example_volume example_allocator 8192
   \<and> free_run_of example_volume example_allocator 1
   \<and> 1 \<le> best_found example_volume example_allocator 0 0 10000
   \<and> map_option fst (BlockAllocator_AllocateBlocks example_volume example_allocator 0 0
          10000 1) \<noteq> Some B_DEVICE_FULL
   \<and> (\<exists>alloc' run. BlockAllocator_AllocateBlocks example_volume example_allocator 0 0
                        10000 1 = Some (B_OK, alloc', Some run)
         \<and> run_length run = 8192)"
proof -
  have prem: "(1::int) \<le> 1" "(1::int) \<le> 10000" "(10000::int) \<le> 65535" "(0::int) \<le> 0"
    "(0::int) \<le> 0" "(0::int) < 65536"
    by simp_all
  note t = AllocateBlocks_device_full_iff [OF example_allocator_consistent prem,
      where L = 8192]
  note a = t [THEN conjunct1] and b = t [THEN conjunct2, THEN conjunct1]
    and c = t [THEN conjunct2, THEN conjunct2]
  have ok: "\<exists>alloc' run. BlockAllocator_AllocateBlocks example_volume example_allocator 0 0
                        10000 1 = Some (B_OK, alloc', Some run)
         \<and> run_length run = 8192"
    using c example_longest by simp
  then have nf: "map_option fst (BlockAllocator_AllocateBlocks example_volume
                   example_allocator 0 0 10000 1) \<noteq> Some B_DEVICE_FULL"
    by auto
  from a nf have "\<not> best_found example_volume example_allocator 0 0 10000 < 1" by blast
  then have bf: "1 \<le> best_found example_volume example_allocator 0 0 10000" by simp
  from b nf have "free_run_of example_volume example_allocator 1" by blast
  with ok nf bf example_allocator_consistent example_longest show ?thesis by blast
qed

text \<open>
  C5. The search starts at the group of the caller's hint and goes round the groups, the
  start offset being 0 from the second group on. Let the allocator be consistent with
  the bitmap and \<open>1 \<le> minimum \<le> maximum\<close>. If the hint group is full and some group holds
  a free run of \<open>minimum\<close> bits, \<^verbatim>\<open>AllocateBlocks\<close> returns \<^verbatim>\<open>B_OK\<close> and a run of at least
  \<open>minimum\<close> blocks that lies in another group than the hint group and was free.
\<close>

theorem AllocateBlocks_full_hint_group:
  assumes cons: "allocator_consistent volume alloc"
    and mn: "1 \<le> minimum" "minimum \<le> maximum" and mx: "maximum \<le> 65535"
    and gidx: "0 \<le> groupIndex" and start: "0 \<le> start" "start < 65536"
    and hint: "IsFull (fGroups alloc ! nat (groupIndex mod fNumGroups alloc))"
    and other: "free_run_of volume alloc minimum"
  shows "\<exists>alloc' run. BlockAllocator_AllocateBlocks volume alloc groupIndex start maximum
                           minimum = Some (B_OK, alloc', Some run)
           \<and> run_allocation_group run \<noteq> groupIndex mod fNumGroups alloc
           \<and> 0 \<le> run_allocation_group run \<and> run_allocation_group run < fNumGroups alloc
           \<and> minimum \<le> run_length run \<and> run_length run \<le> maximum
           \<and> free_run_in volume (fBitmap alloc)
                (fGroups alloc ! nat (run_allocation_group run)) (run_start run)
                (run_length run)"
proof -
  let ?bm = "fBitmap alloc" and ?g0 = "fGroups alloc" and ?n = "fNumGroups alloc"
  from mn have mx0: "0 < maximum" by simp
  from cons have n: "?n = int (length ?g0)" "0 < ?n"
    unfolding allocator_consistent_def by blast+
  from AllocateBlocks_best [OF cons mx0 gidx start] obtain groups' s' where
    res: "search_groups volume ?bm ?n maximum 0 groupIndex start ?g0 initial_search
            = (B_OK, groups', s')"
    and ginv: "groups_inv volume ?bm ?g0 groups'"
    and bs: "best_sound volume ?bm ?g0 s'"
    and cmp: "\<And>l. free_run_of volume alloc l
                \<Longrightarrow> l \<le> bestLength s' \<or> maximum \<le> bestLength s'"
    by blast
  from cmp [OF other] mn have ge: "minimum \<le> bestLength s'" by auto
  let ?len = "chosen_length maximum minimum (bestLength s')"
  let ?bg = "nat (bestGroup s')"
  note lb = chosen_length_bounds [OF mx0 mn(1) ge]
  show ?thesis
  proof (rule AllocateBlocks_commit [OF cons mx0 mx mn(1) res ginv bs ge])
  fix bm1
  assume r: "BlockAllocator_AllocateBlocks volume alloc groupIndex start maximum minimum
       = Some (B_OK,
           alloc\<lparr>fGroups := groups'[?bg := Allocate_hints (groups' ! ?bg) (bestStart s') ?len],
                 fBitmap := bm1, used_blocks := used_blocks alloc + ?len\<rparr>,
           Some \<lparr>run_allocation_group = bestGroup s', run_start = bestStart s',
                 run_length = ?len\<rparr>)"
    and bg: "0 \<le> bestGroup s'" "?bg < length ?g0"
    and st0: "0 \<le> bestStart s'"
    and fit: "bestStart s' + ?len \<le> fNumBits (?g0 ! ?bg)"
    and fr: "run_free volume ?bm (?g0 ! ?bg) (bestStart s') ?len"
  have fri: "free_run_in volume ?bm (?g0 ! ?bg) (bestStart s') ?len"
    using st0 lb(1) fit fr by (simp add: free_run_in_def)
  have ne: "bestGroup s' \<noteq> groupIndex mod ?n"
  proof
    assume e: "bestGroup s' = groupIndex mod ?n"
    let ?h = "?g0 ! nat (groupIndex mod ?n)"
    have "0 \<le> groupIndex mod ?n" "groupIndex mod ?n < ?n" using n(2) by simp_all
    then have hl: "nat (groupIndex mod ?n) < length ?g0" unfolding n(1) by linarith
    with cons have "group_consistent volume ?bm ?h"
      unfolding allocator_consistent_def by blast
    with hint have z: "free_bit_count volume ?bm ?h = 0"
      by (simp add: group_consistent_def IsFull_def)
    from free_run_in_bit [OF fri] e
    have "0 \<le> bestStart s'" "bestStart s' < fNumBits ?h"
      "\<not> group_bit volume ?bm ?h (bestStart s')" by simp_all
    with free_bit_count_zero [OF z] show False by blast
  qed
  have lt: "bestGroup s' < ?n" using bg n by simp
  show ?thesis
    using r ne bg(1) lt lb(3,4) mn(2) fri
    by (intro exI [of _ "alloc\<lparr>fGroups := groups'[?bg :=
                             Allocate_hints (groups' ! ?bg) (bestStart s') ?len],
                           fBitmap := bm1, used_blocks := used_blocks alloc + ?len\<rparr>"]
          exI [of _ "\<lparr>run_allocation_group = bestGroup s', run_start = bestStart s',
                      run_length = ?len\<rparr>"])
       simp
  qed
qed

theorem AllocateBlocks_full_hint_group_witness:
  "allocator_consistent example_volume full_allocator
   \<and> IsFull (fGroups full_allocator ! 0)
   \<and> free_run_of example_volume full_allocator 3
   \<and> (\<exists>alloc' run. BlockAllocator_AllocateBlocks example_volume full_allocator 0 0 10 3
                        = Some (B_OK, alloc', Some run)
         \<and> run_allocation_group run = 1 \<and> 3 \<le> run_length run \<and> run_length run \<le> 10)"
proof -
  have f: "IsFull (fGroups full_allocator ! 0)"
    by (simp add: full_allocator_def IsFull_def)
  have n: "fNumGroups full_allocator = 2" by (simp add: full_allocator_def)
  from AllocateBlocks_full_hint_group [OF full_allocator_consistent, of 3 10 0 0]
    f full_allocator_run
  obtain alloc' run where
    r: "BlockAllocator_AllocateBlocks example_volume full_allocator 0 0 10 3
          = Some (B_OK, alloc', Some run)"
    and g: "run_allocation_group run \<noteq> 0" "0 \<le> run_allocation_group run"
      "run_allocation_group run < 2"
    and l: "3 \<le> run_length run" "run_length run \<le> 10"
    unfolding n by auto
  from g have "run_allocation_group run = 1" by simp
  with r l full_allocator_consistent f full_allocator_run show ?thesis by blast
qed

text \<open>
  C6. Let the allocator be consistent with the bitmap and the reserved prefix be marked,
  and let \<open>1 \<le> minimum\<close>. When \<^verbatim>\<open>AllocateBlocks\<close> returns \<^verbatim>\<open>B_OK\<close> and a run, the run was free
  before the call, the call has set exactly the bits of the run, and \<^verbatim>\<open>Free\<close> of the same
  run on the resulting allocator returns \<^verbatim>\<open>B_OK\<close> and leaves the bitmap as it was before
  the allocation.
\<close>

theorem allocate_then_free_restores_bitmap:
  assumes cons: "allocator_consistent volume alloc"
    and rsv: "reserved_allocated volume alloc"
    and mn: "1 \<le> minimum" and mx: "0 \<le> maximum" "maximum \<le> 65535"
    and gidx: "0 \<le> groupIndex" and start: "0 \<le> start" "start < 65536"
    and al: "BlockAllocator_AllocateBlocks volume alloc groupIndex start maximum minimum
               = Some (B_OK, alloc1, Some run)"
  shows "run_free volume (fBitmap alloc) (fGroups alloc ! nat (run_allocation_group run))
           (run_start run) (run_length run)
         \<and> (\<forall>p\<ge>0. group_bit volume (fBitmap alloc1)
                      (fGroups alloc ! nat (run_allocation_group run)) p
                 \<longleftrightarrow> group_bit volume (fBitmap alloc)
                       (fGroups alloc ! nat (run_allocation_group run)) p
                     \<or> (run_start run \<le> p \<and> p < run_start run + run_length run))
         \<and> (\<exists>alloc2. BlockAllocator_Free volume alloc1 run = Some (B_OK, alloc2)
               \<and> fBitmap alloc2 = fBitmap alloc)"
proof -
  let ?bm = "fBitmap alloc" and ?g0 = "fGroups alloc" and ?n = "fNumGroups alloc"
  from al have "maximum \<noteq> 0" by (auto simp: BlockAllocator_AllocateBlocks_def)
  with mx have mx0: "0 < maximum" by simp
  from cons have n: "?n = int (length ?g0)" "0 < ?n"
    unfolding allocator_consistent_def by blast+
  from AllocateBlocks_best [OF cons mx0 gidx start] obtain groups' s' where
    res: "search_groups volume ?bm ?n maximum 0 groupIndex start ?g0 initial_search
            = (B_OK, groups', s')"
    and ginv: "groups_inv volume ?bm ?g0 groups'"
    and bs: "best_sound volume ?bm ?g0 s'"
    by blast
  have ge: "minimum \<le> bestLength s'"
  proof (rule ccontr)
    assume "\<not> minimum \<le> bestLength s'"
    then have "BlockAllocator_AllocateBlocks volume alloc groupIndex start maximum minimum
                 = Some (B_DEVICE_FULL, alloc\<lparr>fGroups := groups'\<rparr>, None)"
      unfolding AllocateBlocks_unfold res using mx0 by simp
    with al show False by simp
  qed
  let ?len = "chosen_length maximum minimum (bestLength s')"
  let ?bg = "nat (bestGroup s')"
  let ?S = "bestStart s'"
  let ?g1 = "Allocate_hints (groups' ! ?bg) ?S ?len"
  note lb = chosen_length_bounds [OF mx0 mn ge]
  show ?thesis
  proof (rule AllocateBlocks_commit [OF cons mx0 mx(2) mn res ginv bs ge])
    fix bm1
    assume r: "BlockAllocator_AllocateBlocks volume alloc groupIndex start maximum minimum
       = Some (B_OK,
           alloc\<lparr>fGroups := groups'[?bg := ?g1],
                 fBitmap := bm1, used_blocks := used_blocks alloc + ?len\<rparr>,
           Some \<lparr>run_allocation_group = bestGroup s', run_start = ?S,
                 run_length = ?len\<rparr>)"
      and bits: "\<And>B c k. k < 32 \<Longrightarrow>
         (bit (bm1 B c) k \<longleftrightarrow>
            bit (?bm B c) k
            \<or> run_chunk_bit (bitsPerBlock volume) (fStart (?g0 ! ?bg)) ?S ?len B c k)"
      and bg: "0 \<le> bestGroup s'" "?bg < length ?g0"
      and st0: "0 \<le> ?S"
      and fit: "?S + ?len \<le> fNumBits (?g0 ! ?bg)"
      and fr: "run_free volume ?bm (?g0 ! ?bg) ?S ?len"
      and vg: "valid_geometry volume (?g0 ! ?bg)"
      and rd: "group_readable volume (?g0 ! ?bg)"
    from al r have a1: "alloc1 = alloc\<lparr>fGroups := groups'[?bg := ?g1],
                 fBitmap := bm1, used_blocks := used_blocks alloc + ?len\<rparr>"
      and rn: "run = \<lparr>run_allocation_group = bestGroup s', run_start = ?S,
                 run_length = ?len\<rparr>"
      by simp_all
    have bpb: "0 < bitsPerBlock volume" using bitsPerBlock_bounds(2) [OF vg] by simp
    from ginv bg(2) have lg: "length groups' = length ?g0"
      and same: "fNumBits (groups' ! ?bg) = fNumBits (?g0 ! ?bg)"
        "fStart (groups' ! ?bg) = fStart (?g0 ! ?bg)"
      unfolding groups_inv_def by blast+
    have g1: "fGroups alloc1 ! ?bg = ?g1" using bg(2) lg by (simp add: a1)
    have vg1: "valid_geometry volume ?g1"
      using vg by (simp add: valid_geometry_def same)
    have rd1: "group_readable volume ?g1"
      using rd by (simp add: group_readable_def same)
    from vg have nb: "fNumBits (?g0 ! ?bg) \<le> 65536" by (simp add: valid_geometry_def)
    with fit lb(1) have st1: "?S < 65536" by simp
    have len0: "0 \<le> ?len" "?len \<le> 65535" using lb mx by simp_all
    have fit1: "?S + ?len \<le> fNumBits ?g1" using fit by (simp add: same)
    from AllocationGroup_Free_spec [OF vg1 rd1 st0 st1 len0 fit1, of bm1]
    obtain bm2 where
      fre: "AllocationGroup_Free volume ?g1 bm1 ?S ?len = Some (B_OK, Free_hints ?g1 ?S ?len, bm2)"
      and bits2: "\<And>B c k. k < 32 \<Longrightarrow>
         (bit (bm2 B c) k \<longleftrightarrow>
            bit (bm1 B c) k
            \<and> \<not> run_chunk_bit (bitsPerBlock volume) (fStart (?g0 ! ?bg)) ?S ?len B c k)"
      by (auto simp: same)
    have restored: "bm2 = ?bm" by (rule set_then_clear_run [OF bpb fr bits bits2])
    have first_free: "\<not> group_bit volume ?bm (?g0 ! ?bg) ?S"
      using fr lb(1) by (simp add: run_free_def)
    have nores: "\<not> (bestGroup s' < Log_AllocationGroup volume
                   \<or> (bestGroup s' = Log_AllocationGroup volume
                      \<and> ?S < u32 (u32 (Log_Start volume) + Log_Length volume)))"
    proof
      assume "bestGroup s' < Log_AllocationGroup volume
                   \<or> (bestGroup s' = Log_AllocationGroup volume
                      \<and> ?S < u32 (u32 (Log_Start volume) + Log_Length volume))"
      then have "int ?bg < Log_AllocationGroup volume
                   \<or> (int ?bg = Log_AllocationGroup volume
                      \<and> ?S < u32 (u32 (Log_Start volume) + Log_Length volume))"
        using bg(1) by simp
      moreover have "0 \<le> ?S" "?S < fNumBits (?g0 ! ?bg)" using st0 fit lb(1) by simp_all
      ultimately have "group_bit volume ?bm (?g0 ! ?bg) ?S"
        using rsv bg(2) unfolding reserved_allocated_def by blast
      with first_free show False ..
    qed
    have u: "u32 (?S + ?len) = ?S + ?len"
      using st0 st1 len0 by (simp add: u32_id)
    have fb: "fBitmap alloc1 = bm1" "fNumGroups alloc1 = ?n" by (simp_all add: a1)
    have valid: "\<not> (bestGroup s' < 0 \<or> bestGroup s' \<ge> fNumGroups alloc1
            \<or> ?S > fNumBits (fGroups alloc1 ! ?bg)
            \<or> u32 (?S + ?len) > fNumBits (fGroups alloc1 ! ?bg)
            \<or> ?len = 0)"
      unfolding u g1 fb using bg n fit lb(1) by (simp add: same)
    have fre': "AllocationGroup_Free volume (fGroups alloc1 ! ?bg) (fBitmap alloc1) ?S ?len
                  = Some (B_OK, Free_hints ?g1 ?S ?len, bm2)"
      by (simp only: g1 fb fre)
    have freed: "\<exists>alloc2. BlockAllocator_Free volume alloc1 run = Some (B_OK, alloc2)
                   \<and> fBitmap alloc2 = bm2"
      unfolding BlockAllocator_Free_def Let_def rn block_run.select_convs fre'
      using valid nores by simp
    have grp_bits: "group_bit volume (fBitmap alloc1) (?g0 ! ?bg) p
                 \<longleftrightarrow> group_bit volume ?bm (?g0 ! ?bg) p \<or> (?S \<le> p \<and> p < ?S + ?len)"
      if "0 \<le> p" for p
      unfolding group_bit_chunk
      by (simp add: fb bits run_chunk_bit_position [OF bpb that])
    show ?thesis
      using fr grp_bits freed restored by (simp add: rn)
  qed
qed

theorem allocate_then_free_restores_bitmap_witness:
  "allocator_consistent example_volume example_allocator
   \<and> reserved_allocated example_volume example_allocator
   \<and> (\<exists>alloc1 alloc2.
         BlockAllocator_AllocateBlocks example_volume example_allocator 0 0 10 1
           = Some (B_OK, alloc1, Some \<lparr>run_allocation_group = 0, run_start = 8,
                                        run_length = 10\<rparr>)
         \<and> run_free example_volume example_bitmap example_group0 8 10
         \<and> BlockAllocator_Free example_volume alloc1
              \<lparr>run_allocation_group = 0, run_start = 8, run_length = 10\<rparr>
             = Some (B_OK, alloc2)
         \<and> fBitmap alloc2 = example_bitmap)"
proof -
  have g: "fGroups example_allocator ! 0 = example_group0"
    "fBitmap example_allocator = example_bitmap"
    by (simp_all add: example_allocator_def)
  from allocate_then_free_restores_bitmap [OF example_allocator_consistent example_reserved
      _ _ _ _ _ _ example_AllocateBlocks]
  have "run_free example_volume example_bitmap example_group0 8 10
        \<and> (\<exists>alloc2. BlockAllocator_Free example_volume
              (example_allocator
                 \<lparr>fGroups := [example_group0\<lparr>fFirstFree := 18, fFreeBits := 8174,
                                fLargestStart := 18, fLargestLength := 8174\<rparr>,
                              example_group1],
                  fBitmap := example_bitmap(1 := zero_block(0 := 262143)),
                  used_blocks := 18\<rparr>)
              \<lparr>run_allocation_group = 0, run_start = 8, run_length = 10\<rparr>
              = Some (B_OK, alloc2) \<and> fBitmap alloc2 = example_bitmap)"
    by (simp add: g)
  with example_AllocateBlocks example_allocator_consistent example_reserved
  show ?thesis by blast
qed

text \<open>
  C7 (corrected). The claim: the first-free hint is a lower bound on the first free bit,
  and every operation preserves this. \<^verbatim>\<open>AllocationGroup::Allocate\<close> advances the hint before
  it touches the bitmap and does not take it back when the block cache fails: in the empty
  group 1 of the example volume the hint is 0; the allocation of the run
  \<open>(start 0, length 5)\<close> with a cache that delivers no block returns \<^verbatim>\<open>B_IO_ERROR\<close>, no bit
  is set, and the hint is 5, above the unset bit 0.
\<close>

theorem Allocate_io_error_first_free_counterexample:
  "first_free_bound failing_volume example_bitmap example_group1
   \<and> fFirstFree example_group1 = 0
   \<and> AllocationGroup_Allocate failing_volume example_group1 example_bitmap 0 5
       = Some (B_IO_ERROR,
           example_group1\<lparr>fFirstFree := 5, fFreeBits := 8187, fLargestStart := 5,
             fLargestLength := 8187, fLargestValid := False\<rparr>,
           example_bitmap)
   \<and> fFirstFree (example_group1\<lparr>fFirstFree := 5, fFreeBits := 8187, fLargestStart := 5,
                    fLargestLength := 8187, fLargestValid := False\<rparr>) = 5
   \<and> \<not> group_bit failing_volume example_bitmap
          (example_group1\<lparr>fFirstFree := 5, fFreeBits := 8187, fLargestStart := 5,
             fLargestLength := 8187, fLargestValid := False\<rparr>) 0
   \<and> \<not> first_free_bound failing_volume example_bitmap
          (example_group1\<lparr>fFirstFree := 5, fFreeBits := 8187, fLargestStart := 5,
             fLargestLength := 8187, fLargestValid := False\<rparr>)"
proof -
  let ?g = "example_group1\<lparr>fFirstFree := 5, fFreeBits := 8187, fLargestStart := 5,
             fLargestLength := 8187, fLargestValid := False\<rparr>"
  have b0: "\<not> group_bit failing_volume example_bitmap ?g 0"
    by (simp add: group_bit_def block_bit_def)
  have "\<not> first_free_bound failing_volume example_bitmap ?g"
    unfolding first_free_bound_def using b0 by (auto intro!: exI [of _ 0])
  moreover have "first_free_bound failing_volume example_bitmap example_group1"
    by (auto simp: first_free_bound_def)
  ultimately show ?thesis using b0 by (simp add: failing_Allocate)
qed

text \<open>
  C7 as amended. A group is within the limits of the format when the blocks have at most
  8192 bytes and the group has at most 65536 bits. The first-free hint of a group is a
  lower bound (every bit of the group below it is set) after initialization: format sets
  the hint to 0, and the mount-time scan leaves it at the first unset bit of the group,
  for every group within the limits of the format whose blocks it has read, when the bits
  of the group lie in the blocks that the scan has read for it (\<open>fBlocksPerGroup\<close> blocks
  of \<open>2 ^ BlockShift\<close> bytes, a multiple of 4) and its bitmap starts where the scan has
  read it. Let the hint of a group within the limits of the format be a lower bound. For
  every run inside the group of at most 65535 bits, the group allocate and the group free
  of the run return, with \<^verbatim>\<open>B_OK\<close> when the cache delivers the bitmap blocks of the group.
  Allocate moves the hint, to \<open>start + len\<close>, exactly when the run starts at the hint,
  whatever it returns; the hint is a lower bound again afterwards when allocate returns
  \<^verbatim>\<open>B_OK\<close> or the run does not start at the hint. Free moves the hint, to \<open>start\<close>,
  exactly when the run starts strictly below it, and the hint is a lower bound again
  afterwards, whatever free returns.
\<close>

theorem first_free_hint_lower_bound:
  assumes g: "valid_geometry volume grp"
    and rng: "0 \<le> start" "start < 65536" "0 \<le> len" "len \<le> 65535"
      "start + len \<le> fNumBits grp"
    and inv: "first_free_bound volume bm grp"
  shows "first_free_bound volume bm0 (format_group numBits numBitmapBlocks offset)
    \<and> (i < length raw \<and> (\<forall>j\<le>i. read_ok mount (1 + int j * fBlocksPerGroup mount))
         \<and> 4 dvd BlockSize volume \<and> BlockSize volume = 2 ^ nat (BlockShift mount)
         \<and> valid_geometry volume (mounted_groups volume mount bm0 raw ! i)
         \<and> fNumBits (mounted_groups volume mount bm0 raw ! i)
              \<le> fBlocksPerGroup mount * bitsPerBlock volume
         \<and> fStart (mounted_groups volume mount bm0 raw ! i) = 1 + int i * fBlocksPerGroup mount
          \<longrightarrow> first_free_bound volume bm0 (mounted_groups volume mount bm0 raw ! i))
    \<and> (\<exists>st grp' bm'. AllocationGroup_Allocate volume grp bm start len = Some (st, grp', bm')
            \<and> (group_readable volume grp \<longrightarrow> st = B_OK)
            \<and> fFirstFree grp' = (if start = fFirstFree grp then start + len else fFirstFree grp)
            \<and> (st = B_OK \<or> start \<noteq> fFirstFree grp \<longrightarrow> first_free_bound volume bm' grp'))
    \<and> (\<exists>st grp' bm'. AllocationGroup_Free volume grp bm start len = Some (st, grp', bm')
            \<and> (group_readable volume grp \<longrightarrow> st = B_OK)
            \<and> fFirstFree grp' = (if start < fFirstFree grp then start else fFirstFree grp)
            \<and> first_free_bound volume bm' grp')"
proof (intro conjI)
  show "first_free_bound volume bm0 (format_group numBits numBitmapBlocks offset)"
    by (auto simp: first_free_bound_def format_group_def)
next
  show "i < length raw \<and> (\<forall>j\<le>i. read_ok mount (1 + int j * fBlocksPerGroup mount))
         \<and> 4 dvd BlockSize volume \<and> BlockSize volume = 2 ^ nat (BlockShift mount)
         \<and> valid_geometry volume (mounted_groups volume mount bm0 raw ! i)
         \<and> fNumBits (mounted_groups volume mount bm0 raw ! i)
              \<le> fBlocksPerGroup mount * bitsPerBlock volume
         \<and> fStart (mounted_groups volume mount bm0 raw ! i) = 1 + int i * fBlocksPerGroup mount
          \<longrightarrow> first_free_bound volume bm0 (mounted_groups volume mount bm0 raw ! i)"
    using mounted_group_first [of i raw mount volume bm0] by blast
next
  let ?h = "Allocate_hints grp start len"
  show "\<exists>st grp' bm'. AllocationGroup_Allocate volume grp bm start len = Some (st, grp', bm')
            \<and> (group_readable volume grp \<longrightarrow> st = B_OK)
            \<and> fFirstFree grp' = (if start = fFirstFree grp then start + len else fFirstFree grp)
            \<and> (st = B_OK \<or> start \<noteq> fFirstFree grp \<longrightarrow> first_free_bound volume bm' grp')"
  proof (rule AllocationGroup_Allocate_returns [OF g rng, of bm])
    fix st bm'
    let ?g = "if st = B_OK then ?h else ?h\<lparr>fLargestValid := False\<rparr>"
    assume res: "AllocationGroup_Allocate volume grp bm start len = Some (st, ?g, bm')"
      and rd: "group_readable volume grp \<Longrightarrow> st = B_OK"
      and bits: "\<And>p grp'. 0 \<le> p \<Longrightarrow> fStart grp' = fStart grp \<Longrightarrow>
         (group_bit volume bm grp' p \<longrightarrow> group_bit volume bm' grp' p)
         \<and> (group_bit volume bm' grp' p \<longrightarrow>
              group_bit volume bm grp' p \<or> (start \<le> p \<and> p < start + len))
         \<and> (st = B_OK \<longrightarrow> start \<le> p \<and> p < start + len \<longrightarrow> group_bit volume bm' grp' p)"
    have f: "fFirstFree ?g = (if start = fFirstFree grp then start + len else fFirstFree grp)"
      and n: "fNumBits ?g = fNumBits grp" and s: "fStart ?g = fStart grp"
      by (simp_all add: hints_counters)
    have bound: "first_free_bound volume bm' ?g" if c: "st = B_OK \<or> start \<noteq> fFirstFree grp"
      unfolding first_free_bound_def
    proof (intro allI impI)
      fix p
      assume "0 \<le> p \<and> p < fFirstFree ?g \<and> p < fNumBits ?g"
      then have p: "0 \<le> p" "p < fFirstFree ?g" "p < fNumBits grp" by (simp_all only: n)
      show "group_bit volume bm' ?g p"
      proof (cases "st = B_OK \<and> start \<le> p \<and> p < start + len")
        case True
        then show ?thesis using bits [OF p(1) s] by blast
      next
        case False
        with p(2) c have "p < fFirstFree grp" unfolding f by (auto split: if_splits)
        with inv p have "group_bit volume bm grp p" by (simp add: first_free_bound_def)
        then have "group_bit volume bm ?g p" by (simp only: group_bit_cong [OF s])
        then show ?thesis using bits [OF p(1) s] by blast
      qed
    qed
    from res rd f bound show ?thesis by blast
  qed
next
  let ?g = "Free_hints grp start len"
  show "\<exists>st grp' bm'. AllocationGroup_Free volume grp bm start len = Some (st, grp', bm')
            \<and> (group_readable volume grp \<longrightarrow> st = B_OK)
            \<and> fFirstFree grp' = (if start < fFirstFree grp then start else fFirstFree grp)
            \<and> first_free_bound volume bm' grp'"
  proof (rule AllocationGroup_Free_returns [OF g rng, of bm])
    fix st bm'
    assume res: "AllocationGroup_Free volume grp bm start len = Some (st, ?g, bm')"
      and rd: "group_readable volume grp \<Longrightarrow> st = B_OK"
      and bits: "\<And>p grp'. 0 \<le> p \<Longrightarrow> fStart grp' = fStart grp \<Longrightarrow>
         (group_bit volume bm' grp' p \<longrightarrow> group_bit volume bm grp' p)
         \<and> (group_bit volume bm grp' p \<longrightarrow>
              group_bit volume bm' grp' p \<or> (start \<le> p \<and> p < start + len))
         \<and> (st = B_OK \<longrightarrow> start \<le> p \<and> p < start + len \<longrightarrow> \<not> group_bit volume bm' grp' p)"
    have f: "fFirstFree ?g = (if start < fFirstFree grp then start else fFirstFree grp)"
      and n: "fNumBits ?g = fNumBits grp" and s: "fStart ?g = fStart grp"
      by (simp_all add: hints_counters)
    have bound: "first_free_bound volume bm' ?g"
      unfolding first_free_bound_def
    proof (intro allI impI)
      fix p
      assume "0 \<le> p \<and> p < fFirstFree ?g \<and> p < fNumBits ?g"
      then have p: "0 \<le> p" "p < fFirstFree ?g" "p < fNumBits grp" by (simp_all only: n)
      from p(2) have below: "p < fFirstFree grp" "p < start \<or> \<not> start < fFirstFree grp"
        unfolding f by (auto split: if_splits)
      with inv p have "group_bit volume bm grp p" by (simp add: first_free_bound_def)
      then have "group_bit volume bm ?g p" by (simp only: group_bit_cong [OF s])
      moreover have "\<not> (start \<le> p \<and> p < start + len)" using below by auto
      ultimately show "group_bit volume bm' ?g p" using bits [OF p(1) s] by blast
    qed
    from res rd f bound show ?thesis by blast
  qed
qed

theorem first_free_hint_lower_bound_witness:
  "first_free_bound example_volume example_bitmap example_group1
   \<and> (\<exists>grp' bm'. AllocationGroup_Allocate example_volume example_group1 example_bitmap 0 5
                    = Some (B_OK, grp', bm')
         \<and> fFirstFree grp' = 5 \<and> first_free_bound example_volume bm' grp')
   \<and> (\<exists>grp' bm'. AllocationGroup_Free example_volume example_group1 example_bitmap 0 5
                    = Some (B_OK, grp', bm')
         \<and> fFirstFree grp' = 0 \<and> first_free_bound example_volume bm' grp')
   \<and> first_free_bound example_volume example_bitmap
        (mounted_groups example_volume example_mount example_bitmap
           [example_group0, example_group1] ! 0)"
proof -
  let ?raw = "[example_group0, example_group1]"
  have inv: "first_free_bound example_volume example_bitmap example_group1"
    by (auto simp: first_free_bound_def)
  have prem: "valid_geometry example_volume example_group1" "(0::int) \<le> 0" "(0::int) < 65536"
    "(0::int) \<le> 5" "(5::int) \<le> 65535" "0 + 5 \<le> fNumBits example_group1"
    by simp_all
  note t = first_free_hint_lower_bound [OF prem inv,
      where mount = example_mount and raw = ?raw and i = 0 and ?bm0.0 = example_bitmap]
  note f = example_mounted_group0 [of ?raw example_bitmap]
  from t [THEN conjunct2, THEN conjunct1] f
  have m: "first_free_bound example_volume example_bitmap
             (mounted_groups example_volume example_mount example_bitmap ?raw ! 0)"
    by simp
  from t [THEN conjunct2, THEN conjunct2] inv m
  show ?thesis by simp
qed

end
